(* ===== verification/Leaf_Prelude.thy ===== *)
theory Leaf_Prelude
  imports Main "HOL-Library.Word" "HOL-Library.Signed_Division"
begin

text \<open>
  The vocabulary every component of the development shares.

  \<^item> \<open>fault\<close> and \<open>'a res\<close>: how a call of the C++ code can end. The build is a Debug build
    (the CMake files set \<^verbatim>\<open>CMAKE_BUILD_TYPE Debug\<close>), so a failing \<^verbatim>\<open>assert\<close> ends the process; so do
    \<^verbatim>\<open>LOG_FATAL\<close> and \<^verbatim>\<open>LOG_SYSFATAL\<close>. Reads and writes outside an object are kept
    apart as \<open>OutOfBounds\<close>, so that a theorem of the shape \<open>f x = Inr y\<close> excludes them.
  \<^item> \<open>size_t\<close> arithmetic on \<open>nat\<close> with the wrap-around at 64 bits written out
    (\<open>sz_add\<close>, \<open>sz_sub\<close>), and conversions between the integer types (\<open>wrap_s\<close>).
  \<^item> storage of a contiguous array as a list, with \<open>mem_write\<close> for \<^verbatim>\<open>memcpy\<close> and
    \<^verbatim>\<open>std::copy\<close>.
  \<^item> decimal printing as \<^verbatim>\<open>printf\<close> does it, and its inverse.
  \<^item> the locale \<open>transition_system\<close>: an invariant that the initial states have and every
    step keeps holds in every reachable state. Each state machine of the development
    interprets it.
\<close>

section \<open>How a call ends\<close>

datatype fault =
    AssertFailed string
  | Fatal string
  | OutOfBounds
  | LengthError

type_synonym 'a res = "fault + 'a"

fun bindR :: "'a res \<Rightarrow> ('a \<Rightarrow> 'b res) \<Rightarrow> 'b res" where
  "bindR (Inl e) f = Inl e"
| "bindR (Inr x) f = f x"

definition assertR :: "bool \<Rightarrow> string \<Rightarrow> unit res" where
  "assertR c what = (if c then Inr () else Inl (AssertFailed what))"

text \<open>A loop that stops at the first fault, as a \<^verbatim>\<open>for\<close> over a container does.\<close>

fun foldR :: "('a \<Rightarrow> 's \<Rightarrow> 's res) \<Rightarrow> 'a list \<Rightarrow> 's \<Rightarrow> 's res" where
  "foldR f [] s = Inr s"
| "foldR f (x # xs) s = bindR (f x s) (foldR f xs)"

section \<open>Machine integers\<close>

definition SIZE_MOD :: nat where
  "SIZE_MOD = 2 ^ 64"

text \<open>\<^verbatim>\<open>std::vector<char>::max_size()\<close> of a 64-bit libstdc++: \<^verbatim>\<open>PTRDIFF_MAX\<close>.\<close>

definition MAX_SIZE :: nat where
  "MAX_SIZE = 2 ^ 63 - 1"

definition sz_add :: "nat \<Rightarrow> nat \<Rightarrow> nat" where
  "sz_add a b = (a + b) mod SIZE_MOD"

definition sz_sub :: "nat \<Rightarrow> nat \<Rightarrow> nat" where
  "sz_sub a b = nat ((int a - int b) mod int SIZE_MOD)"

text \<open>The value of \<open>x\<close> after a conversion to a signed integer of \<open>n\<close> bits.\<close>

definition wrap_s :: "nat \<Rightarrow> int \<Rightarrow> int" where
  "wrap_s n x = (x + 2 ^ (n - 1)) mod 2 ^ n - 2 ^ (n - 1)"

definition in_int32 :: "int \<Rightarrow> bool" where
  "in_int32 x \<longleftrightarrow> - (2 ^ 31) \<le> x \<and> x < 2 ^ 31"

definition in_int64 :: "int \<Rightarrow> bool" where
  "in_int64 x \<longleftrightarrow> - (2 ^ 63) \<le> x \<and> x < 2 ^ 63"

text \<open>\<^verbatim>\<open>static_cast<int>(n)\<close> of a \<^verbatim>\<open>size_t\<close>, and an \<^verbatim>\<open>int\<close> passed where a \<^verbatim>\<open>size_t\<close> is
  expected.\<close>

definition size_to_int :: "nat \<Rightarrow> int" where
  "size_to_int n = wrap_s 32 (int n)"

definition int_to_size :: "int \<Rightarrow> nat" where
  "int_to_size x = nat (x mod int SIZE_MOD)"

section \<open>Storage\<close>

definition mem_write :: "nat \<Rightarrow> 'a list \<Rightarrow> 'a list \<Rightarrow> 'a list res" where
  "mem_write i xs mem =
     (if i + length xs \<le> length mem
      then Inr (take i mem @ xs @ drop (i + length xs) mem)
      else Inl OutOfBounds)"

definition mem_read :: "nat \<Rightarrow> nat \<Rightarrow> 'a list \<Rightarrow> 'a list res" where
  "mem_read i n mem = (if i + n \<le> length mem then Inr (take n (drop i mem)) else Inl OutOfBounds)"

definition slice :: "nat \<Rightarrow> nat \<Rightarrow> 'a list \<Rightarrow> 'a list" where
  "slice i j xs = take (j - i) (drop i xs)"

section \<open>Decimal output\<close>

fun show_nat :: "nat \<Rightarrow> string" where
  "show_nat n = (if n < 10 then [char_of (48 + n)] else show_nat (n div 10) @ [char_of (48 + n mod 10)])"

declare show_nat.simps [simp del]

definition show_int :: "int \<Rightarrow> string" where
  "show_int i = (if i < 0 then CHR ''-'' # show_nat (nat (- i)) else show_nat (nat i))"

text \<open>\<^verbatim>\<open>%Nd\<close> pads with blanks on the left; \<^verbatim>\<open>%0Nd\<close> pads with zeros after the sign.\<close>

definition pad_left :: "char \<Rightarrow> nat \<Rightarrow> string \<Rightarrow> string" where
  "pad_left c n s = replicate (n - length s) c @ s"

definition printf_d :: "nat \<Rightarrow> int \<Rightarrow> string" where
  "printf_d n i = pad_left (CHR '' '') n (show_int i)"

definition printf_0d :: "nat \<Rightarrow> int \<Rightarrow> string" where
  "printf_0d n i =
     (if i < 0 then CHR ''-'' # pad_left (CHR ''0'') (n - 1) (show_nat (nat (- i)))
      else pad_left (CHR ''0'') n (show_nat (nat i)))"

text \<open>\<^verbatim>\<open>snprintf(buf, n, ...)\<close> keeps at most \<open>n - 1\<close> characters and returns the
  length it would have needed.\<close>

definition snprintf_buf :: "nat \<Rightarrow> string \<Rightarrow> string" where
  "snprintf_buf n s = take (n - 1) s"

definition digit_val :: "char \<Rightarrow> nat" where
  "digit_val c = of_char c - 48"

definition parse_nat :: "string \<Rightarrow> nat" where
  "parse_nat s = foldl (\<lambda>n c. 10 * n + digit_val c) 0 s"

definition is_digit :: "char \<Rightarrow> bool" where
  "is_digit c \<longleftrightarrow> 48 \<le> (of_char c :: nat) \<and> (of_char c :: nat) \<le> 57"

section \<open>Reachable states\<close>

inductive reach :: "('s \<Rightarrow> bool) \<Rightarrow> ('s \<Rightarrow> 's \<Rightarrow> bool) \<Rightarrow> 's \<Rightarrow> bool"
  for init :: "'s \<Rightarrow> bool" and step :: "'s \<Rightarrow> 's \<Rightarrow> bool" where
  reach_init: "init s \<Longrightarrow> reach init step s"
| reach_step: "reach init step s \<Longrightarrow> step s t \<Longrightarrow> reach init step t"

section \<open>Collections of facts\<close>

named_theorems res_simps \<open>how \<open>bindR\<close> and \<open>assertR\<close> end\<close>
named_theorems size_simps \<open>64-bit sizes where nothing wraps\<close>

section \<open>Lemmas on results\<close>

lemma bindR_eq_Inr [res_simps]: "bindR m f = Inr y \<longleftrightarrow> (\<exists>x. m = Inr x \<and> f x = Inr y)"
  by (cases m) auto

lemma bindR_eq_Inl: "bindR m f = Inl e \<longleftrightarrow> m = Inl e \<or> (\<exists>x. m = Inr x \<and> f x = Inl e)"
  by (cases m) auto

lemma bindR_assoc: "bindR (bindR m f) g = bindR m (\<lambda>x. bindR (f x) g)"
  by (cases m) auto

lemma bindR_assert [simp]:
  "bindR (assertR c what) f = (if c then f () else Inl (AssertFailed what))"
  by (simp add: assertR_def)

lemma assertR_Inr [simp]: "assertR c what = Inr u \<longleftrightarrow> c"
  by (simp add: assertR_def)

lemma foldR_append: "foldR f (xs @ ys) s = bindR (foldR f xs s) (foldR f ys)"
proof (induction xs arbitrary: s)
  case (Cons x xs)
  then show ?case by (cases "f x s") auto
qed simp

lemma foldR_last: "bindR m (foldR f []) = m"
  by (cases m) simp_all

lemma foldR_single: "foldR f [x] s = f x s"
  by (simp add: foldR_last)

text \<open>A fold whose body keeps an invariant and, under it, never faults.\<close>

lemma foldR_total:
  assumes "I s" and "\<And>x s. x \<in> set xs \<Longrightarrow> I s \<Longrightarrow> \<exists>t. f x s = Inr t \<and> I t"
  shows "\<exists>t. foldR f xs s = Inr t \<and> I t"
  using assms
proof (induction xs arbitrary: s)
  case (Cons x xs)
  then obtain t where "f x s = Inr t" "I t" by fastforce
  with Cons show ?case by fastforce
qed simp

text \<open>A run whose every step is within its contract where it is taken.\<close>

fun steps_ok :: "('e \<Rightarrow> 's \<Rightarrow> 's res) \<Rightarrow> ('e \<Rightarrow> 's \<Rightarrow> bool) \<Rightarrow> 'e list \<Rightarrow> 's \<Rightarrow> bool" where
  "steps_ok step ok [] s \<longleftrightarrow> True"
| "steps_ok step ok (x # xs) s \<longleftrightarrow> ok x s \<and> (case step x s of Inl _ \<Rightarrow> True | Inr s' \<Rightarrow> steps_ok step ok xs s')"

lemma steps_ok_always: "(\<And>x s. x \<in> set xs \<Longrightarrow> ok x s) \<Longrightarrow> steps_ok step ok xs s"
  by (induction xs arbitrary: s) (auto split: sum.split)

lemma steps_ok_total:
  assumes "I s" "steps_ok f ok xs s" and "\<And>x s. ok x s \<Longrightarrow> I s \<Longrightarrow> \<exists>t. f x s = Inr t \<and> I t"
  shows "\<exists>t. foldR f xs s = Inr t \<and> I t"
  using assms(1,2)
proof (induction xs arbitrary: s)
  case (Cons x xs)
  then obtain t where "f x s = Inr t" "I t" using assms(3) by fastforce
  with Cons show ?case by fastforce
qed simp

section \<open>Lemmas on sizes\<close>

lemma sz_sub_eq [size_simps]: "b \<le> a \<Longrightarrow> a < SIZE_MOD \<Longrightarrow> sz_sub a b = a - b"
  by (simp add: sz_sub_def SIZE_MOD_def mod_pos_pos_trivial nat_diff_distrib)

lemma sz_add_eq [size_simps]: "a + b < SIZE_MOD \<Longrightarrow> sz_add a b = a + b"
  by (simp add: sz_add_def)

lemma sz_add_less [simp]: "sz_add a b < SIZE_MOD"
  by (simp add: sz_add_def SIZE_MOD_def)

lemma MAX_SIZE_less: "n \<le> MAX_SIZE \<Longrightarrow> m \<le> MAX_SIZE \<Longrightarrow> n + m < SIZE_MOD"
  by (simp add: MAX_SIZE_def SIZE_MOD_def)

lemma wrap_s_eq: "- (2 ^ (n - 1)) \<le> x \<Longrightarrow> x < 2 ^ (n - 1) \<Longrightarrow> 0 < n \<Longrightarrow> wrap_s n x = x"
proof -
  assume "- (2 ^ (n - 1)) \<le> x" "x < 2 ^ (n - 1)" "0 < n"
  moreover have "(2::int) ^ n = 2 * 2 ^ (n - 1)"
    using \<open>0 < n\<close> by (simp add: power_eq_if)
  ultimately show ?thesis by (simp add: wrap_s_def)
qed

lemma wrap_s_range:
  assumes "0 < n"
  shows "- (2 ^ (n - 1)) \<le> wrap_s n x \<and> wrap_s n x < 2 ^ (n - 1)"
proof -
  have "(2::int) ^ n = 2 * 2 ^ (n - 1)"
    using assms by (simp add: power_eq_if)
  moreover have "0 \<le> (x + 2 ^ (n - 1)) mod 2 ^ n" "(x + 2 ^ (n - 1)) mod 2 ^ n < 2 ^ n"
    by simp_all
  ultimately show ?thesis unfolding wrap_s_def by linarith
qed

lemma size_to_int_eq [size_simps]: "n < 2 ^ 31 \<Longrightarrow> size_to_int n = int n"
  unfolding size_to_int_def by (rule wrap_s_eq) (auto simp: zless_nat_eq_int_zless)

lemma int_to_size_nonneg [size_simps]: "0 \<le> x \<Longrightarrow> x < int SIZE_MOD \<Longrightarrow> int_to_size x = nat x"
  by (simp add: int_to_size_def)

section \<open>Lemmas on storage\<close>

lemma mem_write_Inr [simp]:
  "mem_write i xs mem = Inr mem' \<longleftrightarrow>
     i + length xs \<le> length mem \<and> mem' = take i mem @ xs @ drop (i + length xs) mem"
  by (auto simp: mem_write_def)

lemma mem_read_Inr [simp]:
  "mem_read i n mem = Inr xs \<longleftrightarrow> i + n \<le> length mem \<and> xs = take n (drop i mem)"
  by (auto simp: mem_read_def)

lemma length_slice [simp]: "length (slice i j xs) = min (j - i) (length xs - i)"
  by (simp add: slice_def)

lemma slice_append_slice: "i \<le> j \<Longrightarrow> j \<le> k \<Longrightarrow> slice i j xs @ slice j k xs = slice i k xs"
proof -
  assume "i \<le> j" "j \<le> k"
  then have "k - i = (j - i) + (k - j)" and "drop j xs = drop (j - i) (drop i xs)"
    by simp_all
  then show ?thesis by (simp add: slice_def take_add)
qed

lemma slice_same [simp]: "slice i i xs = []"
  by (simp add: slice_def)

lemma drop_slice: "drop n (slice i j xs) = slice (i + n) j xs"
  by (simp add: slice_def drop_take add.commute)

lemma take_slice: "n \<le> j - i \<Longrightarrow> take n (slice i j xs) = slice i (i + n) xs"
  by (simp add: slice_def min_absorb1)

lemma slice_write:
  "i \<le> w \<Longrightarrow> w \<le> length mem \<Longrightarrow> slice i (w + length xs) (take w mem @ xs @ post) = slice i w mem @ xs"
  by (simp add: slice_def drop_take)

section \<open>Lemmas on decimal output\<close>

lemma show_nat_nonempty [simp]: "show_nat n \<noteq> []"
  by (subst show_nat.simps) simp

lemma of_char_digit: "d < 10 \<Longrightarrow> (of_char (char_of (48 + d :: nat) :: char) :: nat) = 48 + d"
  by (simp add: of_char_of)

lemma digit_val_char_of [simp]: "d < 10 \<Longrightarrow> digit_val (char_of (48 + d)) = d"
  by (simp add: digit_val_def of_char_digit)

lemma is_digit_char_of [simp]: "d < 10 \<Longrightarrow> is_digit (char_of (48 + d :: nat))"
  by (simp add: is_digit_def of_char_digit)

lemma parse_nat_snoc [simp]: "parse_nat (s @ [c]) = 10 * parse_nat s + digit_val c"
  by (simp add: parse_nat_def)

lemma parse_show_nat [simp]: "parse_nat (show_nat n) = n"
proof (induction n rule: show_nat.induct)
  case (1 n)
  show ?case
  proof (cases "n < 10")
    case True
    then show ?thesis by (subst show_nat.simps) (simp add: parse_nat_def)
  next
    case False
    then show ?thesis by (subst show_nat.simps) (simp add: "1"[OF False])
  qed
qed

lemma set_show_nat: "c \<in> set (show_nat n) \<Longrightarrow> is_digit c"
proof (induction n rule: show_nat.induct)
  case (1 n)
  show ?case
  proof (cases "n < 10")
    case True
    with "1.prems" show ?thesis by (subst (asm) show_nat.simps) simp
  next
    case False
    with "1.prems" "1.IH" show ?thesis by (subst (asm) show_nat.simps) auto
  qed
qed

lemma length_show_nat_le: "n < 10 ^ k \<Longrightarrow> 0 < k \<Longrightarrow> length (show_nat n) \<le> k"
proof (induction n arbitrary: k rule: show_nat.induct)
  case (1 n)
  show ?case
  proof (cases "n < 10")
    case True
    with "1.prems" show ?thesis by (subst show_nat.simps) simp
  next
    case False
    then obtain j where k: "k = Suc j" "0 < j"
      using "1.prems" by (cases k; cases "k - 1") auto
    with "1.prems" have "n div 10 < 10 ^ j" by (simp add: less_mult_imp_div_less mult.commute)
    with "1.IH"[OF False this k(2)] False k show ?thesis by (subst show_nat.simps) simp
  qed
qed

lemma length_show_nat_ge: "10 ^ k \<le> n \<Longrightarrow> k < length (show_nat n)"
proof (induction n arbitrary: k rule: show_nat.induct)
  case (1 n)
  show ?case
  proof (cases "n < 10")
    case True
    have "k = 0"
    proof (rule ccontr)
      assume "k \<noteq> 0"
      then have "(10::nat) ^ 1 \<le> 10 ^ k" by (intro power_increasing) auto
      with True "1.prems" show False by simp
    qed
    then show ?thesis by simp
  next
    case False
    show ?thesis
    proof (cases k)
      case (Suc j)
      with "1.prems" have "10 ^ j \<le> n div 10" by (simp add: less_eq_div_iff_mult_less_eq mult.commute)
      with "1.IH"[OF False this] False Suc show ?thesis by (subst show_nat.simps) simp
    qed simp
  qed
qed

lemma show_nat_inject: "show_nat m = show_nat n \<longleftrightarrow> m = n"
  by (metis parse_show_nat)

lemma foldl_parse_replicate0:
  "foldl (\<lambda>n c. 10 * n + digit_val c) 0 (replicate k (CHR ''0'') @ s) = parse_nat s"
  by (induction k) (auto simp: parse_nat_def digit_val_def)

lemma parse_pad0 [simp]: "parse_nat (pad_left (CHR ''0'') n s) = parse_nat s"
  unfolding pad_left_def by (subst (1) parse_nat_def) (rule foldl_parse_replicate0)

lemma length_pad_left [simp]: "length (pad_left c n s) = max n (length s)"
  by (simp add: pad_left_def)

section \<open>Invariants of transition systems\<close>

locale transition_system =
  fixes init :: "'s \<Rightarrow> bool"
    and step :: "'s \<Rightarrow> 's \<Rightarrow> bool"
    and inv :: "'s \<Rightarrow> bool"
  assumes inv_init: "init s \<Longrightarrow> inv s"
    and inv_step: "inv s \<Longrightarrow> step s t \<Longrightarrow> inv t"
begin

lemma reach_inv: "reach init step s \<Longrightarrow> inv s"
  by (induction rule: reach.induct) (auto intro: inv_init inv_step)

end

end
