(* ===== verification/Endian.thy ===== *)
theory Endian
  imports Leaf_Prelude
begin

text \<open>
  Byte order (\<^verbatim>\<open>src/net/Endian.h\<close>). A word of the program is a \<open>'a word\<close>; what \<^verbatim>\<open>memcpy\<close> sees
  of it depends on the byte order of the host, which is the parameter \<open>ho\<close>. The six
  conversion functions are \<^verbatim>\<open>htobeNN\<close> and \<^verbatim>\<open>beNNtoh\<close>: a byte swap on a little-endian
  host, nothing on a big-endian one. The lemmas say that, whatever the host, the bytes a
  converted word leaves in memory are the big-endian ones, and that converting bytes read from
  memory gives the big-endian value: the two facts \<open>Buffer\<close> relies on.
\<close>

unbundle bit_operations_syntax

type_synonym byte = "8 word"

datatype byte_order = Little | Big

section \<open>Words in memory\<close>

fun le_bytes :: "nat \<Rightarrow> 'a::len word \<Rightarrow> byte list" where
  "le_bytes 0 w = []"
| "le_bytes (Suc k) w = ucast w # le_bytes k (drop_bit 8 w)"

fun of_le :: "byte list \<Rightarrow> 'a::len word" where
  "of_le [] = 0"
| "of_le (b # bs) = ucast b OR push_bit 8 (of_le bs)"

definition be_bytes :: "nat \<Rightarrow> 'a::len word \<Rightarrow> byte list" where
  "be_bytes k w = rev (le_bytes k w)"

definition of_be :: "byte list \<Rightarrow> 'a::len word" where
  "of_be bs = of_le (rev bs)"

definition mem_of :: "byte_order \<Rightarrow> nat \<Rightarrow> 'a::len word \<Rightarrow> byte list" where
  "mem_of ho k w = (case ho of Little \<Rightarrow> le_bytes k w | Big \<Rightarrow> be_bytes k w)"

definition of_mem :: "byte_order \<Rightarrow> byte list \<Rightarrow> 'a::len word" where
  "of_mem ho bs = (case ho of Little \<Rightarrow> of_le bs | Big \<Rightarrow> of_be bs)"

definition bswap :: "nat \<Rightarrow> 'a::len word \<Rightarrow> 'a word" where
  "bswap k w = of_le (rev (le_bytes k w))"

definition htobe :: "byte_order \<Rightarrow> nat \<Rightarrow> 'a::len word \<Rightarrow> 'a word" where
  "htobe ho k w = (case ho of Little \<Rightarrow> bswap k w | Big \<Rightarrow> w)"

section \<open>The conversion functions\<close>

definition hostToNetwork64 :: "byte_order \<Rightarrow> 64 word \<Rightarrow> 64 word" where
  "hostToNetwork64 ho host64 = htobe ho 8 host64"

definition hostToNetwork32 :: "byte_order \<Rightarrow> 32 word \<Rightarrow> 32 word" where
  "hostToNetwork32 ho host32 = htobe ho 4 host32"

definition hostToNetwork16 :: "byte_order \<Rightarrow> 16 word \<Rightarrow> 16 word" where
  "hostToNetwork16 ho host16 = htobe ho 2 host16"

definition networkToHost64 :: "byte_order \<Rightarrow> 64 word \<Rightarrow> 64 word" where
  "networkToHost64 ho net64 = htobe ho 8 net64"

definition networkToHost32 :: "byte_order \<Rightarrow> 32 word \<Rightarrow> 32 word" where
  "networkToHost32 ho net32 = htobe ho 4 net32"

definition networkToHost16 :: "byte_order \<Rightarrow> 16 word \<Rightarrow> 16 word" where
  "networkToHost16 ho net16 = htobe ho 2 net16"

section \<open>Bytes and words\<close>

lemma length_le_bytes [simp]: "length (le_bytes k w) = k"
  by (induction k arbitrary: w) auto

lemma length_be_bytes [simp]: "length (be_bytes k w) = k"
  by (simp add: be_bytes_def)

lemma length_mem_of [simp]: "length (mem_of ho k w) = k"
  by (simp add: mem_of_def split: byte_order.split)

lemma of_le_le_bytes: "(of_le (le_bytes k w) :: 'a::len word) = take_bit (8 * k) (w :: 'a word)"
proof (induction k arbitrary: w)
  case (Suc k)
  show ?case
    by (rule bit_eqI) (auto simp: Suc bit_simps not_less)
qed simp

lemma of_le_le_bytes_full: "LENGTH('a) \<le> 8 * k \<Longrightarrow> of_le (le_bytes k (w :: 'a::len word)) = w"
  by (simp add: of_le_le_bytes take_bit_word_eq_self)

lemma bit_of_leD: "bit (of_le bs :: 'a::len word) n \<Longrightarrow> n < 8 * length bs"
proof (induction bs arbitrary: n)
  case (Cons b bs)
  show ?case
  proof (rule ccontr)
    assume "\<not> n < 8 * length (b # bs)"
    then have "8 \<le> n" "\<not> n - 8 < 8 * length bs" by auto
    moreover from this Cons.prems have "bit (of_le bs :: 'a word) (n - 8)"
      by (auto simp: bit_simps dest: bit_imp_le_length)
    ultimately show False using Cons.IH by blast
  qed
qed simp

lemma le_bytes_of_le:
  "8 * length bs \<le> LENGTH('a) \<Longrightarrow> le_bytes (length bs) (of_le bs :: 'a::len word) = bs"
proof (induction bs)
  case (Cons b bs)
  have "ucast (ucast b OR push_bit 8 (of_le bs) :: 'a word) = b"
    using Cons.prems by (intro bit_eqI) (auto simp: bit_simps dest: bit_imp_le_length)
  moreover have "drop_bit 8 (ucast b OR push_bit 8 (of_le bs)) = (of_le bs :: 'a word)"
    using Cons.prems
    by (intro bit_eqI) (auto simp: bit_simps dest: bit_imp_le_length bit_of_leD)
  ultimately show ?case using Cons by simp
qed simp

lemma le_bytes_rev_le_bytes [simp]:
  "8 * k \<le> LENGTH('a) \<Longrightarrow>
     le_bytes k (of_le (rev (le_bytes k (w :: 'a::len word))) :: 'a word) = rev (le_bytes k w)"
  using le_bytes_of_le [of "rev (le_bytes k w)", where 'a = 'a] by simp

lemma htobe_invol: "LENGTH('a) = 8 * k \<Longrightarrow> htobe ho k (htobe ho k (w :: 'a::len word)) = w"
  by (cases ho) (simp_all add: htobe_def bswap_def of_le_le_bytes_full)

lemma mem_of_htobe: "8 * k \<le> LENGTH('a) \<Longrightarrow> mem_of ho k (htobe ho k (w :: 'a::len word)) = be_bytes k w"
  by (cases ho) (simp_all add: mem_of_def htobe_def bswap_def be_bytes_def)

lemma htobe_of_mem:
  "length bs = k \<Longrightarrow> 8 * k \<le> LENGTH('a) \<Longrightarrow> htobe ho k (of_mem ho bs :: 'a::len word) = of_be bs"
  using le_bytes_of_le [of bs, where 'a = 'a]
  by (cases ho) (auto simp: of_mem_def htobe_def bswap_def of_be_def)

lemma of_be_be_bytes: "LENGTH('a) \<le> 8 * k \<Longrightarrow> of_be (be_bytes k (w :: 'a::len word)) = w"
  by (simp add: of_be_def be_bytes_def of_le_le_bytes_full)

lemma be_bytes_of_be: "8 * length bs \<le> LENGTH('a) \<Longrightarrow> be_bytes (length bs) (of_be bs :: 'a::len word) = bs"
  using le_bytes_of_le [of "rev bs", where 'a = 'a] by (simp add: be_bytes_def of_be_def)

lemmas net_defs =
  hostToNetwork64_def hostToNetwork32_def hostToNetwork16_def
  networkToHost64_def networkToHost32_def networkToHost16_def

lemma networkToHost_inverse:
  "networkToHost64 ho (hostToNetwork64 ho x) = x"
  "networkToHost32 ho (hostToNetwork32 ho y) = y"
  "networkToHost16 ho (hostToNetwork16 ho z) = z"
  by (simp_all add: net_defs htobe_invol)

lemma mem_of_hostToNetwork:
  "mem_of ho 8 (hostToNetwork64 ho x) = be_bytes 8 x"
  "mem_of ho 4 (hostToNetwork32 ho y) = be_bytes 4 y"
  "mem_of ho 2 (hostToNetwork16 ho z) = be_bytes 2 z"
  by (simp_all add: net_defs mem_of_htobe)

lemma networkToHost_of_mem:
  "length bs = 8 \<Longrightarrow> networkToHost64 ho (of_mem ho bs) = of_be bs"
  "length bs = 4 \<Longrightarrow> networkToHost32 ho (of_mem ho bs) = of_be bs"
  "length bs = 2 \<Longrightarrow> networkToHost16 ho (of_mem ho bs) = of_be bs"
  by (simp_all add: net_defs htobe_of_mem)

end
