(* ===== verification/Buffer.thy ===== *)
theory Buffer
  imports Endian
begin

text \<open>
  The growable I/O buffer (\<^verbatim>\<open>src/net/Buffer.h\<close>, \<^verbatim>\<open>src/net/Buffer.cc\<close>). The object is a record of
  its three members: the storage of the \<^verbatim>\<open>std::vector<char>\<close>, \<open>readerIndex\<close> and
  \<open>writerIndex\<close>. A \<^verbatim>\<open>char*\<close> into the storage is its offset. Every
  \<^verbatim>\<open>size_t\<close> sum and difference is the wrapping one of the prelude, every \<^verbatim>\<open>assert\<close> is
  a guard, every copy is checked against the storage. \<^verbatim>\<open>readv(2)\<close> is a parameter: it gets the
  lengths of the I/O vector and returns an errno or the bytes it delivered.

  \<open>content\<close> is the abstraction: the readable bytes. The locale \<open>byte_queue\<close> is what the
  connection relies on; it is interpreted on these definitions. The lemmas characterise every
  operation on \<open>content\<close>, and show which appends abort.
\<close>

section \<open>The object\<close>

record Buffer =
  buf_data :: "byte list"
  readerIndex :: nat
  writerIndex :: nat

definition kCheapPrepend :: nat where
  "kCheapPrepend = 8"

definition kInitialSize :: nat where
  "kInitialSize = 1024"

definition readableBytes :: "Buffer \<Rightarrow> nat" where
  "readableBytes b = sz_sub (writerIndex b) (readerIndex b)"

definition writableBytes :: "Buffer \<Rightarrow> nat" where
  "writableBytes b = sz_sub (length (buf_data b)) (writerIndex b)"

definition prependableBytes :: "Buffer \<Rightarrow> nat" where
  "prependableBytes b = readerIndex b"

definition peek :: "Buffer \<Rightarrow> nat" where
  "peek b = readerIndex b"

definition beginWrite :: "Buffer \<Rightarrow> nat" where
  "beginWrite b = writerIndex b"

definition Buffer_new :: Buffer where
  "Buffer_new = \<lparr>buf_data = replicate (kCheapPrepend + kInitialSize) 0,
     readerIndex = kCheapPrepend, writerIndex = kCheapPrepend\<rparr>"

definition Buffer_ctor :: "Buffer res" where
  "Buffer_ctor =
     bindR (assertR (readableBytes Buffer_new = 0) ''readableBytes() == 0'') (\<lambda>_.
     bindR (assertR (writableBytes Buffer_new = kInitialSize) ''writableBytes() == kInitialSize'') (\<lambda>_.
     bindR (assertR (prependableBytes Buffer_new = kCheapPrepend)
       ''prependableBytes() == kCheapPrepend'') (\<lambda>_. Inr Buffer_new)))"

text \<open>\<^verbatim>\<open>void swap(Buffer& rhs)\<close>: both objects after the call.\<close>

definition Buffer_swap :: "Buffer \<Rightarrow> Buffer \<Rightarrow> Buffer \<times> Buffer" where
  "Buffer_swap this rhs = (rhs, this)"

section \<open>Searching\<close>

function std_search :: "'a list \<Rightarrow> 'a list \<Rightarrow> nat \<Rightarrow> nat \<Rightarrow> nat" where
  "std_search mem pat i e =
     (if i < e \<and> i + length pat \<le> e then
        (if take (length pat) (drop i mem) = pat then i else std_search mem pat (Suc i) e)
      else e)"
  by pat_completeness auto
termination
  by (relation "measure (\<lambda>(mem, pat, i, e). e - i)") auto

declare std_search.simps [simp del]

fun index_of :: "'a \<Rightarrow> 'a list \<Rightarrow> nat option" where
  "index_of c [] = None"
| "index_of c (x # xs) = (if x = c then Some 0 else map_option Suc (index_of c xs))"

text \<open>\<^verbatim>\<open>memchr\<close> reads the characters one after the other and stops at the first match.\<close>

definition memchr :: "byte list \<Rightarrow> nat \<Rightarrow> byte \<Rightarrow> nat \<Rightarrow> nat option res" where
  "memchr mem s c n =
     (case index_of c (slice s (s + n) mem) of
        Some k \<Rightarrow> Inr (Some (s + k))
      | None \<Rightarrow> if s + n \<le> length mem then Inr None else Inl OutOfBounds)"

definition kCRLF :: "byte list" where
  "kCRLF = [13, 10]"

definition findCRLF :: "Buffer \<Rightarrow> nat option" where
  "findCRLF b =
     (let crlf = std_search (buf_data b) kCRLF (peek b) (beginWrite b)
      in if crlf = beginWrite b then None else Some crlf)"

definition findCRLF_from :: "nat \<Rightarrow> Buffer \<Rightarrow> nat option res" where
  "findCRLF_from start b =
     bindR (assertR (peek b \<le> start) ''peek() <= start'') (\<lambda>_.
     bindR (assertR (start \<le> beginWrite b) ''start <= beginWrite()'') (\<lambda>_.
       let crlf = std_search (buf_data b) kCRLF start (beginWrite b)
       in Inr (if crlf = beginWrite b then None else Some crlf)))"

definition findEOL :: "Buffer \<Rightarrow> nat option res" where
  "findEOL b = memchr (buf_data b) (peek b) 10 (readableBytes b)"

definition findEOL_from :: "nat \<Rightarrow> Buffer \<Rightarrow> nat option res" where
  "findEOL_from start b =
     bindR (assertR (peek b \<le> start) ''peek() <= start'') (\<lambda>_.
     bindR (assertR (start \<le> beginWrite b) ''start <= beginWrite()'') (\<lambda>_.
       memchr (buf_data b) start 10 (readableBytes b)))"

section \<open>Consuming\<close>

definition retrieveAll :: "Buffer \<Rightarrow> Buffer" where
  "retrieveAll b = b\<lparr>readerIndex := kCheapPrepend, writerIndex := kCheapPrepend\<rparr>"

definition retrieve :: "nat \<Rightarrow> Buffer \<Rightarrow> Buffer res" where
  "retrieve len b =
     bindR (assertR (len \<le> readableBytes b) ''len <= readableBytes()'') (\<lambda>_.
       if len < readableBytes b
       then Inr (b\<lparr>readerIndex := sz_add (readerIndex b) len\<rparr>)
       else Inr (retrieveAll b))"

definition retrieveUntil :: "nat \<Rightarrow> Buffer \<Rightarrow> Buffer res" where
  "retrieveUntil end_ptr b =
     bindR (assertR (peek b \<le> end_ptr) ''peek() <= end'') (\<lambda>_.
     bindR (assertR (end_ptr \<le> beginWrite b) ''end <= beginWrite()'') (\<lambda>_.
       retrieve (sz_sub end_ptr (peek b)) b))"

definition retrieveInt32 :: "Buffer \<Rightarrow> Buffer res" where
  "retrieveInt32 b = retrieve 4 b"

definition retrieveInt16 :: "Buffer \<Rightarrow> Buffer res" where
  "retrieveInt16 b = retrieve 2 b"

definition retrieveInt8 :: "Buffer \<Rightarrow> Buffer res" where
  "retrieveInt8 b = retrieve 1 b"

definition retrieveAsString :: "nat \<Rightarrow> Buffer \<Rightarrow> (byte list \<times> Buffer) res" where
  "retrieveAsString len b =
     bindR (assertR (len \<le> readableBytes b) ''len <= readableBytes()'') (\<lambda>_.
     bindR (mem_read (peek b) len (buf_data b)) (\<lambda>result.
     bindR (retrieve len b) (\<lambda>b'. Inr (result, b'))))"

definition retrieveAllAsString :: "Buffer \<Rightarrow> (byte list \<times> Buffer) res" where
  "retrieveAllAsString b = retrieveAsString (readableBytes b) b"

text \<open>A \<^verbatim>\<open>StringPiece\<close>: the memory its pointer reaches, and its \<^verbatim>\<open>int\<close> length.\<close>

definition toStringPiece :: "Buffer \<Rightarrow> byte list \<times> int" where
  "toStringPiece b = (drop (peek b) (buf_data b), size_to_int (readableBytes b))"

section \<open>Appending\<close>

definition vec_resize :: "nat \<Rightarrow> byte list \<Rightarrow> byte list res" where
  "vec_resize n mem =
     (if MAX_SIZE < n then Inl LengthError
      else Inr (take n mem @ replicate (n - length mem) 0))"

definition makeSpace :: "nat \<Rightarrow> Buffer \<Rightarrow> Buffer res" where
  "makeSpace len b =
     (if sz_add (writableBytes b) (prependableBytes b) < sz_add len kCheapPrepend
      then bindR (vec_resize (sz_add (writerIndex b) len) (buf_data b)) (\<lambda>mem.
             Inr (b\<lparr>buf_data := mem\<rparr>))
      else
        bindR (assertR (kCheapPrepend < readerIndex b) ''kCheapPrepend < readerIndex_'') (\<lambda>_.
          let readable = readableBytes b in
          bindR (mem_read (readerIndex b) readable (buf_data b)) (\<lambda>xs.
          bindR (mem_write kCheapPrepend xs (buf_data b)) (\<lambda>mem.
            let b1 = b\<lparr>buf_data := mem, readerIndex := kCheapPrepend\<rparr>;
                b2 = b1\<lparr>writerIndex := sz_add (readerIndex b1) (readableBytes b1)\<rparr>
            in bindR (assertR (readable = readableBytes b2) ''readable == readableBytes()'') (\<lambda>_.
                 Inr b2)))))"

definition ensureWritableBytes :: "nat \<Rightarrow> Buffer \<Rightarrow> Buffer res" where
  "ensureWritableBytes len b =
     bindR (if writableBytes b < len then makeSpace len b else Inr b) (\<lambda>b.
     bindR (assertR (len \<le> writableBytes b) ''writableBytes() >= len'') (\<lambda>_. Inr b))"

definition hasWritten :: "nat \<Rightarrow> Buffer \<Rightarrow> Buffer" where
  "hasWritten len b = b\<lparr>writerIndex := sz_add (writerIndex b) len\<rparr>"

text \<open>\<open>data\<close> is the memory the source pointer reaches.\<close>

definition Buffer_append :: "byte list \<Rightarrow> nat \<Rightarrow> Buffer \<Rightarrow> Buffer res" where
  "Buffer_append data len b =
     bindR (ensureWritableBytes len b) (\<lambda>b.
     bindR (mem_read 0 len data) (\<lambda>xs.
     bindR (mem_write (beginWrite b) xs (buf_data b)) (\<lambda>mem.
       Inr (hasWritten len (b\<lparr>buf_data := mem\<rparr>)))))"

definition Buffer_append_piece :: "byte list \<times> int \<Rightarrow> Buffer \<Rightarrow> Buffer res" where
  "Buffer_append_piece str b = Buffer_append (fst str) (int_to_size (snd str)) b"

definition appendInt32 :: "byte_order \<Rightarrow> 32 word \<Rightarrow> Buffer \<Rightarrow> Buffer res" where
  "appendInt32 ho x b = (let be32 = hostToNetwork32 ho x in Buffer_append (mem_of ho 4 be32) 4 b)"

definition appendInt16 :: "byte_order \<Rightarrow> 16 word \<Rightarrow> Buffer \<Rightarrow> Buffer res" where
  "appendInt16 ho x b = (let be16 = hostToNetwork16 ho x in Buffer_append (mem_of ho 2 be16) 2 b)"

definition appendInt8 :: "8 word \<Rightarrow> Buffer \<Rightarrow> Buffer res" where
  "appendInt8 x b = Buffer_append [x] 1 b"

section \<open>Reading integers\<close>

definition peekInt32 :: "byte_order \<Rightarrow> Buffer \<Rightarrow> 32 word res" where
  "peekInt32 ho b =
     bindR (assertR (4 \<le> readableBytes b) ''readableBytes() >= sizeof(int32_t)'') (\<lambda>_.
     bindR (mem_read (peek b) 4 (buf_data b)) (\<lambda>bs.
       Inr (networkToHost32 ho (of_mem ho bs))))"

text \<open>The source converts the \<^verbatim>\<open>int16_t\<close> with \<^verbatim>\<open>networkToHost32\<close>: a sign extension to 32 bits, the
  32-bit swap, and a truncation to 16 bits.\<close>

definition peekInt16 :: "byte_order \<Rightarrow> Buffer \<Rightarrow> 16 word res" where
  "peekInt16 ho b =
     bindR (assertR (2 \<le> readableBytes b) ''readableBytes() >= sizeof(int16_t)'') (\<lambda>_.
     bindR (mem_read (peek b) 2 (buf_data b)) (\<lambda>bs.
       let be16 = (of_mem ho bs :: 16 word)
       in Inr (ucast (networkToHost32 ho (scast be16)))))"

definition peekInt8 :: "Buffer \<Rightarrow> 8 word res" where
  "peekInt8 b =
     bindR (assertR (1 \<le> readableBytes b) ''readableBytes() >= sizeof(int8_t)'') (\<lambda>_.
     bindR (mem_read (peek b) 1 (buf_data b)) (\<lambda>bs. Inr (hd bs)))"

definition readInt32 :: "byte_order \<Rightarrow> Buffer \<Rightarrow> (32 word \<times> Buffer) res" where
  "readInt32 ho b = bindR (peekInt32 ho b) (\<lambda>x. bindR (retrieveInt32 b) (\<lambda>b'. Inr (x, b')))"

definition readInt16 :: "byte_order \<Rightarrow> Buffer \<Rightarrow> (16 word \<times> Buffer) res" where
  "readInt16 ho b = bindR (peekInt16 ho b) (\<lambda>x. bindR (retrieveInt16 b) (\<lambda>b'. Inr (x, b')))"

definition readInt8 :: "Buffer \<Rightarrow> (8 word \<times> Buffer) res" where
  "readInt8 b = bindR (peekInt8 b) (\<lambda>x. bindR (retrieveInt8 b) (\<lambda>b'. Inr (x, b')))"

section \<open>Prepending\<close>

definition prepend :: "byte list \<Rightarrow> nat \<Rightarrow> Buffer \<Rightarrow> Buffer res" where
  "prepend data len b =
     bindR (assertR (len \<le> prependableBytes b) ''len <= prependableBytes()'') (\<lambda>_.
       let b1 = b\<lparr>readerIndex := sz_sub (readerIndex b) len\<rparr> in
       bindR (mem_read 0 len data) (\<lambda>xs.
       bindR (mem_write (readerIndex b1) xs (buf_data b1)) (\<lambda>mem.
         Inr (b1\<lparr>buf_data := mem\<rparr>))))"

definition prependInt32 :: "byte_order \<Rightarrow> 32 word \<Rightarrow> Buffer \<Rightarrow> Buffer res" where
  "prependInt32 ho x b = (let be32 = hostToNetwork32 ho x in prepend (mem_of ho 4 be32) 4 b)"

definition preprendint16 :: "byte_order \<Rightarrow> 16 word \<Rightarrow> Buffer \<Rightarrow> Buffer res" where
  "preprendint16 ho x b = (let be16 = hostToNetwork16 ho x in prepend (mem_of ho 2 be16) 2 b)"

definition prependInt8 :: "8 word \<Rightarrow> Buffer \<Rightarrow> Buffer res" where
  "prependInt8 x b = prepend [x] 1 b"

definition shrind :: "nat \<Rightarrow> Buffer \<Rightarrow> Buffer res" where
  "shrind reserve b =
     bindR Buffer_ctor (\<lambda>other.
     bindR (ensureWritableBytes (sz_add (readableBytes b) reserve) other) (\<lambda>other.
     bindR (Buffer_append_piece (toStringPiece b) other) (\<lambda>other.
       Inr (fst (Buffer_swap b other)))))"

section \<open>Reading from a file descriptor\<close>

datatype sys_read = ReadErr int | ReadOk "byte list"

definition extrabuf_size :: nat where
  "extrabuf_size = 65536"

definition readFd_iov :: "Buffer \<Rightarrow> nat list" where
  "readFd_iov b =
     (if writableBytes b < extrabuf_size then [writableBytes b, extrabuf_size] else [writableBytes b])"

text \<open>The value returned, the errno saved on failure, and the object after the call.\<close>

definition readFd :: "(nat list \<Rightarrow> sys_read) \<Rightarrow> Buffer \<Rightarrow> (int \<times> int option \<times> Buffer) res" where
  "readFd readv b =
     (let writable = writableBytes b in
      case readv (readFd_iov b) of
        ReadErr e \<Rightarrow> Inr (-1, Some e, b)
      | ReadOk bs \<Rightarrow>
          bindR (mem_write (writerIndex b) (take writable bs) (buf_data b)) (\<lambda>mem.
            let b1 = b\<lparr>buf_data := mem\<rparr>; n = length bs in
            if n \<le> writable
            then Inr (int n, None, b1\<lparr>writerIndex := sz_add (writerIndex b1) n\<rparr>)
            else bindR (Buffer_append (drop writable bs) (sz_sub n writable)
                          (b1\<lparr>writerIndex := length (buf_data b1)\<rparr>)) (\<lambda>b2.
                   Inr (int n, None, b2))))"

section \<open>Clients of the class\<close>

text \<open>A call of a public member by a client, with any arguments. The one member without a
  check of its own is \<^verbatim>\<open>hasWritten\<close>: its caller must have written into the writable part. A
  source array is an object of the program, and \<^verbatim>\<open>readv\<close> delivers at most what the I/O
  vector holds.\<close>

inductive buf_step :: "Buffer \<Rightarrow> Buffer \<Rightarrow> bool" where
  st_append: "length data \<le> MAX_SIZE \<Longrightarrow> Buffer_append data len b = Inr b' \<Longrightarrow> buf_step b b'"
| st_ensure: "len \<le> MAX_SIZE \<Longrightarrow> ensureWritableBytes len b = Inr b' \<Longrightarrow> buf_step b b'"
| st_written: "len \<le> writableBytes b \<Longrightarrow> buf_step b (hasWritten len b)"
| st_retrieve: "retrieve len b = Inr b' \<Longrightarrow> buf_step b b'"
| st_until: "retrieveUntil p b = Inr b' \<Longrightarrow> buf_step b b'"
| st_all: "buf_step b (retrieveAll b)"
| st_string: "retrieveAsString len b = Inr (xs, b') \<Longrightarrow> buf_step b b'"
| st_prepend: "prepend data len b = Inr b' \<Longrightarrow> buf_step b b'"
| st_readFd: "(\<And>bs. readv (readFd_iov b) = ReadOk bs \<Longrightarrow> length bs \<le> sum_list (readFd_iov b)) \<Longrightarrow>
     readFd readv b = Inr (n, e, b') \<Longrightarrow> buf_step b b'"

section \<open>Invariant and abstraction\<close>

definition buf_inv :: "Buffer \<Rightarrow> bool" where
  "buf_inv b \<longleftrightarrow> readerIndex b \<le> writerIndex b \<and> writerIndex b \<le> length (buf_data b)
     \<and> length (buf_data b) \<le> MAX_SIZE \<and> kCheapPrepend \<le> length (buf_data b)"

definition content :: "Buffer \<Rightarrow> byte list" where
  "content b = slice (readerIndex b) (writerIndex b) (buf_data b)"

definition crlf_at :: "byte list \<Rightarrow> nat \<Rightarrow> bool" where
  "crlf_at xs i \<longleftrightarrow> i + 1 < length xs \<and> xs ! i = 13 \<and> xs ! (i + 1) = 10"

text \<open>When \<open>len\<close> more bytes make \<^verbatim>\<open>makeSpace\<close> move the readable bytes to the front.\<close>

definition compacts :: "nat \<Rightarrow> Buffer \<Rightarrow> bool" where
  "compacts len b \<longleftrightarrow> writableBytes b < len
     \<and> len + kCheapPrepend \<le> writableBytes b + prependableBytes b"

definition appendable :: "nat \<Rightarrow> Buffer \<Rightarrow> bool" where
  "appendable len b \<longleftrightarrow> \<not> compacts len b \<and> writerIndex b + len \<le> MAX_SIZE"


section \<open>The interface of a byte queue\<close>

text \<open>What a connection relies on: appended bytes come out in order, unless the append is one
  that the provider does not accept (\<open>appendable\<close>).\<close>

locale byte_queue =
  fixes content :: "'b \<Rightarrow> byte list"
    and inv :: "'b \<Rightarrow> bool"
    and readable :: "'b \<Rightarrow> nat"
    and appendable :: "nat \<Rightarrow> 'b \<Rightarrow> bool"
    and append :: "byte list \<Rightarrow> nat \<Rightarrow> 'b \<Rightarrow> 'b res"
    and retrieve :: "nat \<Rightarrow> 'b \<Rightarrow> 'b res"
  assumes readable: "inv q \<Longrightarrow> readable q = length (content q)"
    and append: "inv q \<Longrightarrow> appendable n q \<Longrightarrow> n \<le> length data \<Longrightarrow>
      \<exists>q'. append data n q = Inr q' \<and> inv q' \<and> content q' = content q @ take n data"
    and retrieve: "inv q \<Longrightarrow> n \<le> length (content q) \<Longrightarrow>
      \<exists>q'. retrieve n q = Inr q' \<and> inv q' \<and> content q' = drop n (content q)"
begin

lemma append_all:
  assumes "inv q" "appendable (length data) q"
  obtains q' where "append data (length data) q = Inr q'" "inv q'" "content q' = content q @ data"
  using append [OF assms, of data] by auto

lemma retrieve_prefix:
  assumes "inv q" "content q = xs @ ys"
  obtains q' where "retrieve (length xs) q = Inr q'" "inv q'" "content q' = ys"
  using retrieve [of q "length xs"] assms by auto

lemma fifo:
  assumes "inv q" "appendable (length data) q"
  shows "\<exists>q1 q2. append data (length data) q = Inr q1 \<and> retrieve (readable q) q1 = Inr q2
           \<and> inv q2 \<and> content q2 = data"
proof -
  obtain q1 where q1: "append data (length data) q = Inr q1" "inv q1" "content q1 = content q @ data"
    using append_all [OF assms] .
  then obtain q2 where "retrieve (length (content q)) q1 = Inr q2" "inv q2" "content q2 = data"
    using retrieve_prefix [of q1] by metis
  with q1 readable [OF assms(1)] show ?thesis by auto
qed

end

section \<open>Sizes under the invariant\<close>

lemma buf_inv_readable: "buf_inv b \<Longrightarrow> readableBytes b = writerIndex b - readerIndex b"
  using MAX_SIZE_less [of "length (buf_data b)" 0]
  by (auto simp: buf_inv_def readableBytes_def size_simps)

lemma buf_inv_writable: "buf_inv b \<Longrightarrow> writableBytes b = length (buf_data b) - writerIndex b"
  using MAX_SIZE_less [of "length (buf_data b)" 0]
  by (auto simp: buf_inv_def writableBytes_def size_simps)

lemma length_content [simp]: "buf_inv b \<Longrightarrow> length (content b) = readableBytes b"
  by (simp add: buf_inv_readable content_def) (auto simp: buf_inv_def)

lemmas buf_sizes = buf_inv_readable buf_inv_writable prependableBytes_def peek_def beginWrite_def

lemma kCheapPrepend_small [simp]: "kCheapPrepend \<le> MAX_SIZE"
  by (simp add: kCheapPrepend_def MAX_SIZE_def)

lemma Buffer_new_inv [simp]: "buf_inv Buffer_new"
  by (simp add: buf_inv_def Buffer_new_def kCheapPrepend_def kInitialSize_def MAX_SIZE_def)

lemma Buffer_new_indices [simp]:
  "readerIndex Buffer_new = kCheapPrepend" "writerIndex Buffer_new = kCheapPrepend"
  "length (buf_data Buffer_new) = kCheapPrepend + kInitialSize"
  by (simp_all add: Buffer_new_def)

lemma content_Buffer_new [simp]: "content Buffer_new = []"
  by (simp add: content_def Buffer_new_def)

lemma Buffer_ctor_eq: "Buffer_ctor = Inr Buffer_new"
proof -
  have "readableBytes Buffer_new = 0" "writableBytes Buffer_new = kInitialSize"
    "prependableBytes Buffer_new = kCheapPrepend"
    by (simp_all add: buf_sizes)
  then show ?thesis by (simp add: Buffer_ctor_def)
qed

section \<open>Consuming\<close>

lemma retrieveAll_inv [simp]: "buf_inv b \<Longrightarrow> buf_inv (retrieveAll b)"
  by (simp add: retrieveAll_def buf_inv_def)

lemma content_retrieveAll [simp]: "content (retrieveAll b) = []"
  by (simp add: retrieveAll_def content_def)

lemma retrieve_ok:
  assumes "buf_inv b" "n \<le> length (content b)"
  shows "\<exists>b'. retrieve n b = Inr b' \<and> buf_inv b' \<and> content b' = drop n (content b)"
proof (cases "n < readableBytes b")
  case True
  have "readerIndex b + n < SIZE_MOD"
    using assms(1) True MAX_SIZE_less [of "length (buf_data b)" 0]
    by (auto simp: buf_sizes buf_inv_def)
  with True assms show ?thesis
    by (auto simp: retrieve_def size_simps content_def drop_slice buf_inv_readable)
       (auto simp: buf_inv_def)
next
  case False
  with assms show ?thesis by (auto simp: retrieve_def)
qed

lemma retrieve_too_much:
  "buf_inv b \<Longrightarrow> length (content b) < n \<Longrightarrow> retrieve n b = Inl (AssertFailed ''len <= readableBytes()'')"
  by (simp add: retrieve_def)

lemma mem_read_content:
  "buf_inv b \<Longrightarrow> n \<le> length (content b) \<Longrightarrow> mem_read (peek b) n (buf_data b) = Inr (take n (content b))"
  by (auto simp: buf_sizes content_def slice_def) (auto simp: buf_inv_def)

lemma retrieveAsString_ok:
  assumes "buf_inv b" "n \<le> length (content b)"
  shows "\<exists>b'. retrieveAsString n b = Inr (take n (content b), b') \<and> buf_inv b'
           \<and> content b' = drop n (content b)"
  using retrieve_ok [OF assms] mem_read_content [OF assms] assms
  by (auto simp: retrieveAsString_def simp del: mem_read_Inr)

section \<open>Appending\<close>

lemma vec_resize_grow:
  "length mem \<le> n \<Longrightarrow> n \<le> MAX_SIZE \<Longrightarrow> vec_resize n mem = Inr (mem @ replicate (n - length mem) 0)"
  by (simp add: vec_resize_def)

lemma makeSpace_grow:
  assumes "buf_inv b" "appendable len b" "writableBytes b < len"
  shows "makeSpace len b =
    Inr (b\<lparr>buf_data := buf_data b @ replicate (writerIndex b + len - length (buf_data b)) 0\<rparr>)"
proof -
  have "writableBytes b + prependableBytes b < len + kCheapPrepend"
    using assms(2,3) by (auto simp: appendable_def compacts_def)
  moreover have "writerIndex b + len \<le> MAX_SIZE" "len \<le> MAX_SIZE"
    using assms(2) by (auto simp: appendable_def)
  moreover have "writableBytes b \<le> MAX_SIZE" "prependableBytes b \<le> MAX_SIZE"
    using assms(1) by (auto simp: buf_sizes) (auto simp: buf_inv_def)
  moreover have "length (buf_data b) \<le> writerIndex b + len"
    using assms(1,3) by (simp add: buf_sizes)
  ultimately show ?thesis
    using MAX_SIZE_less [of len kCheapPrepend] MAX_SIZE_less [of "writerIndex b + len" 0]
      MAX_SIZE_less [of "writableBytes b" "prependableBytes b"]
    by (simp add: makeSpace_def size_simps vec_resize_grow)
qed

lemma ensureWritableBytes_ok:
  assumes "buf_inv b" "appendable len b"
  shows "\<exists>b'. ensureWritableBytes len b = Inr b' \<and> buf_inv b' \<and> content b' = content b
      \<and> readerIndex b' = readerIndex b \<and> writerIndex b' = writerIndex b
      \<and> writerIndex b + len \<le> length (buf_data b') \<and> length (buf_data b) \<le> length (buf_data b')"
proof (cases "writableBytes b < len")
  case True
  let ?b = "b\<lparr>buf_data := buf_data b @ replicate (writerIndex b + len - length (buf_data b)) 0\<rparr>"
  have "writerIndex b + len \<le> MAX_SIZE" using assms(2) by (simp add: appendable_def)
  with assms(1) True have "buf_inv ?b" "content ?b = content b"
    by (auto simp: buf_inv_def buf_sizes content_def slice_def)
  moreover from this assms(1) True have "len \<le> writableBytes ?b"
    by (auto simp: buf_sizes)
  ultimately show ?thesis
    using makeSpace_grow [OF assms True] assms(1) True
    by (auto simp: ensureWritableBytes_def buf_sizes)
next
  case False
  with assms show ?thesis
    by (auto simp: ensureWritableBytes_def buf_sizes) (auto simp: buf_inv_def)
qed

lemma append_ok:
  assumes "buf_inv b" "appendable len b" "len \<le> length data"
  shows "\<exists>b'. Buffer_append data len b = Inr b' \<and> buf_inv b' \<and> content b' = content b @ take len data
      \<and> readerIndex b' = readerIndex b \<and> writerIndex b' = writerIndex b + len
      \<and> length (buf_data b) \<le> length (buf_data b')"
proof -
  obtain b1 where b1: "ensureWritableBytes len b = Inr b1" "buf_inv b1" "content b1 = content b"
    "readerIndex b1 = readerIndex b" "writerIndex b1 = writerIndex b"
    "writerIndex b + len \<le> length (buf_data b1)" "length (buf_data b) \<le> length (buf_data b1)"
    using ensureWritableBytes_ok [OF assms(1,2)] by blast
  let ?w = "writerIndex b"
  let ?mem = "take ?w (buf_data b1) @ take len data @ drop (?w + len) (buf_data b1)"
  let ?b = "b1\<lparr>buf_data := ?mem, writerIndex := ?w + len\<rparr>"
  have sz: "sz_add ?w len = ?w + len"
    using b1(2,6) MAX_SIZE_less [of "length (buf_data b1)" 0] by (simp add: size_simps buf_inv_def)
  have "Buffer_append data len b = Inr ?b"
    using b1 assms(3) sz
    by (simp add: Buffer_append_def mem_read_def mem_write_def beginWrite_def hasWritten_def)
  moreover have "buf_inv ?b" using b1 assms(3) by (auto simp: buf_inv_def)
  moreover have "length (buf_data b) \<le> length (buf_data ?b)" using b1 assms(3) by simp
  moreover have "content ?b = content b1 @ take len data"
    using slice_write [of "readerIndex b" ?w "buf_data b1" "take len data"] b1 assms(3)
    by (simp add: content_def buf_inv_def)
  ultimately show ?thesis using b1 by auto
qed

text \<open>The branch that moves the readable bytes evaluates \<^verbatim>\<open>readableBytes()\<close> after
  \<^verbatim>\<open>readerIndex_\<close> has changed, so its closing assertion cannot hold.\<close>

lemma makeSpace_compacts:
  assumes "buf_inv b" "compacts len b"
  shows "makeSpace len b = Inl (AssertFailed ''readable == readableBytes()'')"
proof -
  let ?r = "readerIndex b" and ?w = "writerIndex b" and ?n = "length (buf_data b)"
  have c: "?n - ?w < len" "len + kCheapPrepend \<le> ?n - ?w + ?r"
    using assms by (auto simp: compacts_def buf_sizes)
  have i: "?r \<le> ?w" "?w \<le> ?n" "?n \<le> MAX_SIZE" "kCheapPrepend \<le> ?n"
    using assms(1) by (auto simp: buf_inv_def)
  have r: "kCheapPrepend < ?r" using c i by linarith
  have lt: "?n - ?w + ?r < SIZE_MOD" "len + kCheapPrepend < SIZE_MOD" "?w < SIZE_MOD"
    using c i MAX_SIZE_less [of "?n" "?n"] by auto
  then have grow: "\<not> sz_add (writableBytes b) (prependableBytes b) < sz_add len kCheapPrepend"
    using c assms(1) by (simp add: buf_sizes size_simps)
  define xs where "xs = take (?w - ?r) (drop ?r (buf_data b))"
  have "?w \<noteq> ?w - ?r + kCheapPrepend" using r i by linarith
  then show ?thesis
    using r i lt grow assms(1)
    by (simp add: makeSpace_def mem_read_def mem_write_def Let_def buf_inv_readable
        readableBytes_def [of "Buffer.readerIndex_update _ _"]
        readableBytes_def [of "Buffer.writerIndex_update _ _"] size_simps) arith
qed

lemma append_compacts:
  "buf_inv b \<Longrightarrow> compacts len b \<Longrightarrow>
     Buffer_append data len b = Inl (AssertFailed ''readable == readableBytes()'')"
  using makeSpace_compacts [of b len]
  by (simp add: Buffer_append_def ensureWritableBytes_def compacts_def)

interpretation bq: byte_queue content buf_inv readableBytes appendable Buffer_append retrieve
  using append_ok retrieve_ok by unfold_locales (auto, blast+)

text \<open>An append that returns is one of the first kind, provided the source is an object of
  the program (\<open>length data \<le> MAX_SIZE\<close>).\<close>

lemma ensureWritableBytes_InrD:
  assumes "buf_inv b" "len \<le> MAX_SIZE" "ensureWritableBytes len b = Inr b'"
  shows "appendable len b"
proof (rule ccontr)
  assume no: "\<not> appendable len b"
  have i: "writerIndex b \<le> MAX_SIZE" "readerIndex b \<le> MAX_SIZE" "length (buf_data b) \<le> MAX_SIZE"
    using assms(1) by (auto simp: buf_inv_def)
  have w: "writableBytes b < len"
  proof (rule ccontr)
    assume "\<not> writableBytes b < len"
    with no assms(1) i show False by (auto simp: appendable_def compacts_def buf_sizes buf_inv_def)
  qed
  have nc: "\<not> compacts len b"
    using makeSpace_compacts [OF assms(1)] assms(3) w by (auto simp: ensureWritableBytes_def)
  with no have big: "MAX_SIZE < writerIndex b + len" by (simp add: appendable_def)
  have "writableBytes b + prependableBytes b < len + kCheapPrepend"
    using nc w by (auto simp: compacts_def)
  then have "sz_add (writableBytes b) (prependableBytes b) < sz_add len kCheapPrepend"
    using assms(1,2) i MAX_SIZE_less [of len kCheapPrepend] by (simp add: size_simps)
  moreover have "sz_add (writerIndex b) len = writerIndex b + len"
    using i assms(2) MAX_SIZE_less [of "writerIndex b" len] by (simp add: size_simps)
  ultimately have "makeSpace len b = Inl LengthError"
    using big by (simp add: makeSpace_def vec_resize_def)
  with assms(3) w show False by (simp add: ensureWritableBytes_def)
qed

lemma append_InrD:
  assumes "buf_inv b" "length data \<le> MAX_SIZE" "Buffer_append data len b = Inr b'"
  shows "appendable len b" "len \<le> length data"
  using assms ensureWritableBytes_InrD [OF assms(1), of len]
  by (auto simp: Buffer_append_def res_simps)

lemma append_inv:
  "buf_inv b \<Longrightarrow> length data \<le> MAX_SIZE \<Longrightarrow> Buffer_append data len b = Inr b' \<Longrightarrow> buf_inv b'"
  using append_InrD [of b data len b'] append_ok [of b len data] by auto

section \<open>Prepending\<close>

lemma prepend_ok:
  assumes "buf_inv b" "len \<le> prependableBytes b" "len \<le> length data"
  shows "\<exists>b'. prepend data len b = Inr b' \<and> buf_inv b' \<and> content b' = take len data @ content b"
proof -
  let ?r = "readerIndex b - len"
  let ?mem = "take ?r (buf_data b) @ take len data @ drop (?r + len) (buf_data b)"
  let ?b = "b\<lparr>readerIndex := ?r, buf_data := ?mem\<rparr>"
  have i: "readerIndex b \<le> writerIndex b" "writerIndex b \<le> length (buf_data b)" "len \<le> readerIndex b"
    "readerIndex b < SIZE_MOD"
    using assms MAX_SIZE_less [of "length (buf_data b)" 0]
    by (auto simp: buf_inv_def prependableBytes_def)
  then have "prepend data len b = Inr ?b"
    using assms by (simp add: prepend_def mem_read_def mem_write_def size_simps)
  moreover have "buf_inv ?b" using assms i by (auto simp: buf_inv_def)
  moreover have "content ?b = take len data @ content b"
    using assms i by (simp add: content_def slice_def)
  ultimately show ?thesis by blast
qed

lemma prepend_inv: "buf_inv b \<Longrightarrow> prepend data len b = Inr b' \<Longrightarrow> buf_inv b'"
  using prepend_ok [of b len data] by (auto simp: prepend_def Let_def res_simps split: if_splits)

section \<open>Integers\<close>

lemma peekInt32_ok: "buf_inv b \<Longrightarrow> 4 \<le> length (content b) \<Longrightarrow> peekInt32 ho b = Inr (of_be (take 4 (content b)))"
  using mem_read_content [of b 4]
  by (simp add: peekInt32_def networkToHost_of_mem del: mem_read_Inr)

lemma readInt32_ok:
  assumes "buf_inv b" "content b = be_bytes 4 x @ rest"
  shows "\<exists>b'. readInt32 ho b = Inr (x, b') \<and> buf_inv b' \<and> content b' = rest"
proof -
  have "4 \<le> length (content b)" using assms(2) by simp
  with assms have "peekInt32 ho b = Inr x"
    by (simp add: peekInt32_ok of_be_be_bytes)
  moreover obtain b' where "retrieve 4 b = Inr b'" "buf_inv b'" "content b' = rest"
    using bq.retrieve_prefix [OF assms] by auto
  ultimately show ?thesis by (simp add: readInt32_def retrieveInt32_def)
qed

lemma appendInt32_ok:
  "buf_inv b \<Longrightarrow> appendable 4 b \<Longrightarrow>
     \<exists>b'. appendInt32 ho x b = Inr b' \<and> buf_inv b' \<and> content b' = content b @ be_bytes 4 x"
  using bq.append [of b 4 "be_bytes 4 x"] by (simp add: appendInt32_def mem_of_hostToNetwork)

lemma appendable_writable: "buf_inv b \<Longrightarrow> len \<le> writableBytes b \<Longrightarrow> appendable len b"
  by (auto simp: appendable_def compacts_def buf_inv_writable) (auto simp: buf_inv_def)

lemma appendInt32_room:
  assumes "buf_inv b" "4 + n \<le> writableBytes b"
  shows "\<exists>b'. appendInt32 ho x b = Inr b' \<and> buf_inv b' \<and> content b' = content b @ be_bytes 4 x
           \<and> n \<le> writableBytes b'"
proof -
  have "appendable 4 b" using assms by (simp add: appendable_writable)
  then obtain b' where "Buffer_append (be_bytes 4 x) 4 b = Inr b'" "buf_inv b'"
      "content b' = content b @ be_bytes 4 x" "writerIndex b' = writerIndex b + 4"
      "length (buf_data b) \<le> length (buf_data b')"
    using append_ok [OF assms(1), of 4 "be_bytes 4 x"] by auto
  with assms show ?thesis
    by (auto simp: appendInt32_def mem_of_hostToNetwork buf_inv_writable)
qed

lemma appendInt16_ok:
  "buf_inv b \<Longrightarrow> appendable 2 b \<Longrightarrow>
     \<exists>b'. appendInt16 ho x b = Inr b' \<and> buf_inv b' \<and> content b' = content b @ be_bytes 2 x"
  using bq.append [of b 2 "be_bytes 2 x"] by (simp add: appendInt16_def mem_of_hostToNetwork)

lemma prependInt32_ok:
  "buf_inv b \<Longrightarrow> 4 \<le> prependableBytes b \<Longrightarrow>
     \<exists>b'. prependInt32 ho x b = Inr b' \<and> buf_inv b' \<and> content b' = be_bytes 4 x @ content b"
  using prepend_ok [of b 4 "be_bytes 4 x"] by (simp add: prependInt32_def mem_of_hostToNetwork)

text \<open>What the 32-bit swap makes of a sign-extended 16-bit value.\<close>

lemma le_bytes_2: "le_bytes 2 (x :: 16 word) = [ucast x, ucast (drop_bit 8 x)]"
  by (simp add: numeral_2_eq_2)

lemma le_bytes_4: "le_bytes 4 w = [ucast w, ucast (drop_bit 8 w), ucast (drop_bit 16 w), ucast (drop_bit 24 w)]"
proof -
  have "(4::nat) = Suc (Suc (Suc (Suc 0)))" by simp
  then show ?thesis by (simp only: le_bytes.simps) simp
qed

lemma swap_sign_extended:
  "(ucast (networkToHost32 Little (scast (of_le [hi, lo] :: 16 word))) :: 16 word)
     = (if bit lo 7 then -1 else 0)"
proof (rule bit_word_eqI)
  fix n
  assume n: "n < LENGTH(16)"
  have sign: "bit (of_le [hi, lo] :: 16 word) 15 = bit lo 7"
    by (auto simp: bit_simps dest: bit_imp_le_length)
  have *: "bit (scast (of_le [hi, lo] :: 16 word) :: 32 word) k = bit lo 7" if "16 \<le> k" "k < 32" for k
    using that sign by (simp add: bit_signed_iff)
  have "bit (networkToHost32 Little w) n = bit w (if n < 8 then 24 + n else 8 + n)" for w :: "32 word"
    using n by (auto simp: net_defs htobe_def bswap_def le_bytes_4 bit_simps not_less
        simp del: push_bit_numeral dest: bit_imp_le_length)
  then show "bit (ucast (networkToHost32 Little (scast (of_le [hi, lo] :: 16 word))) :: 16 word) n
      = bit (if bit lo 7 then -1 else 0 :: 16 word) n"
    using n * [of "24 + n"] * [of "8 + n"]
    by (cases "n < 8") (simp_all del: of_le.simps add: bit_unsigned_iff)
qed

lemma readInt16_ok:
  assumes "buf_inv b" "content b = be_bytes 2 x @ rest"
  shows "\<exists>b'. readInt16 ho b =
           Inr (case ho of Big \<Rightarrow> x | Little \<Rightarrow> if bit x 7 then -1 else 0, b')
         \<and> buf_inv b' \<and> content b' = rest"
proof -
  have len: "2 \<le> length (content b)" using assms(2) by simp
  have bytes: "take 2 (content b) = be_bytes 2 x" using assms(2) by simp
  have "peekInt16 ho b = Inr (case ho of Big \<Rightarrow> x | Little \<Rightarrow> if bit x 7 then -1 else 0)"
  proof (cases ho)
    case Little
    have "bit (ucast x :: 8 word) 7 = bit x 7" by (simp add: bit_simps)
    with Little show ?thesis
      using mem_read_content [OF assms(1) len] assms(1) len bytes
        swap_sign_extended [of "ucast (drop_bit 8 x)" "ucast x"]
      by (simp add: peekInt16_def of_mem_def be_bytes_def le_bytes_2 del: mem_read_Inr of_le.simps)
  next
    case Big
    have "(ucast (scast x :: 32 word) :: 16 word) = x"
      by (rule bit_eqI) (simp add: bit_simps)
    with Big show ?thesis
      using mem_read_content [OF assms(1) len] assms(1) len bytes
      by (simp add: peekInt16_def of_mem_def of_be_be_bytes net_defs htobe_def del: mem_read_Inr)
  qed
  moreover obtain b' where "retrieve 2 b = Inr b'" "buf_inv b'" "content b' = rest"
    using bq.retrieve_prefix [OF assms] by auto
  ultimately show ?thesis by (simp add: readInt16_def retrieveInt16_def)
qed

section \<open>Searching\<close>

lemma std_search_spec:
  assumes "pat \<noteq> []" "i \<le> e"
  shows "let p = std_search mem pat i e in
     i \<le> p \<and> p \<le> e
     \<and> (\<forall>j. i \<le> j \<and> j < p \<and> j + length pat \<le> e \<longrightarrow> take (length pat) (drop j mem) \<noteq> pat)
     \<and> (p < e \<longrightarrow> p + length pat \<le> e \<and> take (length pat) (drop p mem) = pat)"
  using assms(2)
proof (induction mem pat i e rule: std_search.induct)
  case (1 mem pat i e)
  show ?case
  proof (cases "i < e \<and> i + length pat \<le> e")
    case True
    show ?thesis
    proof (cases "take (length pat) (drop i mem) = pat")
      case False
      have "Suc i \<le> e" using True by simp
      note IH = "1.IH" [OF True False this]
      have "std_search mem pat i e = std_search mem pat (Suc i) e"
        using True False by (subst std_search.simps) simp
      moreover have "i \<le> j \<longleftrightarrow> j = i \<or> Suc i \<le> j" for j by auto
      ultimately show ?thesis using IH False by (auto simp: Let_def)
    qed (use True in \<open>auto simp: std_search.simps [of mem pat i e]\<close>)
  next
    case False
    then have "std_search mem pat i e = e" by (subst std_search.simps) auto
    with False "1.prems" show ?thesis by auto
  qed
qed

lemma index_of_None: "index_of c xs = None \<longleftrightarrow> c \<notin> set xs"
  by (induction xs) auto

lemma index_of_Some: "index_of c xs = Some k \<longleftrightarrow> k < length xs \<and> xs ! k = c \<and> c \<notin> set (take k xs)"
proof (induction xs arbitrary: k)
  case (Cons x xs)
  then show ?case by (cases k) auto
qed simp

lemma findEOL_ok:
  assumes "buf_inv b"
  shows "findEOL b = Inr (map_option ((+) (peek b)) (index_of 10 (content b)))"
proof -
  have "slice (peek b) (peek b + readableBytes b) (buf_data b) = content b"
    using assms by (simp add: content_def buf_sizes slice_def)
  moreover have "peek b + readableBytes b \<le> length (buf_data b)"
    using assms by (auto simp: buf_sizes) (simp add: buf_inv_def)
  ultimately show ?thesis
    by (auto simp: findEOL_def memchr_def split: option.split)
qed

lemma crlf_at_memory:
  assumes "buf_inv b" "peek b \<le> j"
  shows "crlf_at (content b) (j - peek b) \<longleftrightarrow>
    j + length kCRLF \<le> beginWrite b \<and> take (length kCRLF) (drop j (buf_data b)) = kCRLF"
proof (cases "j + 2 \<le> beginWrite b")
  case True
  let ?d = "buf_data b"
  have w: "writerIndex b \<le> length ?d" using assms(1) by (simp add: buf_inv_def)
  have "content b ! (j - peek b) = ?d ! j" "content b ! (j - peek b + 1) = ?d ! (j + 1)"
    using True assms(2) w by (auto simp: content_def slice_def peek_def beginWrite_def)
  moreover have "take 2 (drop j ?d) = [?d ! j, ?d ! (j + 1)]"
    using True w by (simp add: beginWrite_def take_Suc_conv_app_nth numeral_2_eq_2)
  ultimately show ?thesis
    using True assms by (auto simp: crlf_at_def kCRLF_def buf_sizes numeral_2_eq_2)
next
  case False
  with assms show ?thesis by (auto simp: crlf_at_def kCRLF_def buf_sizes)
qed

lemma findCRLF_search:
  fixes b defines "p \<equiv> std_search (buf_data b) kCRLF (peek b) (beginWrite b)"
  assumes "buf_inv b"
  shows "peek b \<le> p" "p = beginWrite b \<Longrightarrow> \<not> crlf_at (content b) i"
    "p \<noteq> beginWrite b \<Longrightarrow> crlf_at (content b) (p - peek b)"
    "i < p - peek b \<Longrightarrow> \<not> crlf_at (content b) i"
proof -
  have le: "peek b \<le> beginWrite b" using assms(2) by (simp add: peek_def beginWrite_def buf_inv_def)
  have ne: "kCRLF \<noteq> []" by (simp add: kCRLF_def)
  note spec = std_search_spec [OF ne le, of "buf_data b", folded p_def, unfolded Let_def]
  have none: "\<not> crlf_at (content b) i" if "peek b + i < p" for i
    using spec that crlf_at_memory [OF assms(2), of "peek b + i"] by auto
  show "peek b \<le> p" using spec by blast
  show "\<not> crlf_at (content b) i" if "i < p - peek b" using none that by simp
  show "crlf_at (content b) (p - peek b)" if "p \<noteq> beginWrite b"
    using spec that crlf_at_memory [OF assms(2), of p] by auto
  show "\<not> crlf_at (content b) i" if "p = beginWrite b"
  proof (cases "peek b + i < p")
    case False
    with that le show ?thesis using crlf_at_memory [OF assms(2), of "peek b + i"] by (auto simp: kCRLF_def)
  qed (rule none)
qed

section \<open>Reading from a file descriptor, shrinking\<close>

lemma content_after_write:
  assumes "buf_inv b" "writerIndex b + length xs \<le> length (buf_data b)"
  defines "b' \<equiv> b\<lparr>buf_data := take (writerIndex b) (buf_data b) @ xs @ drop (writerIndex b + length xs) (buf_data b),
                  writerIndex := writerIndex b + length xs\<rparr>"
  shows "buf_inv b'" "content b' = content b @ xs" "length (buf_data b') = length (buf_data b)"
  using assms slice_write [of "readerIndex b" "writerIndex b" "buf_data b" xs]
  by (auto simp: buf_inv_def content_def)

lemma readFd_ok:
  assumes inv: "buf_inv b" and rd: "readv (readFd_iov b) = ReadOk bs"
    and len: "length bs \<le> sum_list (readFd_iov b)"
    and room: "length (buf_data b) + extrabuf_size \<le> MAX_SIZE"
    and nocompact: "length bs \<le> writableBytes b \<or> readerIndex b < length bs - writableBytes b + kCheapPrepend"
  shows "\<exists>b'. readFd readv b = Inr (int (length bs), None, b') \<and> buf_inv b' \<and> content b' = content b @ bs"
proof (cases "length bs \<le> writableBytes b")
  case True
  then have "writerIndex b + length bs \<le> length (buf_data b)"
    using inv by (auto simp: buf_sizes) (auto simp: buf_inv_def)
  moreover have "sz_add (writerIndex b) (length bs) = writerIndex b + length bs"
    using calculation inv MAX_SIZE_less [of "length (buf_data b)" 0]
    by (simp add: buf_inv_def size_simps)
  ultimately show ?thesis
    using content_after_write [OF inv, of bs] rd True
    by (simp add: readFd_def mem_write_def Let_def)
next
  case False
  let ?w = "writableBytes b" and ?n = "length (buf_data b)"
  let ?b1 = "b\<lparr>buf_data := take (writerIndex b) (buf_data b) @ take ?w bs @ drop ?n (buf_data b),
               writerIndex := ?n\<rparr>"
  have wn: "writerIndex b + ?w = ?n" using inv by (auto simp: buf_sizes) (auto simp: buf_inv_def)
  have b1: "buf_inv ?b1" "content ?b1 = content b @ take ?w bs" "length (buf_data ?b1) = ?n"
    using content_after_write [OF inv, of "take ?w bs"] wn False by auto
  have extra: "length bs - ?w \<le> extrabuf_size" using len False by (auto simp: readFd_iov_def split: if_splits)
  have "sz_sub (length bs) ?w = length bs - ?w"
    using False extra room wn MAX_SIZE_less [of "?n + extrabuf_size" 0] by (intro sz_sub_eq) auto
  moreover have "appendable (length bs - ?w) ?b1"
    using b1 nocompact False extra room
    by (auto simp: appendable_def compacts_def buf_inv_writable prependableBytes_def)
  then obtain b2 where "Buffer_append (drop ?w bs) (length bs - ?w) ?b1 = Inr b2" "buf_inv b2"
      "content b2 = content ?b1 @ drop ?w bs"
    using bq.append [OF b1(1), of "length bs - ?w" "drop ?w bs"] by auto
  ultimately show ?thesis
    using rd False b1 wn by (simp add: readFd_def mem_write_def min_absorb2 Let_def)
qed

lemma readFd_error: "readv (readFd_iov b) = ReadErr e \<Longrightarrow> readFd readv b = Inr (-1, Some e, b)"
  by (simp add: readFd_def)

lemma readFd_inv:
  assumes inv: "buf_inv b" and rd: "readFd readv b = Inr (n, e, b')"
    and len: "\<And>bs. readv (readFd_iov b) = ReadOk bs \<Longrightarrow> length bs \<le> sum_list (readFd_iov b)"
  shows "buf_inv b'"
proof (cases "readv (readFd_iov b)")
  case (ReadErr err)
  with assms show ?thesis by (simp add: readFd_def)
next
  case (ReadOk bs)
  let ?w = "writableBytes b" and ?n = "length (buf_data b)"
  have wn: "writerIndex b + ?w = ?n" using inv by (auto simp: buf_sizes) (auto simp: buf_inv_def)
  show ?thesis
  proof (cases "length bs \<le> ?w")
    case True
    moreover have "sz_add (writerIndex b) (length bs) = writerIndex b + length bs"
      using True wn inv MAX_SIZE_less [of ?n 0] by (simp add: buf_inv_def size_simps)
    ultimately show ?thesis
      using content_after_write [OF inv, of bs] rd ReadOk wn
      by (auto simp: readFd_def mem_write_def Let_def)
  next
    case False
    let ?b1 = "b\<lparr>buf_data := take (writerIndex b) (buf_data b) @ take ?w bs @ drop ?n (buf_data b),
                 writerIndex := ?n\<rparr>"
    have b1: "buf_inv ?b1" using content_after_write [OF inv, of "take ?w bs"] wn False by auto
    have "length (drop ?w bs) \<le> MAX_SIZE"
      using len [OF ReadOk] False
      by (auto simp: readFd_iov_def extrabuf_size_def MAX_SIZE_def split: if_splits)
    then show ?thesis
      using append_inv [OF b1, of "drop ?w bs" "sz_sub (length bs) ?w" b'] rd ReadOk False wn
        content_after_write(3) [OF inv, of "take ?w bs"]
      by (auto simp: readFd_def mem_write_def min_absorb2 res_simps Let_def)
  qed
qed

lemma appendable_new: "kCheapPrepend + len \<le> MAX_SIZE \<Longrightarrow> appendable len Buffer_new"
  by (auto simp: appendable_def compacts_def buf_sizes)

lemma shrind_ok:
  assumes inv: "buf_inv b" and small: "readableBytes b < 2 ^ 31"
    and room: "kCheapPrepend + (readableBytes b + reserve) \<le> MAX_SIZE"
  shows "\<exists>b'. shrind reserve b = Inr b' \<and> buf_inv b' \<and> content b' = content b"
proof -
  let ?n = "readableBytes b + reserve"
  have n: "sz_add (readableBytes b) reserve = ?n"
    using room MAX_SIZE_less [of ?n 0] by (simp add: size_simps)
  obtain o1 where o1: "ensureWritableBytes ?n Buffer_new = Inr o1" "buf_inv o1" "content o1 = []"
      "writerIndex o1 = kCheapPrepend" "kCheapPrepend + ?n \<le> length (buf_data o1)"
    using ensureWritableBytes_ok [OF Buffer_new_inv appendable_new [OF room]] Buffer_new_indices by auto
  have app: "appendable (readableBytes b) o1"
    using o1 room by (auto simp: appendable_def compacts_def buf_sizes)
  have data: "readableBytes b \<le> length (drop (peek b) (buf_data b))"
    using inv by (auto simp: buf_sizes) (auto simp: buf_inv_def)
  obtain o2 where o2: "Buffer_append (drop (peek b) (buf_data b)) (readableBytes b) o1 = Inr o2"
      "buf_inv o2" "content o2 = take (readableBytes b) (drop (peek b) (buf_data b))"
    using append_ok [OF o1(2) app data] o1(3) by auto
  have "content o2 = content b"
    using o2(3) inv by (simp add: content_def slice_def buf_sizes)
  moreover have "int_to_size (size_to_int (readableBytes b)) = readableBytes b"
    using small by (simp add: size_simps SIZE_MOD_def)
  ultimately show ?thesis
    using o1 o2 n by (simp add: shrind_def Buffer_ctor_eq Buffer_append_piece_def toStringPiece_def Buffer_swap_def)
qed

section \<open>Every reachable buffer is well formed\<close>

lemma retrieve_inv: "buf_inv b \<Longrightarrow> retrieve n b = Inr b' \<Longrightarrow> buf_inv b'"
  using retrieve_ok [of b n] by (auto simp: retrieve_def split: if_splits)

lemma ensureWritableBytes_inv:
  "buf_inv b \<Longrightarrow> len \<le> MAX_SIZE \<Longrightarrow> ensureWritableBytes len b = Inr b' \<Longrightarrow> buf_inv b'"
  using ensureWritableBytes_InrD [of b len b'] ensureWritableBytes_ok [of b len] by auto

lemma hasWritten_inv: "buf_inv b \<Longrightarrow> len \<le> writableBytes b \<Longrightarrow> buf_inv (hasWritten len b)"
  using MAX_SIZE_less [of "length (buf_data b)" 0]
  by (auto simp: hasWritten_def buf_inv_writable) (auto simp: buf_inv_def size_simps)

lemma retrieveUntil_inv: "buf_inv b \<Longrightarrow> retrieveUntil p b = Inr b' \<Longrightarrow> buf_inv b'"
  by (auto simp: retrieveUntil_def split: if_splits intro: retrieve_inv)

lemma retrieveAsString_inv: "buf_inv b \<Longrightarrow> retrieveAsString n b = Inr (xs, b') \<Longrightarrow> buf_inv b'"
  by (auto simp: retrieveAsString_def res_simps split: if_splits intro: retrieve_inv)

lemmas buf_op_invs = append_inv ensureWritableBytes_inv hasWritten_inv retrieve_inv retrieveUntil_inv
  retrieveAll_inv retrieveAsString_inv prepend_inv readFd_inv

interpretation buf_sys: transition_system "\<lambda>b. b = Buffer_new" buf_step buf_inv
proof unfold_locales
  fix b b' assume "buf_inv b" "buf_step b b'"
  from this(2,1) show "buf_inv b'"
    by cases (blast intro: buf_op_invs)+
qed simp

section \<open>Properties\<close>

text \<open>C1: An append that does not need to move the readable bytes returns, keeps the invariant, and
  puts the new bytes after the readable ones: the buffer is a FIFO queue of bytes. The two
  hypotheses exclude the compacting branch and a vector larger than \<^verbatim>\<open>max_size()\<close>.\<close>

theorem append_content:
  assumes "buf_inv b" "\<not> compacts (length data) b" "writerIndex b + length data \<le> MAX_SIZE"
  shows "\<exists>b'. Buffer_append data (length data) b = Inr b' \<and> buf_inv b' \<and> content b' = content b @ data"
  using bq.append_all [of b data] assms by (metis appendable_def)

theorem append_content_witness:
  "\<exists>b'. Buffer_append [1, 2, 3] (length [1, 2, 3 :: byte]) Buffer_new = Inr b' \<and> buf_inv b'
     \<and> content b' = content Buffer_new @ [1, 2, 3]"
  by (rule append_content [of Buffer_new "[1, 2, 3]"])
     (auto simp: compacts_def buf_sizes kCheapPrepend_def kInitialSize_def MAX_SIZE_def)

text \<open>C2: An append that does not fit behind the readable bytes but would fit after moving them to
  the front ends the process: \<^verbatim>\<open>makeSpace\<close> computes \<^verbatim>\<open>writerIndex_\<close> from
  \<^verbatim>\<open>readableBytes()\<close> after it has overwritten \<^verbatim>\<open>readerIndex_\<close>, so the assertion
  that closes the branch is false for every such buffer.\<close>

theorem append_compaction_aborts:
  assumes "buf_inv b" "writableBytes b < len" "len + kCheapPrepend \<le> writableBytes b + prependableBytes b"
  shows "Buffer_append data len b = Inl (AssertFailed ''readable == readableBytes()'')"
  using assms append_compacts [of b len data] by (simp add: compacts_def)

theorem append_compaction_aborts_witness:
  "Buffer_append [7, 7, 7] 3 \<lparr>buf_data = replicate 20 0, readerIndex = 18, writerIndex = 18\<rparr>
     = Inl (AssertFailed ''readable == readableBytes()'')"
proof -
  let ?b = "\<lparr>buf_data = replicate 20 0, readerIndex = 18, writerIndex = 18\<rparr>"
  have "buf_inv ?b" by (simp add: buf_inv_def MAX_SIZE_def kCheapPrepend_def)
  then show ?thesis
    by (intro append_compaction_aborts) (simp_all add: buf_sizes kCheapPrepend_def)
qed



text \<open>C4: \<^verbatim>\<open>readFd\<close> appends exactly the bytes \<^verbatim>\<open>readv\<close> delivered, in order, whether they fit in the
  writable part or spill into the 64 KB stack buffer, and returns their number, provided the
  spilled part does not hit the compacting branch.\<close>

theorem readFd_content:
  assumes "buf_inv b" "readv (readFd_iov b) = ReadOk bs" "length bs \<le> sum_list (readFd_iov b)"
    and "length (buf_data b) + extrabuf_size \<le> MAX_SIZE"
    and "length bs \<le> writableBytes b \<or> readerIndex b < length bs - writableBytes b + kCheapPrepend"
  shows "\<exists>b'. readFd readv b = Inr (int (length bs), None, b') \<and> buf_inv b' \<and> content b' = content b @ bs"
  using assms by (rule readFd_ok)

theorem readFd_content_witness:
  "\<exists>b'. readFd (\<lambda>iov. ReadOk [104, 105]) Buffer_new = Inr (int (length [104, 105 :: byte]), None, b')
     \<and> buf_inv b' \<and> content b' = content Buffer_new @ [104, 105]"
  by (rule readFd_content)
     (auto simp: readFd_iov_def buf_sizes kInitialSize_def kCheapPrepend_def extrabuf_size_def MAX_SIZE_def)

text \<open>C5: Integers round trip in network byte order on either host: two appended 32-bit integers are read back
  in order and nothing is left behind.\<close>

theorem int32_roundtrip:
  assumes "buf_inv b" "content b = []" "8 \<le> writableBytes b"
  shows "\<exists>b1 b2 b3 b4. appendInt32 ho x b = Inr b1 \<and> appendInt32 ho y b1 = Inr b2
     \<and> content b2 = be_bytes 4 x @ be_bytes 4 y
     \<and> readInt32 ho b2 = Inr (x, b3) \<and> readInt32 ho b3 = Inr (y, b4) \<and> content b4 = []"
proof -
  obtain b1 where b1: "appendInt32 ho x b = Inr b1" "buf_inv b1" "content b1 = be_bytes 4 x"
      "4 \<le> writableBytes b1"
    using appendInt32_room [OF assms(1), of 4 ho x] assms(2,3) by auto
  obtain b2 where b2: "appendInt32 ho y b1 = Inr b2" "buf_inv b2" "content b2 = be_bytes 4 x @ be_bytes 4 y"
    using appendInt32_room [OF b1(2), of 0 ho y] b1(3,4) by auto
  obtain b3 where b3: "readInt32 ho b2 = Inr (x, b3)" "buf_inv b3" "content b3 = be_bytes 4 y @ []"
    using readInt32_ok [OF b2(2,3)] by auto
  then obtain b4 where "readInt32 ho b3 = Inr (y, b4)" "content b4 = []"
    using readInt32_ok by blast
  with b1 b2 b3 show ?thesis by blast
qed

theorem int32_roundtrip_witness:
  "\<exists>b1 b2 b3 b4. appendInt32 Little 7 Buffer_new = Inr b1 \<and> appendInt32 Little 0xFFFFFFFE b1 = Inr b2
     \<and> content b2 = be_bytes 4 (7 :: 32 word) @ be_bytes 4 (0xFFFFFFFE :: 32 word)
     \<and> readInt32 Little b2 = Inr (7, b3) \<and> readInt32 Little b3 = Inr (0xFFFFFFFE, b4) \<and> content b4 = []"
  by (rule int32_roundtrip) (auto simp: buf_sizes kInitialSize_def)

text \<open>\<^verbatim>\<open>readInt16\<close> on a little-endian host does not return the integer in the buffer: it converts
  the 16-bit value with \<^verbatim>\<open>networkToHost32\<close>, and returns 0 or -1 according to bit 7 of the
  integer. On a big-endian host it returns the integer.\<close>

theorem readInt16_result:
  assumes "buf_inv b" "content b = be_bytes 2 x @ rest"
  shows "(\<exists>b'. readInt16 Little b = Inr (if bit x 7 then -1 else 0, b') \<and> content b' = rest)
    \<and> (\<exists>b'. readInt16 Big b = Inr (x, b') \<and> content b' = rest)"
  using readInt16_ok [OF assms, of Little] readInt16_ok [OF assms, of Big] by auto

theorem readInt16_result_witness:
  "\<exists>b b'. appendInt16 Little 258 Buffer_new = Inr b \<and> readInt16 Little b = Inr (0, b')"
proof -
  have "appendable 2 Buffer_new" by (rule appendable_new) (simp add: kCheapPrepend_def MAX_SIZE_def)
  then obtain b where b: "appendInt16 Little 258 Buffer_new = Inr b" "buf_inv b"
      "content b = be_bytes 2 (258 :: 16 word) @ []"
    using appendInt16_ok [of Buffer_new Little 258] by auto
  moreover have "\<not> bit (258 :: 16 word) 7" by simp
  ultimately show ?thesis using readInt16_result [OF b(2,3)] by auto
qed

text \<open>\<^verbatim>\<open>findCRLF\<close> finds the first line end: a returned offset is the least one of the
  readable part where CR LF starts, and NULL is returned only when the readable bytes have none.\<close>

theorem findCRLF_first:
  assumes "buf_inv b"
  shows "case findCRLF b of
      None \<Rightarrow> (\<nexists>i. crlf_at (content b) i)
    | Some p \<Rightarrow> peek b \<le> p \<and> crlf_at (content b) (p - peek b)
        \<and> (\<nexists>i. i < p - peek b \<and> crlf_at (content b) i)"
  using findCRLF_search [OF assms] by (auto simp: findCRLF_def Let_def)

theorem findCRLF_first_witness:
  "findCRLF \<lparr>buf_data = [0, 0, 0, 0, 0, 0, 0, 0, 65, 13, 10, 66], readerIndex = 8, writerIndex = 12\<rparr> = Some 9
   \<and> crlf_at [65, 13, 10, 66] 1"
proof -
  let ?b = "\<lparr>buf_data = [0, 0, 0, 0, 0, 0, 0, 0, 65, 13, 10, 66], readerIndex = 8, writerIndex = 12\<rparr>"
  have inv: "buf_inv ?b" by (simp add: buf_inv_def MAX_SIZE_def kCheapPrepend_def)
  have f: "findCRLF ?b = Some 9"
    by (simp add: findCRLF_def std_search.simps kCRLF_def peek_def beginWrite_def)
  have "content ?b = [65, 13, 10, 66]" by (simp add: content_def slice_def)
  with findCRLF_first [OF inv] f show ?thesis by (simp add: peek_def)
qed

text \<open>\<^verbatim>\<open>findEOL(start)\<close> scans \<^verbatim>\<open>readableBytes()\<close> bytes from \<open>start\<close>, not from the
  reading position. On a well-formed buffer it can return a pointer behind the readable bytes
  (a stale newline), and it can read behind the end of the vector.\<close>

theorem findEOL_from_overruns:
  "(\<exists>b start p. buf_inv b \<and> peek b \<le> start \<and> start \<le> beginWrite b
      \<and> findEOL_from start b = Inr (Some p) \<and> beginWrite b \<le> p)
   \<and> (\<exists>b start. buf_inv b \<and> peek b \<le> start \<and> start \<le> beginWrite b
      \<and> findEOL_from start b = Inl OutOfBounds)"
proof (intro conjI exI)
  let ?b = "\<lparr>buf_data = [0, 0, 0, 0, 0, 0, 0, 0, 65, 66, 10, 0], readerIndex = 8, writerIndex = 10\<rparr>"
  show inv: "buf_inv ?b" by (simp add: buf_inv_def MAX_SIZE_def kCheapPrepend_def)
  show "findEOL_from 10 ?b = Inr (Some 10)"
    using inv by (simp add: findEOL_from_def memchr_def slice_def buf_sizes)
  let ?c = "\<lparr>buf_data = [0, 0, 0, 0, 0, 0, 0, 0, 65, 66], readerIndex = 8, writerIndex = 10\<rparr>"
  show inv': "buf_inv ?c" by (simp add: buf_inv_def MAX_SIZE_def kCheapPrepend_def)
  show "findEOL_from 9 ?c = Inl OutOfBounds"
    using inv' by (simp add: findEOL_from_def memchr_def slice_def buf_sizes)
qed (simp_all add: peek_def beginWrite_def)

text \<open>\<^verbatim>\<open>shrind\<close> (shrink) keeps the readable bytes, for any reserve that fits, while they are fewer
  than \<open>2\<^sup>3\<^sup>1\<close>: the copy goes through the \<^verbatim>\<open>int\<close> length of a \<^verbatim>\<open>StringPiece\<close>.\<close>

theorem shrind_content:
  assumes "buf_inv b" "readableBytes b < 2 ^ 31" "kCheapPrepend + (readableBytes b + reserve) \<le> MAX_SIZE"
  shows "\<exists>b'. shrind reserve b = Inr b' \<and> buf_inv b' \<and> content b' = content b"
  using assms by (rule shrind_ok)

theorem shrind_content_witness:
  "\<exists>b'. shrind 16 Buffer_new = Inr b' \<and> buf_inv b' \<and> content b' = content Buffer_new"
  by (rule shrind_content) (auto simp: buf_sizes kCheapPrepend_def MAX_SIZE_def)

end
