(* ===== verification/LogStream.thy ===== *)
theory LogStream
  imports Leaf_Prelude "HOL-Library.Sublist"
begin

text \<open>
  Text formatting for the log (\<^verbatim>\<open>src/base/LogStream.h\<close>, \<^verbatim>\<open>src/base/LogStream.cc\<close>). A \<open>FixedBuffer\<close> is its array
  and the offset of \<^verbatim>\<open>cur_\<close>; every write goes through \<open>mem_write\<close>, so that a write
  behind the array is a fault. The lemmas show that the digit loop prints what the decimal reference
  prints, that a formatted item is inserted whole or not at all, and that no insertion
  leaves the array. The interface to the logger is the locale \<open>text_sink\<close>.
\<close>

section \<open>FixedBuffer\<close>

definition kSmallBuffer :: nat where
  "kSmallBuffer = 4 * 1024"

definition kLargeBuffer :: nat where
  "kLargeBuffer = 4 * 1024 * 1024"

definition kMaxNumericSize :: nat where
  "kMaxNumericSize = 32"

record FixedBuffer =
  fb_data :: string
  fb_cur :: nat

definition FixedBuffer_new :: "string \<Rightarrow> FixedBuffer" where
  "FixedBuffer_new storage = \<lparr>fb_data = storage, fb_cur = 0\<rparr>"

definition fb_length :: "FixedBuffer \<Rightarrow> nat" where
  "fb_length b = fb_cur b"

definition fb_avail :: "FixedBuffer \<Rightarrow> int" where
  "fb_avail b = int (length (fb_data b)) - int (fb_cur b)"

definition fb_add :: "nat \<Rightarrow> FixedBuffer \<Rightarrow> FixedBuffer" where
  "fb_add n b = b\<lparr>fb_cur := fb_cur b + n\<rparr>"

definition fb_write :: "string \<Rightarrow> FixedBuffer \<Rightarrow> FixedBuffer res" where
  "fb_write s b = bindR (mem_write (fb_cur b) s (fb_data b)) (\<lambda>d. Inr (b\<lparr>fb_data := d\<rparr>))"

definition fb_append :: "string \<Rightarrow> FixedBuffer \<Rightarrow> FixedBuffer res" where
  "fb_append buf b =
     (if length buf < int_to_size (fb_avail b)
      then bindR (fb_write buf b) (\<lambda>b'. Inr (fb_add (length buf) b')) else Inr b)"

definition fb_reset :: "FixedBuffer \<Rightarrow> FixedBuffer" where
  "fb_reset b = b\<lparr>fb_cur := 0\<rparr>"

definition fb_bzero :: "FixedBuffer \<Rightarrow> FixedBuffer" where
  "fb_bzero b = b\<lparr>fb_data := replicate (length (fb_data b)) (CHR 0x00)\<rparr>"

definition fb_debugString :: "FixedBuffer \<Rightarrow> FixedBuffer res" where
  "fb_debugString b = fb_write [CHR 0x00] b"

definition fb_asString :: "FixedBuffer \<Rightarrow> string" where
  "fb_asString b = take (fb_length b) (fb_data b)"

section \<open>Integers to text\<close>

definition digits :: string where
  "digits = ''9876543210123456789''"

definition digitsHex :: string where
  "digitsHex = ''0123456789ABCDEF''"

text \<open>\<^verbatim>\<open>zero[lsd]\<close> with \<^verbatim>\<open>zero = digits + 9\<close> and \<open>lsd\<close> between -9 and 9.\<close>

definition zero_digit :: "int \<Rightarrow> char" where
  "zero_digit lsd = digits ! nat (9 + lsd)"

lemma sdiv_10_measure: "(i::int) sdiv 10 \<noteq> 0 \<Longrightarrow> \<bar>i sdiv 10\<bar> < \<bar>i\<bar>"
  by (auto simp: signed_divide_int_def abs_mult sgn_if split: if_splits)

text \<open>The do-while loop; the digits come out lowest first.\<close>

function convert_loop :: "int \<Rightarrow> string" where
  "convert_loop i =
     (let lsd = i smod 10; i' = i sdiv 10
      in if i' \<noteq> 0 then zero_digit lsd # convert_loop i' else [zero_digit lsd])"
  by pat_completeness auto
termination
  by (relation "measure (\<lambda>i. nat \<bar>i\<bar>)") (auto simp: sdiv_10_measure)

declare convert_loop.simps [simp del]

definition convert_text :: "int \<Rightarrow> string" where
  "convert_text value = rev (convert_loop value @ (if value > 0 then [] else if value = 0 then [] else ''-''))"

text \<open>\<^verbatim>\<open>convert(buf, value)\<close> with \<open>buf\<close> at the write position of the buffer: it writes the text and
  a terminating NUL and returns the length of the text.\<close>

definition convert :: "int \<Rightarrow> FixedBuffer \<Rightarrow> (FixedBuffer \<times> nat) res" where
  "convert value b =
     bindR (fb_write (convert_text value @ [CHR 0x00]) b) (\<lambda>b'. Inr (b', length (convert_text value)))"

fun convertHex_loop :: "nat \<Rightarrow> string" where
  "convertHex_loop i =
     (let lsd = i mod 16; i' = i div 16
      in if i' \<noteq> 0 then digitsHex ! lsd # convertHex_loop i' else [digitsHex ! lsd])"

declare convertHex_loop.simps [simp del]

definition convertHex_text :: "nat \<Rightarrow> string" where
  "convertHex_text value = rev (convertHex_loop value)"

section \<open>LogStream\<close>

text \<open>The stream is its buffer. \<open>T\<close> ranges over the integer types: the value passed is the
  mathematical one.\<close>

definition formatInteger :: "int \<Rightarrow> FixedBuffer \<Rightarrow> FixedBuffer res" where
  "formatInteger v b =
     (if fb_avail b \<ge> int kMaxNumericSize
      then bindR (convert v b) (\<lambda>(b', len). Inr (fb_add len b')) else Inr b)"

definition put_bool :: "bool \<Rightarrow> FixedBuffer \<Rightarrow> FixedBuffer res" where
  "put_bool v b = fb_append (if v then ''1'' else ''0'') b"

definition put_char :: "char \<Rightarrow> FixedBuffer \<Rightarrow> FixedBuffer res" where
  "put_char c b = (if fb_avail b \<ge> 1 then bindR (fb_write [c] b) (\<lambda>b'. Inr (fb_add 1 b')) else Inr b)"

definition put_short :: "int \<Rightarrow> FixedBuffer \<Rightarrow> FixedBuffer res" where
  "put_short v b = formatInteger v b"

definition put_unsigned_short :: "int \<Rightarrow> FixedBuffer \<Rightarrow> FixedBuffer res" where
  "put_unsigned_short v b = formatInteger v b"

definition put_int :: "int \<Rightarrow> FixedBuffer \<Rightarrow> FixedBuffer res" where
  "put_int v b = formatInteger v b"

definition put_unsigned_int :: "int \<Rightarrow> FixedBuffer \<Rightarrow> FixedBuffer res" where
  "put_unsigned_int v b = formatInteger v b"

definition put_long :: "int \<Rightarrow> FixedBuffer \<Rightarrow> FixedBuffer res" where
  "put_long v b = formatInteger v b"

definition put_unsigned_long :: "int \<Rightarrow> FixedBuffer \<Rightarrow> FixedBuffer res" where
  "put_unsigned_long v b = formatInteger v b"

definition put_pointer :: "nat \<Rightarrow> FixedBuffer \<Rightarrow> FixedBuffer res" where
  "put_pointer v b =
     (if fb_avail b \<ge> int kMaxNumericSize
      then bindR (fb_write (''0x'' @ convertHex_text v @ [CHR 0x00]) b)
             (\<lambda>b'. Inr (fb_add (length (convertHex_text v) + 2) b'))
      else Inr b)"

text \<open>\<open>g12\<close> is what \<^verbatim>\<open>"%.12g"\<close> prints for the number; \<^verbatim>\<open>snprintf\<close> cuts it at the size of the
  field and returns its full length.\<close>

definition put_double :: "string \<Rightarrow> FixedBuffer \<Rightarrow> FixedBuffer res" where
  "put_double g12 b =
     (if fb_avail b \<ge> int kMaxNumericSize
      then bindR (fb_write (snprintf_buf kMaxNumericSize g12 @ [CHR 0x00]) b) (\<lambda>b'. Inr (fb_add (length g12) b'))
      else Inr b)"

definition put_string :: "string \<Rightarrow> FixedBuffer \<Rightarrow> FixedBuffer res" where
  "put_string v b = fb_append v b"

text \<open>\<^verbatim>\<open>Fmt(fmt, val)\<close>: the formatted text must fit the array of 32, or the constructor aborts.\<close>

definition Fmt :: "string \<Rightarrow> string res" where
  "Fmt formatted = bindR (assertR (length formatted < 32) ''length_ < sizeof buf_'') (\<lambda>_. Inr (snprintf_buf 32 formatted))"

definition put_Fmt :: "string \<Rightarrow> FixedBuffer \<Rightarrow> FixedBuffer res" where
  "put_Fmt formatted b = bindR (Fmt formatted) (\<lambda>f. fb_append f b)"

text \<open>The items a log statement inserts.\<close>

datatype log_item =
    IBool bool
  | IChar char
  | IInt int
  | IPtr nat
  | IDouble string
  | IStr string

fun put_item :: "log_item \<Rightarrow> FixedBuffer \<Rightarrow> FixedBuffer res" where
  "put_item (IBool v) b = put_bool v b"
| "put_item (IChar c) b = put_char c b"
| "put_item (IInt v) b = put_long v b"
| "put_item (IPtr p) b = put_pointer p b"
| "put_item (IDouble s) b = put_double s b"
| "put_item (IStr s) b = put_string s b"

text \<open>What each item should read as, and the items the types of the program can hold:
  integers and addresses of at most 64 bits, numbers whose \<^verbatim>\<open>%.12g\<close> text is shorter than the field.\<close>

fun item_text :: "log_item \<Rightarrow> string" where
  "item_text (IBool v) = (if v then ''1'' else ''0'')"
| "item_text (IChar c) = [c]"
| "item_text (IInt v) = show_int v"
| "item_text (IPtr p) = ''0x'' @ convertHex_text p"
| "item_text (IDouble s) = s"
| "item_text (IStr s) = s"

fun item_ok :: "log_item \<Rightarrow> bool" where
  "item_ok (IInt v) \<longleftrightarrow> - (2 ^ 63) \<le> v \<and> v < 2 ^ 64"
| "item_ok (IPtr p) \<longleftrightarrow> p < 2 ^ 64"
| "item_ok (IDouble s) \<longleftrightarrow> length s < kMaxNumericSize"
| "item_ok _ \<longleftrightarrow> True"

definition fb_inv :: "FixedBuffer \<Rightarrow> bool" where
  "fb_inv b \<longleftrightarrow> fb_cur b \<le> length (fb_data b) \<and> length (fb_data b) < SIZE_MOD"

section \<open>The digit loops\<close>

lemma abs_sdiv_10: "nat \<bar>i sdiv 10\<bar> = nat \<bar>i\<bar> div 10" for i :: int
  by (auto simp: signed_divide_int_def abs_mult sgn_if nat_div_distrib split: if_splits)

lemma abs_smod_10: "nat \<bar>i smod 10\<bar> = nat \<bar>i\<bar> mod 10" for i :: int
proof (cases "0 \<le> i")
  case True
  then have "i smod 10 = i mod 10" by (simp add: signed_modulo_int_def signed_divide_int_def sgn_if minus_div_mult_eq_mod)
  with True show ?thesis by (simp add: nat_mod_distrib)
next
  case False
  then have "i smod 10 = - ((- i) mod 10)"
    by (simp add: signed_modulo_int_def signed_divide_int_def sgn_if minus_div_mult_eq_mod [symmetric])
  with False show ?thesis by (simp add: nat_mod_distrib)
qed

lemma digit_table: "d < 10 \<Longrightarrow> digits ! (9 + d) = char_of (48 + d) \<and> digits ! (9 - d) = char_of (48 + d)"
proof -
  assume "d < 10"
  then have "d \<in> {0, 1, 2, 3, 4, 5, 6, 7, 8, 9}" by auto
  then show ?thesis by (auto simp: digits_def char_of_def bit_0)
qed

lemma zero_digit_abs: "nat \<bar>x\<bar> < 10 \<Longrightarrow> zero_digit x = char_of (48 + nat \<bar>x\<bar>)"
proof (cases "0 \<le> x")
  case True
  assume "nat \<bar>x\<bar> < 10"
  with True show ?thesis using digit_table [of "nat x"] by (simp add: zero_digit_def nat_add_distrib)
next
  case False
  assume "nat \<bar>x\<bar> < 10"
  moreover have "nat (9 + x) = 9 - nat \<bar>x\<bar>" using False by linarith
  ultimately show ?thesis using digit_table [of "nat \<bar>x\<bar>"] by (simp add: zero_digit_def)
qed

lemma rev_convert_loop: "rev (convert_loop i) = show_nat (nat \<bar>i\<bar>)"
proof (induction i rule: convert_loop.induct)
  case (1 i)
  have z: "zero_digit (i smod 10) = char_of (48 + nat \<bar>i\<bar> mod 10)"
    using zero_digit_abs [of "i smod 10"] by (simp add: abs_smod_10)
  have q: "i sdiv 10 = 0 \<longleftrightarrow> nat \<bar>i\<bar> < 10"
    using abs_sdiv_10 [of i] by (metis abs_eq_0_iff div_eq_0_iff int_nat_eq nat_0_iff abs_ge_zero zero_neq_numeral
        nat_zero_as_int of_nat_0 antisym)
  show ?case
  proof (cases "i sdiv 10 = 0")
    case True
    with z q show ?thesis by (subst convert_loop.simps, subst show_nat.simps) simp
  next
    case False
    then have "rev (convert_loop (i sdiv 10)) = show_nat (nat \<bar>i\<bar> div 10)"
      using "1" [OF refl refl] by (simp add: abs_sdiv_10)
    with z q False show ?thesis by (subst convert_loop.simps, subst show_nat.simps) simp
  qed
qed

lemma convert_text_show_int: "convert_text v = show_int v"
  using rev_convert_loop [of v] by (auto simp: convert_text_def show_int_def)

lemma length_show_int: "- (2 ^ 63) \<le> v \<Longrightarrow> v < 2 ^ 64 \<Longrightarrow> length (show_int v) \<le> 20"
proof (cases "v < 0")
  case True
  assume "- (2 ^ 63) \<le> v"
  then have "nat (- v) < 10 ^ 19" using True by (simp add: nat_less_iff)
  then have "length (show_nat (nat (- v))) \<le> 19" by (rule length_show_nat_le) simp
  with True show ?thesis by (simp add: show_int_def)
next
  case False
  assume "v < 2 ^ 64"
  then have "nat v < 10 ^ 20" using False by (simp add: nat_less_iff)
  then have "length (show_nat (nat v)) \<le> 20" by (rule length_show_nat_le) simp
  with False show ?thesis by (simp add: show_int_def)
qed

lemma length_convertHex: "n < 16 ^ k \<Longrightarrow> 0 < k \<Longrightarrow> length (convertHex_text n) \<le> k"
proof (induction n arbitrary: k rule: convertHex_loop.induct)
  case (1 n)
  show ?case
  proof (cases "n div 16 = 0")
    case True
    with "1.prems" show ?thesis by (simp add: convertHex_text_def convertHex_loop.simps [of n])
  next
    case False
    then obtain j where k: "k = Suc j" "0 < j"
      using "1.prems" by (cases k; cases "k - 1") auto
    with "1.prems" have "n div 16 < 16 ^ j" by (simp add: less_mult_imp_div_less mult.commute)
    with "1.IH" [OF refl refl False this k(2)] False k show ?thesis
      by (simp add: convertHex_text_def convertHex_loop.simps [of n])
  qed
qed

section \<open>Insertions\<close>

text \<open>Writing text (and anything behind it that fits) and moving the position over the text.\<close>

lemma fb_write_add:
  assumes "fb_inv b" "length (t @ post) \<le> length (fb_data b) - fb_cur b"
  shows "\<exists>b'. fb_write (t @ post) b = Inr b' \<and> fb_inv (fb_add (length t) b') \<and>
     fb_asString (fb_add (length t) b') = fb_asString b @ t \<and> length (fb_data b') = length (fb_data b) \<and>
     fb_cur b' = fb_cur b"
proof -
  have "fb_cur b + (length t + length post) \<le> length (fb_data b)" "fb_cur b + length t \<le> length (fb_data b)"
    using assms by (auto simp: fb_inv_def)
  with assms(1) show ?thesis
    by (simp add: fb_write_def mem_write_def fb_inv_def fb_add_def fb_asString_def fb_length_def)
qed

lemma fb_avail_size [size_simps]: "fb_inv b \<Longrightarrow> int_to_size (fb_avail b) = length (fb_data b) - fb_cur b"
  by (simp add: fb_inv_def fb_avail_def int_to_size_nonneg nat_diff_distrib)

text \<open>What an insertion of a text may do: take it or leave it; and it takes it where there is
  room.\<close>

definition put_spec :: "string \<Rightarrow> FixedBuffer \<Rightarrow> FixedBuffer res \<Rightarrow> bool" where
  "put_spec t b r \<longleftrightarrow>
     (\<exists>b'. r = Inr b' \<and> fb_inv b' \<and> length (fb_data b') = length (fb_data b) \<and>
        (b' = b \<and> length (fb_data b) - fb_cur b < max kMaxNumericSize (length t + 1)
         \<or> fb_asString b' = fb_asString b @ t \<and> fb_cur b' = fb_cur b + length t))"

lemma put_spec_write:
  assumes "fb_inv b" "length (t @ post) \<le> length (fb_data b) - fb_cur b" "n = length t"
  shows "put_spec t b (bindR (fb_write (t @ post) b) (\<lambda>b'. Inr (fb_add n b')))"
  using fb_write_add [OF assms(1,2)] assms(3) by (auto simp: put_spec_def fb_add_def)

lemma put_spec_skip:
  "fb_inv b \<Longrightarrow> length (fb_data b) - fb_cur b < max kMaxNumericSize (length t + 1) \<Longrightarrow> put_spec t b (Inr b)"
  by (simp add: put_spec_def)

lemma fb_append_spec: "fb_inv b \<Longrightarrow> put_spec t b (fb_append t b)"
  using put_spec_write [of b t "[]"] put_spec_skip [of b t] by (auto simp: fb_append_def fb_avail_size)

lemma avail_numeric: "fb_inv b \<Longrightarrow> fb_avail b \<ge> int n \<longleftrightarrow> length (fb_data b) - fb_cur b \<ge> n"
  by (auto simp: fb_avail_def fb_inv_def)

lemma numeric_room: "fb_inv b \<Longrightarrow> fb_avail b \<ge> int kMaxNumericSize \<Longrightarrow> 32 \<le> length (fb_data b) - fb_cur b"
  by (simp only: avail_numeric) (simp add: kMaxNumericSize_def)

lemma formatInteger_spec:
  assumes "fb_inv b" "- (2 ^ 63) \<le> v" "v < 2 ^ 64"
  shows "put_spec (show_int v) b (formatInteger v b)"
proof (cases "fb_avail b \<ge> int kMaxNumericSize")
  case True
  have "formatInteger v b = bindR (fb_write (show_int v @ [CHR 0x00]) b) (\<lambda>b'. Inr (fb_add (length (show_int v)) b'))"
    using True by (simp add: formatInteger_def convert_def convert_text_show_int bindR_assoc)
  then show ?thesis
    using put_spec_write [of b "show_int v" "[CHR 0x00]"] numeric_room [OF assms(1) True] assms(1) length_show_int [OF assms(2,3)]
    by simp
next
  case False
  then show ?thesis using put_spec_skip [of b] assms by (simp add: formatInteger_def avail_numeric)
qed

lemma put_pointer_spec:
  assumes "fb_inv b" "v < 2 ^ 64"
  shows "put_spec (''0x'' @ convertHex_text v) b (put_pointer v b)"
proof (cases "fb_avail b \<ge> int kMaxNumericSize")
  case True
  have "length (convertHex_text v) \<le> 16" using assms(2) by (intro length_convertHex) simp_all
  then show ?thesis
    using put_spec_write [of b "''0x'' @ convertHex_text v" "[CHR 0x00]"] numeric_room [OF assms(1) True] True assms(1)
    by (simp add: put_pointer_def)
next
  case False
  then show ?thesis using put_spec_skip [of b] assms by (simp add: put_pointer_def avail_numeric)
qed

lemma put_double_spec:
  assumes "fb_inv b" "length s < kMaxNumericSize"
  shows "put_spec s b (put_double s b)"
proof (cases "fb_avail b \<ge> int kMaxNumericSize")
  case True
  then show ?thesis
    using put_spec_write [of b s "[CHR 0x00]"] numeric_room [OF assms(1) True] assms
    by (simp add: put_double_def snprintf_buf_def kMaxNumericSize_def)
next
  case False
  then show ?thesis using put_spec_skip [of b] assms by (simp add: put_double_def avail_numeric)
qed

lemma put_char_spec: "fb_inv b \<Longrightarrow> put_spec [c] b (put_char c b)"
  using put_spec_write [of b "[c]" "[]"] put_spec_skip [of b "[c]"] avail_numeric [of b 1]
  by (simp add: put_char_def kMaxNumericSize_def)

lemma put_item_spec: "fb_inv b \<Longrightarrow> item_ok x \<Longrightarrow> put_spec (item_text x) b (put_item x b)"
  by (cases x) (auto simp: put_bool_def put_string_def put_long_def fb_append_spec put_char_spec
      formatInteger_spec put_pointer_spec put_double_spec simp del: append.simps)

section \<open>The interface of a text sink\<close>

locale text_sink =
  fixes put :: "'i \<Rightarrow> 's \<Rightarrow> 's res"
    and txt_of :: "'i \<Rightarrow> string"
    and ok :: "'i \<Rightarrow> bool"
    and content :: "'s \<Rightarrow> string"
    and room :: "'s \<Rightarrow> nat"
    and slack :: nat
    and inv :: "'s \<Rightarrow> bool"
  assumes put_all_or_nothing: "inv s \<Longrightarrow> ok x \<Longrightarrow> \<exists>t. put x s = Inr t \<and> inv t \<and>
      (t = s \<and> room s < length (txt_of x) + slack \<or>
       content t = content s @ txt_of x \<and> room s = room t + length (txt_of x))"
begin

text \<open>A sequence of insertions never faults, and what it leaves is the text of a subsequence of
  the items, in their order.\<close>

lemma puts_subseq:
  assumes "inv s" "list_all ok xs"
  shows "\<exists>t ys. foldR put xs s = Inr t \<and> inv t \<and> subseq ys xs \<and> content t = content s @ concat (map txt_of ys)"
  using assms
proof (induction xs arbitrary: s)
  case (Cons x xs)
  then obtain u where u: "put x s = Inr u" "inv u" "u = s \<or> content u = content s @ txt_of x"
    using put_all_or_nothing [of s x] by auto
  with Cons obtain t ys where t: "foldR put xs u = Inr t" "inv t" "subseq ys xs" "content t = content u @ concat (map txt_of ys)"
    by fastforce
  from u(3) show ?case
  proof
    assume "u = s"
    with t u show ?thesis by (intro exI [of _ t] exI [of _ ys]) auto
  next
    assume "content u = content s @ txt_of x"
    with t u show ?thesis by (intro exI [of _ t] exI [of _ "x # ys"]) auto
  qed
qed auto

text \<open>Where there is room for everything, everything is there.\<close>

lemma puts_all:
  assumes "inv s" "list_all ok xs" "length (concat (map txt_of xs)) + slack \<le> room s"
  shows "\<exists>t. foldR put xs s = Inr t \<and> inv t \<and> content t = content s @ concat (map txt_of xs)"
  using assms
proof (induction xs arbitrary: s)
  case (Cons x xs)
  then obtain u where u: "put x s = Inr u" "inv u" "content u = content s @ txt_of x"
    "room s = room u + length (txt_of x)"
    using put_all_or_nothing [of s x] by auto
  with Cons show ?case by fastforce
qed auto

end

interpretation log_stream: text_sink put_item item_text item_ok fb_asString "\<lambda>b. length (fb_data b) - fb_cur b"
  kMaxNumericSize fb_inv
proof
  fix b x
  assume a: "fb_inv b" "item_ok x"
  have "max kMaxNumericSize (length t + 1) \<le> length t + kMaxNumericSize" for t :: string
    by (simp add: kMaxNumericSize_def)
  then show "\<exists>t. put_item x b = Inr t \<and> fb_inv t \<and>
      (t = b \<and> length (fb_data b) - fb_cur b < length (item_text x) + kMaxNumericSize \<or>
       fb_asString t = fb_asString b @ item_text x \<and>
       length (fb_data b) - fb_cur b = length (fb_data t) - fb_cur t + length (item_text x))"
    using put_item_spec [OF a] unfolding put_spec_def fb_inv_def by fastforce
qed

section \<open>Properties\<close>

text \<open>C19: The digit loop of \<^verbatim>\<open>convert\<close>, with its table read on both sides of the zero, prints every
  integer as the decimal reference does, the smallest values of the signed types included, and
  reading the digits back gives the absolute value.\<close>

theorem convert_decimal:
  "convert_text v = show_int v \<and> parse_nat (rev (convert_loop v)) = nat \<bar>v\<bar>"
  by (simp add: convert_text_show_int rev_convert_loop)

text \<open>C20: A sequence of insertions into a \<^verbatim>\<open>LogStream\<close> never writes outside the buffer; an item that
  does not fit is left out whole, so the buffer holds the texts of a subsequence of the items, in
  order, and of all of them where 32 bytes more than they need are free.\<close>

theorem logstream_all_or_nothing:
  assumes "list_all item_ok xs" "length storage = kSmallBuffer"
  shows "\<exists>b ys. foldR put_item xs (FixedBuffer_new storage) = Inr b \<and> subseq ys xs \<and>
     fb_asString b = concat (map item_text ys) \<and> fb_length b \<le> kSmallBuffer \<and>
     (length (concat (map item_text xs)) + kMaxNumericSize \<le> kSmallBuffer
        \<longrightarrow> fb_asString b = concat (map item_text xs))"
proof -
  have inv: "fb_inv (FixedBuffer_new storage)" and c: "fb_asString (FixedBuffer_new storage) = []"
    using assms(2) by (simp_all add: fb_inv_def FixedBuffer_new_def kSmallBuffer_def SIZE_MOD_def fb_asString_def fb_length_def)
  obtain b ys where b: "foldR put_item xs (FixedBuffer_new storage) = Inr b" "fb_inv b" "subseq ys xs"
    "fb_asString b = concat (map item_text ys)"
    using log_stream.puts_subseq [OF inv assms(1)] c by auto
  moreover have "length (fb_data t) = length (fb_data s)"
    if "foldR put_item zs s = Inr t" "fb_inv s" "list_all item_ok zs" for zs s t
    using that
  proof (induction zs arbitrary: s)
    case (Cons z zs)
    then show ?case using put_item_spec [of s z] by (fastforce simp: put_spec_def)
  qed simp
  then have "fb_length b \<le> kSmallBuffer"
    using b inv assms by (fastforce simp: fb_inv_def fb_length_def FixedBuffer_new_def)
  ultimately show ?thesis
    using log_stream.puts_all [OF inv assms(1)] assms(2) c
    by (fastforce simp: FixedBuffer_new_def)
qed

theorem logstream_all_or_nothing_witness:
  "\<exists>b ys. foldR put_item [IStr ''n='', IInt (-9223372036854775808)] (FixedBuffer_new (replicate kSmallBuffer CHR 0x00)) = Inr b
     \<and> subseq ys [IStr ''n='', IInt (-9223372036854775808)] \<and> fb_asString b = concat (map item_text ys)"
  using logstream_all_or_nothing [of "[IStr ''n='', IInt (-9223372036854775808)]" "replicate kSmallBuffer CHR 0x00"]
  by auto

text \<open>A buffer filled to its last byte by characters is a normal state, and \<^verbatim>\<open>debugString\<close> on it
  stores its NUL behind the array.\<close>

theorem debugString_full_overruns:
  assumes "0 < n" "n < SIZE_MOD"
  shows "\<exists>b. foldR put_char (replicate n c) (FixedBuffer_new (replicate n d)) = Inr b \<and>
     fb_asString b = replicate n c \<and> fb_debugString b = Inl OutOfBounds"
proof -
  have step: "foldR put_char (replicate k c) (FixedBuffer_new (replicate n d)) =
      Inr \<lparr>fb_data = replicate k c @ replicate (n - k) d, fb_cur = k\<rparr>" if "k \<le> n" for k
    using that
  proof (induction k)
    case (Suc k)
    have "replicate (Suc k) c = replicate k c @ [c]" by (simp add: replicate_append_same)
    moreover have "replicate (n - k) d = d # replicate (n - Suc k) d"
      using Suc.prems by (metis Suc_diff_Suc Suc_le_lessD replicate_Suc)
    ultimately show ?case
      using Suc by (simp add: foldR_append put_char_def fb_avail_def fb_write_def mem_write_def fb_add_def
          del: replicate_Suc)
  qed (simp add: FixedBuffer_new_def)
  show ?thesis
    using step [of n] by (simp add: fb_debugString_def fb_write_def mem_write_def fb_asString_def fb_length_def)
qed

theorem debugString_full_overruns_witness:
  "\<exists>b. foldR put_char (replicate 4096 CHR ''x'') (FixedBuffer_new (replicate 4096 CHR 0x00)) = Inr b \<and>
     fb_asString b = replicate 4096 CHR ''x'' \<and> fb_debugString b = Inl OutOfBounds"
  by (rule debugString_full_overruns) (simp_all add: SIZE_MOD_def)

end
