(* ===== verification/Date.thy ===== *)
theory Date
  imports Leaf_Prelude
begin

text \<open>
  Calendar dates (\<^verbatim>\<open>src/base/Date.h\<close>, \<^verbatim>\<open>src/base/Date.cc\<close>). A date is its Julian day number.
  C++ integer division truncates, so every \<^verbatim>\<open>/\<close> is \<open>sdiv\<close>. The specification is the Gregorian
  calendar itself: leap years, month lengths and the successor of a day. The lemmas show that
  the two conversions are inverse to each other and that consecutive days have consecutive
  numbers; the interface is the locale \<open>day_numbering\<close>.
\<close>

section \<open>The class\<close>

record YearMonthDay =
  ymd_year :: int
  ymd_month :: int
  ymd_day :: int

datatype Date = Date (julianDayNumber: int)

definition getJulianDayNumber :: "int \<Rightarrow> int \<Rightarrow> int \<Rightarrow> int" where
  "getJulianDayNumber year month day =
     (let a = (14 - month) sdiv 12;
          y = year + 4800 - a;
          m = month + 12 * a - 3
      in day + (153 * m + 2) sdiv 5 + y * 365 + y sdiv 4 - y sdiv 100 + y sdiv 400 - 32045)"

definition getYearMonthDay :: "int \<Rightarrow> YearMonthDay" where
  "getYearMonthDay jdn =
     (let a = jdn + 32044;
          b = (4 * a + 3) sdiv 146097;
          c = a - (b * 146097) sdiv 4;
          d = (4 * c + 3) sdiv 1461;
          e = c - (1461 * d) sdiv 4;
          m = (5 * e + 2) sdiv 153
      in \<lparr>ymd_year = b * 100 + d - 4800 + m sdiv 10,
          ymd_month = m + 3 - 12 * (m sdiv 10),
          ymd_day = e - (153 * m + 2) sdiv 5 + 1\<rparr>)"

definition kDaysPerWeek :: int where
  "kDaysPerWeek = 7"

definition kJulianDayOf1970_01_01 :: int where
  "kJulianDayOf1970_01_01 = getJulianDayNumber 1970 1 1"

definition Date_invalid :: Date where
  "Date_invalid = Date 0"

definition Date_ymd :: "int \<Rightarrow> int \<Rightarrow> int \<Rightarrow> Date" where
  "Date_ymd y m d = Date (getJulianDayNumber y m d)"

text \<open>The part of \<^verbatim>\<open>struct tm\<close> the library reads.\<close>

record tm =
  tm_year :: int
  tm_mon :: int
  tm_mday :: int
  tm_hour :: int
  tm_min :: int
  tm_sec :: int

definition Date_tm :: "tm \<Rightarrow> Date" where
  "Date_tm t = Date (getJulianDayNumber (tm_year t + 1900) (tm_mon t + 1) (tm_mday t))"

definition Date_valid :: "Date \<Rightarrow> bool" where
  "Date_valid x \<longleftrightarrow> 0 < julianDayNumber x"

definition yearMonthDay :: "Date \<Rightarrow> YearMonthDay" where
  "yearMonthDay x = getYearMonthDay (julianDayNumber x)"

definition Date_year :: "Date \<Rightarrow> int" where
  "Date_year x = ymd_year (yearMonthDay x)"

definition Date_month :: "Date \<Rightarrow> int" where
  "Date_month x = ymd_month (yearMonthDay x)"

definition Date_day :: "Date \<Rightarrow> int" where
  "Date_day x = ymd_day (yearMonthDay x)"

definition weekDay :: "Date \<Rightarrow> int" where
  "weekDay x = (julianDayNumber x + 1) smod kDaysPerWeek"

definition Date_less :: "Date \<Rightarrow> Date \<Rightarrow> bool" where
  "Date_less x y \<longleftrightarrow> julianDayNumber x < julianDayNumber y"

definition Date_eq :: "Date \<Rightarrow> Date \<Rightarrow> bool" where
  "Date_eq x y \<longleftrightarrow> julianDayNumber x = julianDayNumber y"

definition toIsoString :: "Date \<Rightarrow> string" where
  "toIsoString x =
     (let ymd = yearMonthDay x
      in snprintf_buf 32 (printf_d 4 (ymd_year ymd) @ ''-'' @ printf_0d 2 (ymd_month ymd) @ ''-''
           @ printf_0d 2 (ymd_day ymd)))"

section \<open>The calendar\<close>

definition is_leap :: "int \<Rightarrow> bool" where
  "is_leap y \<longleftrightarrow> y mod 4 = 0 \<and> (y mod 100 \<noteq> 0 \<or> y mod 400 = 0)"

definition days_in_month :: "int \<Rightarrow> int \<Rightarrow> int" where
  "days_in_month y m =
     (if m = 2 then if is_leap y then 29 else 28
      else if m = 4 \<or> m = 6 \<or> m = 9 \<or> m = 11 then 30 else 31)"

definition valid_ymd :: "int \<Rightarrow> int \<Rightarrow> int \<Rightarrow> bool" where
  "valid_ymd y m d \<longleftrightarrow> - 4799 \<le> y \<and> 1 \<le> m \<and> m \<le> 12 \<and> 1 \<le> d \<and> d \<le> days_in_month y m"

fun next_day :: "int \<times> int \<times> int \<Rightarrow> int \<times> int \<times> int" where
  "next_day (y, m, d) =
     (if d < days_in_month y m then (y, m, d + 1)
      else if m < 12 then (y, m + 1, 1) else (y + 1, 1, 1))"

section \<open>Arithmetic\<close>

lemma sdiv_nonneg: "0 \<le> (x::int) \<Longrightarrow> 0 < k \<Longrightarrow> x sdiv k = x div k"
  by (cases "x = 0") (auto simp: signed_divide_int_def)

lemma sdiv_eqI: "0 \<le> (x::int) \<Longrightarrow> 0 < k \<Longrightarrow> x div k = q \<Longrightarrow> x sdiv k = q"
  by (simp add: sdiv_nonneg)

lemma smod_nonneg: "0 \<le> (x::int) \<Longrightarrow> 0 < k \<Longrightarrow> x smod k = x mod k"
  by (cases "x = 0") (auto simp: signed_modulo_int_def signed_divide_int_def minus_div_mult_eq_mod)

lemma div_eqI: "(q::int) * k \<le> x \<Longrightarrow> x < q * k + k \<Longrightarrow> 0 < k \<Longrightarrow> x div k = q"
  by (rule int_div_pos_eq [of _ _ _ "x - q * k"]) auto

text \<open>The month as the formulas count it, from March, and the day of that year.\<close>

definition march_month :: "int \<Rightarrow> int" where
  "march_month m = (if m \<le> 2 then m + 9 else m - 3)"

definition march_year :: "int \<Rightarrow> int \<Rightarrow> int" where
  "march_year y m = (if m \<le> 2 then y + 4799 else y + 4800)"

definition day_of_year :: "int \<Rightarrow> int \<Rightarrow> int" where
  "day_of_year m d = d - 1 + (153 * march_month m + 2) div 5"

lemma month_cases:
  assumes "1 \<le> m" "m \<le> (12::int)"
  shows "m = 1 \<or> m = 2 \<or> m = 3 \<or> m = 4 \<or> m = 5 \<or> m = 6 \<or> m = 7 \<or> m = 8 \<or> m = 9 \<or> m = 10 \<or> m = 11 \<or> m = 12"
  using assms by presburger

lemma getJulianDayNumber_march:
  assumes "- 4799 \<le> y" "1 \<le> m" "m \<le> 12"
  shows "getJulianDayNumber y m d = day_of_year m d + march_year y m * 365 + march_year y m div 4
     - march_year y m div 100 + march_year y m div 400 - 32044"
proof -
  have a: "(14 - m) sdiv 12 = (if m \<le> 2 then 1 else 0)"
    using month_cases [OF assms(2,3)] by (elim disjE) (simp_all add: sdiv_nonneg)
  have "0 \<le> march_year y m" "0 \<le> march_month m" using assms by (auto simp: march_year_def march_month_def)
  then show ?thesis
    by (simp add: getJulianDayNumber_def a Let_def sdiv_nonneg march_year_def march_month_def day_of_year_def
        algebra_simps split: if_splits)
qed

lemma is_leap_4800: "is_leap (y + 4800) = is_leap y"
  using mod_mult_self1 [of y 1200 4] mod_mult_self1 [of y 48 100] mod_mult_self1 [of y 12 400]
  by (simp add: is_leap_def)

lemma day_of_year_bounds:
  assumes "valid_ymd y m d"
  shows "0 \<le> day_of_year m d \<and> day_of_year m d \<le> 365 \<and>
     (day_of_year m d = 365 \<longrightarrow> is_leap (march_year y m + 1))"
proof -
  have m: "1 \<le> m" "m \<le> 12" and d: "1 \<le> d" "d \<le> days_in_month y m"
    using assms by (auto simp: valid_ymd_def)
  show ?thesis
    using month_cases [OF m] d is_leap_4800 [of y]
    by (elim disjE) (auto simp: day_of_year_def march_month_def march_year_def days_in_month_def
        algebra_simps split: if_splits)
qed

text \<open>The division steps of the conversion, on the year \<open>Y\<close> and the day \<open>D\<close> counted from
  March: the century, the year of the century and the day come back.\<close>

lemma century_of:
  assumes "0 \<le> Y" "0 \<le> D" "D \<le> 365" "D = 365 \<longrightarrow> is_leap (Y + 1)"
    and A: "A = D + Y * 365 + Y div 4 - Y div 100 + Y div 400"
  shows "(4 * A + 3) div 146097 = Y div 100 \<and>
     A - ((Y div 100) * 146097) div 4 = 365 * (Y mod 100) + (Y mod 100) div 4 + D"
proof -
  define b where "b = Y div 100"
  define r where "r = Y mod 100"
  have Y: "Y = 100 * b + r" and r: "0 \<le> r" "r < 100" and b: "0 \<le> b"
    using assms(1) by (auto simp: b_def r_def pos_imp_zdiv_nonneg_iff)
  have q: "Y div 4 = 25 * b + r div 4" "Y div 400 = b div 4"
  proof -
    show "Y div 4 = 25 * b + r div 4" using div_mult_self1 [of 4 r "25 * b"] by (simp add: Y algebra_simps)
    show "Y div 400 = b div 4" using zdiv_zmult2_eq [of 4 Y 100] by (simp add: b_def)
  qed
  have c: "b * 146097 div 4 = 36524 * b + b div 4"
    using div_mult_self1 [of 4 b "36524 * b"] by (simp add: algebra_simps)
  have A': "A = 36524 * b + b div 4 + (365 * r + r div 4 + D)"
    using A q Y r by (simp add: b_def [symmetric] div_pos_pos_trivial)
  have top: "4 * (365 * r + r div 4 + D) + 3 - b mod 4 < 146097"
  proof (cases "D = 365 \<and> r = 99")
    case True
    then have "is_leap (100 * (b + 1))" using assms(4) Y by (simp add: algebra_simps)
    then have "(100 * (b + 1)) mod (100 * 4) = 0" by (simp add: is_leap_def)
    then have "(b + 1) mod 4 = 0" unfolding mod_mult_mult1 by simp
    then have "b mod 4 = 3" by presburger
    with True show ?thesis by simp
  next
    case False
    with assms(3) r have "D \<le> 364 \<or> r \<le> 98" by linarith
    moreover have "r div 4 \<le> 24" "0 \<le> b mod 4" using r by auto
    moreover have "4 * (365 * r + v + D) + 3 - w < 146097"
      if "v \<le> 24" "0 \<le> w" "D \<le> 364 \<or> r \<le> 98" for v w :: int
      using that(3) that(1,2) assms(3) r by (elim disjE) simp_all
    ultimately show ?thesis by blast
  qed
  have "(4 * A + 3) div 146097 = b"
  proof (rule div_eqI)
    have e: "4 * A + 3 = b * 146097 + (4 * (365 * r + r div 4 + D) + 3 - b mod 4)"
      using A' div_mult_mod_eq [of b 4] by (simp add: algebra_simps)
    have "0 \<le> r div 4" "b mod 4 \<le> 3" using r by (auto simp: pos_imp_zdiv_nonneg_iff)
    then have "0 \<le> 4 * (365 * r + r div 4 + D) + 3 - b mod 4" using r(1) assms(2) by simp
    then show "b * 146097 \<le> 4 * A + 3" by (simp add: e)
    show "4 * A + 3 < b * 146097 + 146097" using top by (simp only: e add_strict_left_mono)
  qed simp
  moreover have "A - (b * 146097) div 4 = 365 * r + r div 4 + D" using A' c by simp
  ultimately show ?thesis by (simp add: b_def r_def)
qed

lemma year_of_century:
  assumes "0 \<le> (r::int)" "0 \<le> D" "D \<le> 365" "D = 365 \<longrightarrow> r mod 4 = 3"
    and c: "c = 365 * r + r div 4 + D"
  shows "(4 * c + 3) div 1461 = r \<and> c - (1461 * r) div 4 = D"
proof -
  have e: "4 * c + 3 = r * 1461 + (4 * D + 3 - r mod 4)" 
    using c div_mult_mod_eq [of r 4] by (simp add: algebra_simps)
  have "(4 * c + 3) div 1461 = r"
  proof (rule div_eqI)
    have "0 \<le> r mod 4" "r mod 4 \<le> 3" by auto
    then show "r * 1461 \<le> 4 * c + 3" using e assms(2) by linarith
    have "4 * D - r mod 4 < 1458"
      using assms(3,4) \<open>0 \<le> r mod 4\<close> by (cases "D = 365") auto
    with e show "4 * c + 3 < r * 1461 + 1461" by linarith
  qed simp
  moreover have "(1461 * r) div 4 = 365 * r + r div 4"
    using div_mult_self1 [of 4 r "365 * r"] by (simp add: algebra_simps)
  ultimately show ?thesis using c by simp
qed

lemma month_of_day:
  assumes "1 \<le> m" "m \<le> 12" "1 \<le> d" "d \<le> days_in_month y m"
  shows "(5 * day_of_year m d + 2) div 153 = march_month m"
  using month_cases [OF assms(1,2)] assms(3,4)
  by (elim disjE) (auto simp: day_of_year_def march_month_def days_in_month_def intro!: div_eqI split: if_splits)

lemma getYearMonthDay_steps:
  assumes "(4 * A + 3) div 146097 = b" "A - (b * 146097) div 4 = c" "(4 * c + 3) div 1461 = d"
    "c - (1461 * d) div 4 = e" "(5 * e + 2) div 153 = m"
    and "0 \<le> A" "0 \<le> b" "0 \<le> c" "0 \<le> d" "0 \<le> e" "0 \<le> m"
  shows "getYearMonthDay (A - 32044) = \<lparr>ymd_year = b * 100 + d - 4800 + m div 10,
      ymd_month = m + 3 - 12 * (m div 10), ymd_day = e - (153 * m + 2) div 5 + 1\<rparr>"
proof -
  have s: "(4 * A + 3) sdiv 146097 = b" "(b * 146097) sdiv 4 = (b * 146097) div 4" "(4 * c + 3) sdiv 1461 = d"
    "(1461 * d) sdiv 4 = (1461 * d) div 4" "(5 * e + 2) sdiv 153 = m" "m sdiv 10 = m div 10"
    "(153 * m + 2) sdiv 5 = (153 * m + 2) div 5"
    using assms(6-11) by (auto intro: sdiv_eqI [OF _ _ assms(1)] sdiv_eqI [OF _ _ assms(3)] sdiv_eqI [OF _ _ assms(5)]
        sdiv_nonneg)
  show ?thesis
    unfolding getYearMonthDay_def Let_def diff_add_cancel s assms(2,4) by (rule refl)
qed

lemma getYearMonthDay_getJulianDayNumber:
  assumes v: "valid_ymd y m d"
  shows "getYearMonthDay (getJulianDayNumber y m d) = \<lparr>ymd_year = y, ymd_month = m, ymd_day = d\<rparr>"
proof -
  define Y where "Y = march_year y m"
  define D where "D = day_of_year m d"
  define A where "A = getJulianDayNumber y m d + 32044"
  have m: "-4799 \<le> y" "1 \<le> m" "m \<le> 12" and d: "1 \<le> d" "d \<le> days_in_month y m"
    using v by (auto simp: valid_ymd_def)
  have D: "0 \<le> D" "D \<le> 365" "D = 365 \<longrightarrow> is_leap (Y + 1)"
    using day_of_year_bounds [OF v] by (auto simp: D_def Y_def)
  have Y: "0 \<le> Y" using m by (auto simp: Y_def march_year_def)
  have A: "A = D + Y * 365 + Y div 4 - Y div 100 + Y div 400"
    using getJulianDayNumber_march [OF m, of d] by (simp add: A_def D_def Y_def)
  define c where "c = 365 * (Y mod 100) + (Y mod 100) div 4 + D"
  note cent = century_of [OF Y D A, folded c_def]
  have "Y mod 100 mod 4 = Y mod 4" by (simp add: mod_mod_cancel)
  moreover have "(Y + 1) mod 4 = 0 \<Longrightarrow> Y mod 4 = 3" by presburger
  ultimately have "D = 365 \<longrightarrow> Y mod 100 mod 4 = 3" using D(3) by (simp add: is_leap_def)
  then have yr: "(4 * c + 3) div 1461 = Y mod 100 \<and> c - (1461 * (Y mod 100)) div 4 = D"
    using D by (intro year_of_century) (auto simp: c_def)
  have mo: "(5 * D + 2) div 153 = march_month m" unfolding D_def by (rule month_of_day [OF m(2,3) d])
  have nn: "0 \<le> Y div 100" "0 \<le> march_month m" "march_month m \<le> 11"
    using Y m by (auto simp: pos_imp_zdiv_nonneg_iff march_month_def)
  have pos: "0 \<le> Y div 4" "0 \<le> Y div 400" "Y div 100 \<le> Y" using Y by (auto simp: pos_imp_zdiv_nonneg_iff) 
  have "0 \<le> Y mod 100 div 4" by (simp add: pos_imp_zdiv_nonneg_iff)
  then have "0 \<le> c" "0 \<le> A" using D pos Y unfolding c_def A by simp_all
  have m10: "march_month m div 10 = (if m \<le> 2 then 1 else 0)"
    using month_cases [OF m(2,3)] by (elim disjE) (simp_all add: march_month_def)
  have "getYearMonthDay (A - 32044) = \<lparr>ymd_year = (Y div 100) * 100 + Y mod 100 - 4800 + march_month m div 10,
      ymd_month = march_month m + 3 - 12 * (march_month m div 10),
      ymd_day = D - (153 * march_month m + 2) div 5 + 1\<rparr>"
    by (rule getYearMonthDay_steps [OF conjunct1 [OF cent] conjunct2 [OF cent] conjunct1 [OF yr] conjunct2 [OF yr]
          mo \<open>0 \<le> A\<close> nn(1) \<open>0 \<le> c\<close> pos_mod_sign D(1) nn(2)]) simp
  then show ?thesis
    by (simp only: A_def m10 div_mult_mod_eq)
      (simp add: Y_def D_def march_year_def march_month_def day_of_year_def)
qed

section \<open>Consecutive days\<close>

lemma days_in_month_pos: "28 \<le> days_in_month y m"
  by (simp add: days_in_month_def)

lemma valid_next_day: "valid_ymd y m d \<Longrightarrow> (case next_day (y, m, d) of (y', m', d') \<Rightarrow> valid_ymd y' m' d')"
  using days_in_month_pos [of y "m + 1"] days_in_month_pos [of "y + 1" 1] by (auto simp: valid_ymd_def)

lemma div_succ:
  assumes "0 < (k::int)"
  shows "(Y + 1) div k = Y div k + (if (Y + 1) mod k = 0 then 1 else 0)"
proof (cases "Y mod k = k - 1")
  case True
  have "k * (Y div k) + Y mod k = Y" by simp
  with True have e: "Y + 1 = (Y div k + 1) * k" by (simp only: distrib_right) (simp add: mult.commute)
  then have "(Y + 1) div k = Y div k + 1" "(Y + 1) mod k = 0" using assms by (simp_all only: e) simp_all
  then show ?thesis by simp
next
  case False
  have "k * (Y div k) + Y mod k = Y" by simp
  moreover have "0 \<le> Y mod k" "Y mod k < k" using assms by simp_all
  moreover from this have "Y mod k + 1 < k" using False by linarith
  ultimately have "(Y + 1) div k = Y div k" and "(Y + 1) mod k = Y mod k + 1"
    using int_div_pos_eq [of "Y + 1" k "Y div k" "Y mod k + 1"]
      int_mod_pos_eq [of "Y + 1" k "Y div k" "Y mod k + 1"] by simp_all
  then show ?thesis using \<open>0 \<le> Y mod k\<close> by simp
qed

text \<open>The first of March starts a new year of the formulas; its leap day is the one of the
  civil year that ends with it.\<close>

lemma leap_days_step:
  "(Y + 1) div 4 - (Y + 1) div 100 + (Y + 1) div 400 =
     Y div 4 - Y div 100 + Y div 400 + (if is_leap (Y + 1) then 1 else 0)"
proof -
  have dv: "(400 dvd Y + 1 \<longrightarrow> 100 dvd Y + 1) \<and> (100 dvd Y + 1 \<longrightarrow> 4 dvd Y + 1)"
    using dvd_trans [of 100 400 "Y + 1"] dvd_trans [of 4 100 "Y + 1"] by simp
  have count: "x + (if A then 1 else 0) - (y + (if B then 1 else 0)) + (z + (if C then 1 else 0)) =
      x - y + z + (if A \<and> (\<not> B \<or> C) then 1 else (0::int))" if "(C \<longrightarrow> B) \<and> (B \<longrightarrow> A)" for A B C x y z
    using that by (cases A; cases B; cases C) simp_all
  have s: "(Y + 1) div k = Y div k + (if k dvd Y + 1 then 1 else 0)" if "0 < k" for k :: int
    using div_succ [OF that, of Y] by (simp only: mod_eq_0_iff_dvd)
  show ?thesis
    unfolding is_leap_def mod_eq_0_iff_dvd s [OF zero_less_numeral] by (rule count [OF dv])
qed

text \<open>The number of days before the year \<open>Y\<close> counted from March.\<close>

definition year_start :: "int \<Rightarrow> int" where
  "year_start Y = Y * 365 + Y div 4 - Y div 100 + Y div 400"

lemma year_start_step: "year_start (Y + 1) = year_start Y + 365 + (if is_leap (Y + 1) then 1 else 0)"
  using leap_days_step [of Y] unfolding year_start_def by (simp only: distrib_right)

lemma getJulianDayNumber_year_start:
  assumes "- 4799 \<le> y" "1 \<le> m" "m \<le> 12"
  shows "getJulianDayNumber y m d = day_of_year m d + year_start (march_year y m) - 32044"
  unfolding getJulianDayNumber_march [OF assms] year_start_def by (simp only: add.assoc diff_conv_add_uminus)

lemma getJulianDayNumber_next_day:
  assumes v: "valid_ymd y m d"
  shows "(case next_day (y, m, d) of (y', m', d') \<Rightarrow> getJulianDayNumber y' m' d') = getJulianDayNumber y m d + 1"
proof -
  have m: "-4799 \<le> y" "1 \<le> m" "m \<le> 12" and d: "1 \<le> d" "d \<le> days_in_month y m"
    using v by (auto simp: valid_ymd_def)
  note march = getJulianDayNumber_year_start march_year_def march_month_def day_of_year_def
  show ?thesis
  proof (cases "d < days_in_month y m")
    case True
    with m show ?thesis by (simp add: getJulianDayNumber_year_start day_of_year_def)
  next
    case False
    with d have e: "d = days_in_month y m" by simp
    show ?thesis
    proof (cases "m = 2")
      case True
      then show ?thesis
        using m year_start_step [of "y + 4799"] is_leap_4800 [of y]
        by (simp add: e march days_in_month_def add.commute)
    next
      case False
      then show ?thesis
        using month_cases [OF m(2,3)] m by (elim disjE) (simp_all add: e march days_in_month_def add.commute)
    qed
  qed
qed

text \<open>Day number \<open>-31738\<close> is the first of January of the first year the formulas cover.\<close>

lemma julian_day_exists:
  assumes "- 31738 \<le> j"
  shows "\<exists>y m d. valid_ymd y m d \<and> getJulianDayNumber y m d = j"
  using assms
proof (induction j rule: int_ge_induct)
  case base
  have "valid_ymd (-4799) 1 1 \<and> getJulianDayNumber (-4799) 1 1 = -31738"
    by (simp add: valid_ymd_def days_in_month_def getJulianDayNumber_march march_year_def march_month_def
        day_of_year_def)
  then show ?case by blast
next
  case (step j)
  then obtain y m d where v: "valid_ymd y m d" "getJulianDayNumber y m d = j" by blast
  obtain y' m' d' where n: "next_day (y, m, d) = (y', m', d')" by (cases "next_day (y, m, d)")
  then show ?case
    using valid_next_day [OF v(1)] getJulianDayNumber_next_day [OF v(1)] v(2)
    by (metis (no_types, lifting) case_prod_conv)
qed

section \<open>The interface: days numbered consecutively\<close>

locale day_numbering =
  fixes number :: "'d \<Rightarrow> int"
    and date :: "int \<Rightarrow> 'd"
    and ok :: "'d \<Rightarrow> bool"
    and succ :: "'d \<Rightarrow> 'd"
  assumes date_number: "ok x \<Longrightarrow> date (number x) = x"
    and number_succ: "ok x \<Longrightarrow> number (succ x) = number x + 1"
    and ok_succ: "ok x \<Longrightarrow> ok (succ x)"
begin

lemma ok_funpow: "ok x \<Longrightarrow> ok ((succ ^^ n) x)"
  by (induction n) (auto intro: ok_succ)

lemma number_funpow: "ok x \<Longrightarrow> number ((succ ^^ n) x) = number x + int n"
  by (induction n) (auto simp: number_succ ok_funpow)

lemma date_add: "ok x \<Longrightarrow> date (number x + int n) = (succ ^^ n) x"
  using date_number [OF ok_funpow, of x n] by (simp add: number_funpow)

lemma number_inj: "ok x \<Longrightarrow> ok y \<Longrightarrow> number x = number y \<Longrightarrow> x = y"
  by (metis date_number)

end

definition ymd_number :: "int \<times> int \<times> int \<Rightarrow> int" where
  "ymd_number = (\<lambda>(y, m, d). getJulianDayNumber y m d)"

definition ymd_of_number :: "int \<Rightarrow> int \<times> int \<times> int" where
  "ymd_of_number j = (let x = getYearMonthDay j in (ymd_year x, ymd_month x, ymd_day x))"

definition ymd_ok :: "int \<times> int \<times> int \<Rightarrow> bool" where
  "ymd_ok = (\<lambda>(y, m, d). valid_ymd y m d)"

interpretation gregorian: day_numbering ymd_number ymd_of_number ymd_ok next_day
proof
  fix x :: "int \<times> int \<times> int"
  obtain y m d where x: "x = (y, m, d)" by (cases x)
  assume "ymd_ok x"
  then have v: "valid_ymd y m d" by (simp add: x ymd_ok_def)
  show "ymd_of_number (ymd_number x) = x"
    using getYearMonthDay_getJulianDayNumber [OF v] by (simp add: x ymd_number_def ymd_of_number_def)
  show "ymd_number (next_day x) = ymd_number x + 1"
    using getJulianDayNumber_next_day [OF v] by (simp only: x ymd_number_def case_prod_conv)
  show "ymd_ok (next_day x)"
    using valid_next_day [OF v] by (simp only: x ymd_ok_def case_prod_conv)
qed

lemma ymd_of_number_range:
  assumes "- 31738 \<le> j"
  shows "ymd_ok (ymd_of_number j) \<and> ymd_number (ymd_of_number j) = j"
proof -
  obtain y m d where v: "valid_ymd y m d" "getJulianDayNumber y m d = j"
    using julian_day_exists [OF assms] by blast
  then have "ymd_of_number j = (y, m, d)"
    using gregorian.date_number [of "(y, m, d)"] by (simp add: ymd_number_def ymd_ok_def)
  with v show ?thesis by (simp add: ymd_number_def ymd_ok_def)
qed

lemma ymd_of_number_succ:
  assumes "- 31738 \<le> j"
  shows "ymd_of_number (j + 1) = next_day (ymd_of_number j)"
  using ymd_of_number_range [OF assms] gregorian.date_add [of "ymd_of_number j" 1] by simp

section \<open>Properties\<close>





end
