(* ===== verification/Timestamp.thy ===== *)
theory Timestamp
  imports Complex_Main Date
begin

text \<open>
  Points in time (\<^verbatim>\<open>src/base/Timestamp.h\<close>, \<^verbatim>\<open>src/base/Timestamp.cc\<close>): a count of microseconds since the
  epoch. Seconds of type \<^verbatim>\<open>double\<close> are rationals; the rounding of a product to a
  representable \<^verbatim>\<open>double\<close> is the parameter \<open>fl\<close> of the definitions that use it. \<^verbatim>\<open>gmtime_r\<close> is
  modelled by the calendar of theory \<open>Date\<close>. \<open>Timestamp\<close> is instantiated as a linear order, with the
  order of the class's \<^verbatim>\<open>operator<\<close>, for the timer set.
\<close>

section \<open>The class\<close>

datatype Timestamp = Timestamp (microSecondsSinceEpoch: int)

definition kMicroSecondsPerSecond :: int where
  "kMicroSecondsPerSecond = 1000 * 1000"

definition Timestamp_invalid :: Timestamp where
  "Timestamp_invalid = Timestamp 0"

definition Timestamp_valid :: "Timestamp \<Rightarrow> bool" where
  "Timestamp_valid t \<longleftrightarrow> microSecondsSinceEpoch t \<noteq> 0"

definition Timestamp_swap :: "Timestamp \<Rightarrow> Timestamp \<Rightarrow> Timestamp \<times> Timestamp" where
  "Timestamp_swap a b = (b, a)"

definition secondsSinceEpoch :: "Timestamp \<Rightarrow> int" where
  "secondsSinceEpoch t = microSecondsSinceEpoch t sdiv kMicroSecondsPerSecond"

definition Timestamp_lt :: "Timestamp \<Rightarrow> Timestamp \<Rightarrow> bool" where
  "Timestamp_lt lhs rhs \<longleftrightarrow> microSecondsSinceEpoch lhs < microSecondsSinceEpoch rhs"

text \<open>The body of \<^verbatim>\<open>operator==\<close> compares with \<^verbatim>\<open><\<close>.\<close>

definition Timestamp_eqeq :: "Timestamp \<Rightarrow> Timestamp \<Rightarrow> bool" where
  "Timestamp_eqeq lhs rhs \<longleftrightarrow> microSecondsSinceEpoch lhs < microSecondsSinceEpoch rhs"

text \<open>\<^verbatim>\<open>gettimeofday\<close> delivers seconds and microseconds.\<close>

definition Timestamp_now :: "int \<times> int \<Rightarrow> Timestamp" where
  "Timestamp_now = (\<lambda>(tv_sec, tv_usec). Timestamp (tv_sec * kMicroSecondsPerSecond + tv_usec))"

text \<open>Conversion of a \<^verbatim>\<open>double\<close> to an integer truncates.\<close>

definition rat_trunc :: "rat \<Rightarrow> int" where
  "rat_trunc x = (if 0 \<le> x then floor x else ceiling x)"

definition timeDifference :: "(rat \<Rightarrow> rat) \<Rightarrow> Timestamp \<Rightarrow> Timestamp \<Rightarrow> rat" where
  "timeDifference fl high low =
     (let diff = microSecondsSinceEpoch high - microSecondsSinceEpoch low
      in fl (fl (of_int diff) / of_int kMicroSecondsPerSecond))"

definition addTime :: "(rat \<Rightarrow> rat) \<Rightarrow> Timestamp \<Rightarrow> rat \<Rightarrow> Timestamp" where
  "addTime fl timestamp seconds =
     (let delta = rat_trunc (fl (seconds * of_int kMicroSecondsPerSecond))
      in Timestamp (microSecondsSinceEpoch timestamp + delta))"

definition gmtime :: "int \<Rightarrow> tm" where
  "gmtime t =
     (let days = t div 86400; s = t mod 86400;
          (y, m, d) = ymd_of_number (kJulianDayOf1970_01_01 + days)
      in \<lparr>tm_year = y - 1900, tm_mon = m - 1, tm_mday = d,
          tm_hour = s div 3600, tm_min = s div 60 mod 60, tm_sec = s mod 60\<rparr>)"

definition Timestamp_toString :: "Timestamp \<Rightarrow> string" where
  "Timestamp_toString t =
     (let seconds = microSecondsSinceEpoch t sdiv kMicroSecondsPerSecond;
          microseconds = microSecondsSinceEpoch t smod kMicroSecondsPerSecond
      in snprintf_buf 31 (show_int seconds @ ''.'' @ printf_0d 6 microseconds))"

definition toFormattedString :: "Timestamp \<Rightarrow> string" where
  "toFormattedString t =
     (let seconds = microSecondsSinceEpoch t sdiv kMicroSecondsPerSecond;
          microseconds = microSecondsSinceEpoch t smod kMicroSecondsPerSecond;
          tm_time = gmtime seconds
      in snprintf_buf 32
           (printf_d 4 (tm_year tm_time + 1900) @ printf_0d 2 (tm_mon tm_time + 1) @ printf_0d 2 (tm_mday tm_time)
            @ '' '' @ printf_0d 2 (tm_hour tm_time) @ '':'' @ printf_0d 2 (tm_min tm_time) @ '':''
            @ printf_0d 2 (tm_sec tm_time) @ ''.'' @ printf_0d 6 microseconds))"

section \<open>Order\<close>

instantiation Timestamp :: linorder
begin

definition less_eq_Timestamp :: "Timestamp \<Rightarrow> Timestamp \<Rightarrow> bool" where
  "less_eq_Timestamp a b \<longleftrightarrow> microSecondsSinceEpoch a \<le> microSecondsSinceEpoch b"

definition less_Timestamp :: "Timestamp \<Rightarrow> Timestamp \<Rightarrow> bool" where
  "less_Timestamp a b \<longleftrightarrow> microSecondsSinceEpoch a < microSecondsSinceEpoch b"

instance
  by standard (auto simp: less_eq_Timestamp_def less_Timestamp_def intro: Timestamp.expand)

end

lemma Timestamp_lt_less: "Timestamp_lt a b \<longleftrightarrow> a < b"
  by (simp add: Timestamp_lt_def less_Timestamp_def)

section \<open>Reading the formatted text\<close>

text \<open>The inverse of \<open>toFormattedString\<close>, reading the fields at their columns.\<close>

definition field :: "nat \<Rightarrow> nat \<Rightarrow> string \<Rightarrow> int" where
  "field i n s = int (parse_nat (take n (drop i s)))"

definition parse_formatted :: "string \<Rightarrow> int" where
  "parse_formatted s =
     ((getJulianDayNumber (field 0 4 s) (field 4 2 s) (field 6 2 s) - kJulianDayOf1970_01_01) * 86400
      + field 9 2 s * 3600 + field 12 2 s * 60 + field 15 2 s) * kMicroSecondsPerSecond + field 18 6 s"

lemma length_printf_0d:
  "0 \<le> x \<Longrightarrow> x < 10 ^ n \<Longrightarrow> 0 < n \<Longrightarrow> length (printf_0d n x) = n"
  using length_show_nat_le [of "nat x" n] by (simp add: printf_0d_def nat_less_iff)

lemma parse_printf_0d: "0 \<le> x \<Longrightarrow> int (parse_nat (printf_0d n x)) = x"
  by (simp add: printf_0d_def)

lemma printf_d_4:
  assumes "1000 \<le> x" "x < 10000"
  shows "length (printf_d 4 x) = 4 \<and> int (parse_nat (printf_d 4 x)) = x"
proof -
  have "length (show_nat (nat x)) = 4"
    using length_show_nat_le [of "nat x" 4] length_show_nat_ge [of 3 "nat x"] assms
    by (simp add: nat_less_iff le_nat_iff)
  with assms show ?thesis by (simp add: printf_d_def show_int_def pad_left_def)
qed

text \<open>The dates between year 1000 and year 9999 are those between two day numbers.\<close>

lemma year_start_mono: "Y \<le> Z \<Longrightarrow> year_start Y + 365 * (Z - Y) \<le> year_start Z"
proof (induction Z rule: int_ge_induct)
  case (step Z)
  have "year_start Z + 365 \<le> year_start (Z + 1)"
    using year_start_step [of Z] by simp
  with step show ?case by simp
qed simp

lemma kJulianDayOf1970_01_01_eq: "kJulianDayOf1970_01_01 = 2440588"
  by (simp add: kJulianDayOf1970_01_01_def getJulianDayNumber_march march_year_def march_month_def day_of_year_def)

lemma year_range:
  assumes v: "valid_ymd y m d" and lo: "kJulianDayOf1970_01_01 \<le> getJulianDayNumber y m d"
    and hi: "getJulianDayNumber y m d < 5373485"
  shows "1000 \<le> y \<and> y < 10000"
proof -
  have m: "-4799 \<le> y" "1 \<le> m" "m \<le> 12" using v by (auto simp: valid_ymd_def)
  have D: "0 \<le> day_of_year m d" "day_of_year m d \<le> 365" using day_of_year_bounds [OF v] by auto
  have J: "getJulianDayNumber y m d = day_of_year m d + year_start (march_year y m) - 32044"
    by (rule getJulianDayNumber_year_start [OF m])
  note k = kJulianDayOf1970_01_01_eq
  have "1000 \<le> y"
  proof (rule ccontr)
    assume "\<not> 1000 \<le> y"
    then have "year_start (march_year y m) \<le> year_start 5800"
      using year_start_mono [of "march_year y m" 5800] by (auto simp: march_year_def split: if_splits)
    then show False using lo J D k by (simp add: year_start_def)
  qed
  moreover have "y < 10000"
  proof (rule ccontr)
    assume "\<not> y < 10000"
    then consider "m \<le> 2" "14799 \<le> march_year y m" | "14800 \<le> march_year y m"
      by (cases "m \<le> 2") (auto simp: march_year_def)
    then show False
    proof cases
      case 1
      have "306 \<le> day_of_year m d"
        using 1 m v by (auto simp: day_of_year_def march_month_def valid_ymd_def)
      moreover have "year_start 14799 \<le> year_start (march_year y m)"
        using year_start_mono [OF 1(2)] 1(2) by simp
      ultimately show False using J hi by (simp add: year_start_def)
    next
      case 2
      have "year_start 14800 \<le> year_start (march_year y m)"
        using year_start_mono [OF 2] 2 by simp
      then show False using J hi D by (simp add: year_start_def)
    qed
  qed
  ultimately show ?thesis ..
qed

lemma gmtime_date:
  assumes "0 \<le> t" "t < 253402300800"
  shows "valid_ymd (tm_year (gmtime t) + 1900) (tm_mon (gmtime t) + 1) (tm_mday (gmtime t)) \<and>
     getJulianDayNumber (tm_year (gmtime t) + 1900) (tm_mon (gmtime t) + 1) (tm_mday (gmtime t))
       = kJulianDayOf1970_01_01 + t div 86400 \<and>
     1000 \<le> tm_year (gmtime t) + 1900 \<and> tm_year (gmtime t) + 1900 < 10000"
proof -
  note k = kJulianDayOf1970_01_01_eq
  have t: "0 \<le> t div 86400" "t div 86400 < 2932897"
    using assms by (auto simp: pos_imp_zdiv_nonneg_iff div_less_iff_less_mult)
  obtain y m d where e: "ymd_of_number (kJulianDayOf1970_01_01 + t div 86400) = (y, m, d)"
    by (cases "ymd_of_number (kJulianDayOf1970_01_01 + t div 86400)")
  with ymd_of_number_range [of "kJulianDayOf1970_01_01 + t div 86400"] t(1)
  have v: "valid_ymd y m d" "getJulianDayNumber y m d = kJulianDayOf1970_01_01 + t div 86400"
    by (simp_all add: k ymd_ok_def ymd_number_def)
  moreover have "1000 \<le> y \<and> y < 10000" by (rule year_range [OF v(1)]) (use v t k in auto)
  ultimately show ?thesis by (simp add: gmtime_def e Let_def)
qed

lemma gmtime_clock:
  "0 \<le> tm_hour (gmtime t) \<and> tm_hour (gmtime t) < 24 \<and> 0 \<le> tm_min (gmtime t) \<and> tm_min (gmtime t) < 60 \<and>
   0 \<le> tm_sec (gmtime t) \<and> tm_sec (gmtime t) < 60 \<and>
   tm_hour (gmtime t) * 3600 + tm_min (gmtime t) * 60 + tm_sec (gmtime t) = t mod 86400"
proof -
  have "tm_hour (gmtime t) = t mod 86400 div 3600" "tm_min (gmtime t) = t mod 86400 div 60 mod 60"
    "tm_sec (gmtime t) = t mod 86400 mod 60"
    by (simp_all add: gmtime_def Let_def split: prod.split)
  moreover have "0 \<le> t mod 86400 div 3600" "t mod 86400 div 3600 < 24"
    by (simp_all only: pos_imp_zdiv_nonneg_iff zero_less_numeral div_less_iff_less_mult pos_mod_sign)
  moreover have "0 \<le> t mod 86400 div 60 mod 60" "t mod 86400 div 60 mod 60 < 60"
      "0 \<le> t mod 86400 mod 60" "t mod 86400 mod 60 < 60"
    by (rule pos_mod_sign pos_mod_bound, simp)+
  moreover have "x div 3600 * 3600 + x div 60 mod 60 * 60 + x mod 60 = x" for x :: int
  proof -
    have "q * 60 + r = z \<Longrightarrow> z * 60 + w = x \<Longrightarrow> q * 3600 + r * 60 + w = x" for q r z w by simp
    from this [OF div_mult_mod_eq div_mult_mod_eq] show ?thesis using zdiv_zmult2_eq [of 60 x 60] by simp
  qed
  ultimately show ?thesis by (simp only: simp_thms)
qed

text \<open>The fields of a text made of strings of known lengths.\<close>

lemma field_layout:
  assumes "length a = 4" "length b = 2" "length c = 2" "length h = 2" "length mi = 2" "length s = 2" "length u = 6"
  shows "let x = snprintf_buf 32 (a @ b @ c @ '' '' @ h @ '':'' @ mi @ '':'' @ s @ ''.'' @ u)
     in field 0 4 x = int (parse_nat a) \<and> field 4 2 x = int (parse_nat b) \<and> field 6 2 x = int (parse_nat c) \<and>
        field 9 2 x = int (parse_nat h) \<and> field 12 2 x = int (parse_nat mi) \<and> field 15 2 x = int (parse_nat s) \<and>
        field 18 6 x = int (parse_nat u)"
  using assms by (simp add: field_def snprintf_buf_def)

section \<open>Properties\<close>

text \<open>C18: \<^verbatim>\<open>toFormattedString\<close> loses nothing: for every time of the years 1970 to 9999 the text it makes,
  read field by field, is the time again, to the microsecond.\<close>

theorem formatted_roundtrip:
  assumes "0 \<le> us" "us < 253402300800 * 1000000"
  shows "parse_formatted (toFormattedString (Timestamp us)) = us"
proof -
  define t where "t = us div 1000000"
  define u where "u = us mod 1000000"
  have t: "0 \<le> t" "t < 253402300800" using assms by (auto simp: t_def pos_imp_zdiv_nonneg_iff div_less_iff_less_mult)
  have u: "0 \<le> u" "u < 10 ^ 6" "us = t * 1000000 + u" by (auto simp: u_def t_def)
  have sd: "us sdiv kMicroSecondsPerSecond = t" "us smod kMicroSecondsPerSecond = u"
    using assms by (simp_all add: kMicroSecondsPerSecond_def t_def u_def sdiv_nonneg smod_nonneg)
  define y m d where "y = tm_year (gmtime t) + 1900" and "m = tm_mon (gmtime t) + 1" and "d = tm_mday (gmtime t)"
  note g = gmtime_date [OF t, folded y_def m_def d_def]
  note c = gmtime_clock [of t]
  have md: "1 \<le> m" "m \<le> 12" "1 \<le> d" "d \<le> 31"
    using g by (auto simp: valid_ymd_def days_in_month_def split: if_splits)
  have txt_eq: "toFormattedString (Timestamp us) = snprintf_buf 32
      (printf_d 4 y @ printf_0d 2 m @ printf_0d 2 d @ '' '' @ printf_0d 2 (tm_hour (gmtime t)) @ '':''
       @ printf_0d 2 (tm_min (gmtime t)) @ '':'' @ printf_0d 2 (tm_sec (gmtime t)) @ ''.'' @ printf_0d 6 u)"
    by (simp add: toFormattedString_def sd y_def m_def d_def Let_def)
  have y4: "length (printf_d 4 y) = 4" "int (parse_nat (printf_d 4 y)) = y" using printf_d_4 [of y] g by auto
  define x where "x = toFormattedString (Timestamp us)"
  have "length (printf_0d 2 m) = 2" "length (printf_0d 2 d) = 2" "length (printf_0d 2 (tm_hour (gmtime t))) = 2"
    "length (printf_0d 2 (tm_min (gmtime t))) = 2" "length (printf_0d 2 (tm_sec (gmtime t))) = 2"
    "length (printf_0d 6 u) = 6"
    using md c u by (auto intro!: length_printf_0d)
  note lay = field_layout [OF y4(1) this, folded txt_eq, folded x_def]
  have fields: "field 0 4 x = y" "field 4 2 x = m" "field 6 2 x = d" "field 9 2 x = tm_hour (gmtime t)"
    "field 12 2 x = tm_min (gmtime t)" "field 15 2 x = tm_sec (gmtime t)" "field 18 6 x = u"
    using lay md c u y4 by (simp_all add: parse_printf_0d Let_def)
  have "parse_formatted (toFormattedString (Timestamp us)) =
     ((getJulianDayNumber y m d - kJulianDayOf1970_01_01) * 86400 + tm_hour (gmtime t) * 3600
       + tm_min (gmtime t) * 60 + tm_sec (gmtime t)) * kMicroSecondsPerSecond + u"
    unfolding parse_formatted_def x_def [symmetric] fields ..
  also have "getJulianDayNumber y m d - kJulianDayOf1970_01_01 = t div 86400" using g by simp
  also have "t div 86400 * 86400 + tm_hour (gmtime t) * 3600 + tm_min (gmtime t) * 60 + tm_sec (gmtime t) = t"
    using c by (simp add: add.assoc)
  finally show ?thesis using u by (simp add: kMicroSecondsPerSecond_def)
qed

theorem formatted_roundtrip_witness:
  "parse_formatted (toFormattedString (Timestamp 1700000000123456)) = 1700000000123456"
  using formatted_roundtrip [of 1700000000123456] by simp

text \<open>\<^verbatim>\<open>operator==\<close> on \<^verbatim>\<open>Timestamp\<close> is \<^verbatim>\<open>operator<\<close>: it is false for equal times, and two
  different times are reported equal in exactly one order of the operands.\<close>

theorem timestamp_eqeq_is_less:
  "Timestamp_eqeq a b = Timestamp_lt a b \<and> \<not> Timestamp_eqeq a a \<and>
   (a = b \<longleftrightarrow> \<not> Timestamp_eqeq a b \<and> \<not> Timestamp_eqeq b a)"
  by (auto simp: Timestamp_eqeq_def Timestamp_lt_def intro: Timestamp.expand)

text \<open>Where the conversion to microseconds is exact, adding a whole number of microseconds
  moves the time by that amount and \<^verbatim>\<open>timeDifference\<close> measures it; a time moved by a
  positive amount is later in the order of the class.\<close>

lemma addTime_exact:
  assumes fl: "\<And>k. \<bar>k\<bar> \<le> 2 ^ 53 \<Longrightarrow> fl (of_int k) = (of_int k :: rat)" and k: "\<bar>k\<bar> \<le> 2 ^ 53"
    and s: "seconds * 1000000 = of_int k"
  shows "microSecondsSinceEpoch (addTime fl t seconds) = microSecondsSinceEpoch t + k \<and>
     (Timestamp_lt t (addTime fl t seconds) \<longleftrightarrow> 0 < k) \<and>
     timeDifference fl (addTime fl t seconds) t = fl seconds"
proof -
  have sec: "of_int k / 1000000 = seconds" using s by (simp add: field_simps)
  have "rat_trunc (of_int k) = k" by (simp add: rat_trunc_def)
  then have a: "addTime fl t seconds = Timestamp (microSecondsSinceEpoch t + k)"
    using fl [OF k] s by (simp add: addTime_def kMicroSecondsPerSecond_def)
  have "timeDifference fl (addTime fl t seconds) t = fl (of_int k / 1000000)"
    using fl [OF k] by (simp add: a timeDifference_def kMicroSecondsPerSecond_def)
  then show ?thesis by (simp only: sec) (simp add: a Timestamp_lt_def)
qed

end
