(* ===== verification/Channel.thy ===== *)
theory Channel
  imports Timestamp
begin

unbundle bit_operations_syntax

text \<open>
  \<^verbatim>\<open>Channel\<close> (\<^verbatim>\<open>src/net/Channel.h\<close>, \<^verbatim>\<open>src/net/Channel.cc\<close>): the events a descriptor is watched for, the events the
  kernel reported, and the dispatch of the four callbacks. Event masks are machine words with the
  values of \<^verbatim>\<open>poll.h\<close>. A callback is a function on the state of the program, which may fault; an
  unset callback is \<open>None\<close>. The members that call back into the loop are in theory
  \<open>PollPoller\<close>.
\<close>

section \<open>Event masks\<close>

type_synonym events = "32 word"

definition POLLIN :: events where "POLLIN = 1"
definition POLLPRI :: events where "POLLPRI = 2"
definition POLLOUT :: events where "POLLOUT = 4"
definition POLLERR :: events where "POLLERR = 8"
definition POLLHUP :: events where "POLLHUP = 16"
definition POLLNVAL :: events where "POLLNVAL = 32"
definition POLLRDHUP :: events where "POLLRDHUP = 0x2000"

definition kNoneEvent :: events where
  "kNoneEvent = 0"

definition kReadEvent :: events where
  "kReadEvent = POLLIN OR POLLPRI"

definition kWriteEvent :: events where
  "kWriteEvent = POLLOUT"

definition has_ev :: "events \<Rightarrow> events \<Rightarrow> bool" where
  "has_ev r m \<longleftrightarrow> r AND m \<noteq> 0"

section \<open>The object\<close>

text \<open>\<open>ch_tie\<close> is \<^verbatim>\<open>tie_\<close>: the owner object the channel is tied to; \<^verbatim>\<open>tied_\<close> tells whether it was
  set.\<close>

record Channel =
  ch_loop :: nat
  ch_fd :: int
  ch_events :: events
  ch_revents :: events
  ch_index :: int
  ch_logHup :: bool
  ch_tie :: "nat option"
  ch_tied :: bool
  ch_eventHandling :: bool

definition Channel_new :: "nat \<Rightarrow> int \<Rightarrow> Channel" where
  "Channel_new loop fd =
     \<lparr>ch_loop = loop, ch_fd = fd, ch_events = 0, ch_revents = 0, ch_index = -1, ch_logHup = True,
      ch_tie = None, ch_tied = False, ch_eventHandling = False\<rparr>"

definition Channel_destroy :: "Channel \<Rightarrow> unit res" where
  "Channel_destroy c = assertR (\<not> ch_eventHandling c) ''!eventHandling_''"

definition Channel_tie :: "nat \<Rightarrow> Channel \<Rightarrow> Channel" where
  "Channel_tie obj c = c\<lparr>ch_tie := Some obj, ch_tied := True\<rparr>"

definition isNoneEvent :: "Channel \<Rightarrow> bool" where
  "isNoneEvent c \<longleftrightarrow> ch_events c = kNoneEvent"

definition isWriting :: "Channel \<Rightarrow> bool" where
  "isWriting c \<longleftrightarrow> has_ev (ch_events c) kWriteEvent"

text \<open>The change of the mask in \<^verbatim>\<open>enableReading()\<close> and its siblings, before \<^verbatim>\<open>update()\<close>.\<close>

datatype mask_op = EnableReading | DisableReading | EnableWriting | DisableWriting | DisableAll

fun mask_of :: "mask_op \<Rightarrow> events \<Rightarrow> events" where
  "mask_of EnableReading e = e OR kReadEvent"
| "mask_of DisableReading e = e AND NOT kReadEvent"
| "mask_of EnableWriting e = e OR kWriteEvent"
| "mask_of DisableWriting e = e AND NOT kWriteEvent"
| "mask_of DisableAll e = kNoneEvent"

definition set_revents :: "events \<Rightarrow> Channel \<Rightarrow> Channel" where
  "set_revents r c = c\<lparr>ch_revents := r\<rparr>"

definition set_index :: "int \<Rightarrow> Channel \<Rightarrow> Channel" where
  "set_index i c = c\<lparr>ch_index := i\<rparr>"

definition doNotLogHup :: "Channel \<Rightarrow> Channel" where
  "doNotLogHup c = c\<lparr>ch_logHup := False\<rparr>"

definition reventsToString :: "Channel \<Rightarrow> string" where
  "reventsToString c =
     (let r = ch_revents c in
      show_int (ch_fd c) @ '' : '' @ show_int (sint r) @ '' : ''
      @ (if has_ev r POLLIN then ''IN '' else '''')
      @ (if has_ev r POLLPRI then ''PRI '' else '''')
      @ (if has_ev r POLLHUP then ''HUP '' else '''')
      @ (if has_ev r POLLRDHUP then ''RDHUP'' else '''')
      @ (if has_ev r POLLERR then ''ERR '' else '''')
      @ (if has_ev r POLLNVAL then ''NVAL '' else ''''))"

section \<open>Dispatch\<close>

record 'w callbacks =
  cb_read :: "(Timestamp \<Rightarrow> 'w \<Rightarrow> 'w res) option"
  cb_write :: "('w \<Rightarrow> 'w res) option"
  cb_close :: "('w \<Rightarrow> 'w res) option"
  cb_error :: "('w \<Rightarrow> 'w res) option"

definition call_cb :: "('w \<Rightarrow> 'w res) option \<Rightarrow> 'w \<Rightarrow> 'w res" where
  "call_cb f w = (case f of None \<Rightarrow> Inr w | Some g \<Rightarrow> g w)"

text \<open>The state of the program is seen through \<open>getc\<close> and \<open>putc\<close>, which read and
  write this channel; \<^verbatim>\<open>revents_\<close> is read anew at every test.\<close>

definition handleEventWithGuard ::
    "('w \<Rightarrow> Channel) \<Rightarrow> (Channel \<Rightarrow> 'w \<Rightarrow> 'w) \<Rightarrow> 'w callbacks \<Rightarrow> Timestamp \<Rightarrow> 'w \<Rightarrow> 'w res" where
  "handleEventWithGuard getc putc cbs receiveTime w0 =
     (let rev = (\<lambda>w. ch_revents (getc w)); w = putc ((getc w0)\<lparr>ch_eventHandling := True\<rparr>) w0 in
      bindR (if has_ev (rev w) POLLHUP \<and> \<not> has_ev (rev w) POLLIN then call_cb (cb_close cbs) w else Inr w) (\<lambda>w.
      bindR (if has_ev (rev w) (POLLERR OR POLLNVAL) then call_cb (cb_error cbs) w else Inr w) (\<lambda>w.
      bindR (if has_ev (rev w) (POLLIN OR POLLPRI OR POLLRDHUP)
             then call_cb (map_option (\<lambda>f. f receiveTime) (cb_read cbs)) w else Inr w) (\<lambda>w.
      bindR (if has_ev (rev w) POLLOUT then call_cb (cb_write cbs) w else Inr w) (\<lambda>w.
      Inr (putc ((getc w)\<lparr>ch_eventHandling := False\<rparr>) w))))))"

text \<open>\<open>alive\<close> tells whether the owner still exists: \<^verbatim>\<open>tie_.lock()\<close> yields a pointer exactly then.\<close>

definition handleEvent ::
    "('w \<Rightarrow> Channel) \<Rightarrow> (Channel \<Rightarrow> 'w \<Rightarrow> 'w) \<Rightarrow> (nat \<Rightarrow> 'w \<Rightarrow> bool) \<Rightarrow> 'w callbacks \<Rightarrow> Timestamp \<Rightarrow> 'w \<Rightarrow> 'w res" where
  "handleEvent getc putc alive cbs receiveTime w =
     (if ch_tied (getc w)
      then (case ch_tie (getc w) of
              Some obj \<Rightarrow> if alive obj w then handleEventWithGuard getc putc cbs receiveTime w else Inr w
            | None \<Rightarrow> Inr w)
      else handleEventWithGuard getc putc cbs receiveTime w)"

section \<open>Masks: lemmas\<close>

lemmas poll_bits = POLLIN_def POLLPRI_def POLLOUT_def POLLERR_def POLLHUP_def POLLNVAL_def POLLRDHUP_def

lemma has_ev_bit: "has_ev r (2 ^ n) \<longleftrightarrow> bit r n"
  by (simp add: has_ev_def and_exp_eq_0_iff_not_bit)

lemma has_ev_OR: "has_ev r (a OR b) \<longleftrightarrow> has_ev r a \<or> has_ev r b"
  by (simp add: has_ev_def bit.conj_disj_distrib or_eq_0_iff)

lemma has_ev_bits:
  "has_ev r POLLIN \<longleftrightarrow> bit r 0" "has_ev r POLLPRI \<longleftrightarrow> bit r 1" "has_ev r POLLOUT \<longleftrightarrow> bit r 2"
  "has_ev r POLLERR \<longleftrightarrow> bit r 3" "has_ev r POLLHUP \<longleftrightarrow> bit r 4" "has_ev r POLLNVAL \<longleftrightarrow> bit r 5"
  "has_ev r POLLRDHUP \<longleftrightarrow> bit r 13"
  using has_ev_bit [of r 0] has_ev_bit [of r 1] has_ev_bit [of r 2] has_ev_bit [of r 3] has_ev_bit [of r 4]
    has_ev_bit [of r 5] has_ev_bit [of r 13]
  by (simp_all add: poll_bits)

lemma has_ev_kEvents:
  "has_ev r kReadEvent \<longleftrightarrow> bit r 0 \<or> bit r 1" "has_ev r kWriteEvent \<longleftrightarrow> bit r 2" "\<not> has_ev r kNoneEvent"
  by (simp_all only: kReadEvent_def kWriteEvent_def has_ev_OR has_ev_bits) (simp add: has_ev_def kNoneEvent_def)

lemma bit_kEvents:
  "bit kReadEvent n \<longleftrightarrow> n = 0 \<or> n = 1" "bit kWriteEvent n \<longleftrightarrow> n = 2"
proof -
  have "bit (1 :: events) n \<longleftrightarrow> n = 0" by (simp add: bit_1_iff)
  moreover have "bit (2 ^ k :: events) n \<longleftrightarrow> n = k" if "k < 32" for k
    using that by (auto simp: bit_exp_iff)
  from this [of 1] this [of 2] have "bit (2 :: events) n \<longleftrightarrow> n = 1" "bit (4 :: events) n \<longleftrightarrow> n = 2" by simp_all
  ultimately show "bit kReadEvent n \<longleftrightarrow> n = 0 \<or> n = 1" "bit kWriteEvent n \<longleftrightarrow> n = 2"
    unfolding kReadEvent_def kWriteEvent_def POLLIN_def POLLPRI_def POLLOUT_def bit_or_iff by blast+
qed

lemma has_ev_mask_of [simp]:
  "has_ev (mask_of EnableReading e) kReadEvent"
  "\<not> has_ev (mask_of DisableReading e) kReadEvent"
  "has_ev (mask_of EnableWriting e) kWriteEvent"
  "\<not> has_ev (mask_of DisableWriting e) kWriteEvent"
  "has_ev (mask_of EnableReading e) kWriteEvent = has_ev e kWriteEvent"
  "has_ev (mask_of DisableReading e) kWriteEvent = has_ev e kWriteEvent"
  "has_ev (mask_of EnableWriting e) kReadEvent = has_ev e kReadEvent"
  "has_ev (mask_of DisableWriting e) kReadEvent = has_ev e kReadEvent"
  "\<not> has_ev (mask_of DisableAll e) m"
  by (auto simp: has_ev_kEvents bit_or_iff bit_and_iff bit_not_iff bit_kEvents)
    (simp add: has_ev_def kNoneEvent_def)

lemma mask_of_enable_nonzero [simp]:
  "mask_of EnableReading e \<noteq> kNoneEvent" "mask_of EnableWriting e \<noteq> kNoneEvent"
proof -
  show "mask_of EnableReading e \<noteq> kNoneEvent" using has_ev_mask_of(1) [of e] by (metis has_ev_mask_of(9) mask_of.simps(5))
  show "mask_of EnableWriting e \<noteq> kNoneEvent" using has_ev_mask_of(3) [of e] by (metis has_ev_mask_of(9) mask_of.simps(5))
qed

section \<open>Order of the callbacks\<close>

text \<open>The callbacks that the reported events ask for, in the order of the tests.\<close>

definition dispatched :: "'w callbacks \<Rightarrow> Timestamp \<Rightarrow> events \<Rightarrow> ('w \<Rightarrow> 'w res) list" where
  "dispatched cbs t r =
     (if bit r 4 \<and> \<not> bit r 0 then [call_cb (cb_close cbs)] else [])
     @ (if bit r 3 \<or> bit r 5 then [call_cb (cb_error cbs)] else [])
     @ (if bit r 0 \<or> bit r 1 \<or> bit r 13 then [call_cb (map_option (\<lambda>f. f t) (cb_read cbs))] else [])
     @ (if bit r 2 then [call_cb (cb_write cbs)] else [])"

text \<open>A callback keeps the reported events of the channel while it runs: only the poller sets
  them, between two rounds of dispatch.\<close>

definition keeps_revents :: "('w \<Rightarrow> Channel) \<Rightarrow> ('w \<Rightarrow> 'w res) \<Rightarrow> bool" where
  "keeps_revents getc f \<longleftrightarrow> (\<forall>w w'. f w = Inr w' \<longrightarrow> ch_revents (getc w') = ch_revents (getc w))"

lemma handleEventWithGuard_dispatched:
  assumes getput: "\<And>c w. getc (putc c w) = c"
    and keep: "\<forall>f \<in> set (dispatched cbs t (ch_revents (getc w))). keeps_revents getc f"
  shows "handleEventWithGuard getc putc cbs t w =
     bindR (foldR (\<lambda>f. f) (dispatched cbs t (ch_revents (getc w))) (putc ((getc w)\<lparr>ch_eventHandling := True\<rparr>) w))
       (\<lambda>w. Inr (putc ((getc w)\<lparr>ch_eventHandling := False\<rparr>) w))"
proof -
  define r where "r = ch_revents (getc w)"
  have rev0: "ch_revents ((getc w)\<lparr>ch_eventHandling := True\<rparr>) = r" by (simp add: r_def)
  have skip: "bindR (foldR (\<lambda>f. f) (if c then [f] else []) v) h = bindR (if c then f v else Inr v) h" for c f v and h :: "'a \<Rightarrow> 'a res"
    by (cases "f v") auto
  have run: "bindR (if P r then f v else Inr v) g = bindR (if P r then f v else Inr v) h"
    if "P r \<longrightarrow> keeps_revents getc f" "ch_revents (getc v) = r" "\<And>u. ch_revents (getc u) = r \<Longrightarrow> g u = h u"
    for P f v and g h :: "'a \<Rightarrow> 'a res"
    using that by (cases "f v") (auto simp: keeps_revents_def)
  have keeps: "bit r 4 \<and> \<not> bit r 0 \<longrightarrow> keeps_revents getc (call_cb (cb_close cbs))"
    "bit r 3 \<or> bit r 5 \<longrightarrow> keeps_revents getc (call_cb (cb_error cbs))"
    "bit r 0 \<or> bit r 1 \<or> bit r 13 \<longrightarrow> keeps_revents getc (call_cb (map_option (\<lambda>f. f t) (cb_read cbs)))"
    using keep by (auto simp: dispatched_def r_def)
  show ?thesis
    unfolding handleEventWithGuard_def Let_def dispatched_def r_def [symmetric] foldR_append bindR_assoc skip
      has_ev_OR has_ev_bits
    by (simp only: getput rev0, rule run [where P = "\<lambda>r. bit r 4 \<and> \<not> bit r 0", OF keeps(1)], simp add: getput r_def,
        simp only:, rule run [where P = "\<lambda>r. bit r 3 \<or> bit r 5", OF keeps(2)], simp,
        simp only: disj_assoc, rule run [where P = "\<lambda>r. bit r 0 \<or> bit r 1 \<or> bit r 13", OF keeps(3)], simp,
        simp only:)
qed

text \<open>What every callback keeps, a round of dispatch keeps.\<close>

definition keeps :: "('w \<Rightarrow> bool) \<Rightarrow> ('w \<Rightarrow> 'w res) \<Rightarrow> bool" where
  "keeps P f \<longleftrightarrow> (\<forall>w. P w \<longrightarrow> (\<exists>w'. f w = Inr w' \<and> P w'))"

lemma keepsI: "(\<And>w. P w \<Longrightarrow> \<exists>w'. f w = Inr w' \<and> P w') \<Longrightarrow> keeps P f"
  by (simp add: keeps_def)

lemma keeps_run: "keeps P f \<Longrightarrow> P w \<Longrightarrow> \<exists>w'. f w = Inr w' \<and> P w'"
  by (simp add: keeps_def)

lemma keeps_call_cb: "\<forall>g. f = Some g \<longrightarrow> keeps P g \<Longrightarrow> keeps P (call_cb f)"
  by (cases f) (auto simp: call_cb_def keeps_def)

lemma handleEvent_keeps:
  assumes "\<And>b. keeps P (\<lambda>w. Inr (putc ((getc w)\<lparr>ch_eventHandling := b\<rparr>) w))"
    and "\<And>g t. cb_read cbs = Some g \<Longrightarrow> keeps P (g t)"
    and "\<And>g. cb_write cbs = Some g \<or> cb_close cbs = Some g \<or> cb_error cbs = Some g \<Longrightarrow> keeps P g"
  shows "keeps P (handleEvent getc putc alive cbs t)"
proof -
  have step: "\<exists>w'. bindR (if b then call_cb f v else Inr v) h = Inr w' \<and> P w'"
    if "P v" "\<forall>g. f = Some g \<longrightarrow> keeps P g" "\<And>v. P v \<Longrightarrow> \<exists>w'. h v = Inr w' \<and> P w'" for b f v h
  proof -
    have "\<exists>v'. (if b then call_cb f v else Inr v) = Inr v' \<and> P v'"
      using keeps_run [OF keeps_call_cb [OF that(2)] that(1)] that(1) by simp
    with that(3) show ?thesis by fastforce
  qed
  have "\<exists>w'. handleEventWithGuard getc putc cbs t w = Inr w' \<and> P w'" if P: "P w" for w
    unfolding handleEventWithGuard_def Let_def
    by (intro step) (use assms P in \<open>auto simp: keeps_def\<close>)
  then show ?thesis by (auto simp: handleEvent_def keeps_def split: option.split)
qed

section \<open>Properties\<close>

text \<open>C13: \<^verbatim>\<open>handleEvent\<close> runs exactly the callbacks the reported events ask for, in the order close, error,
  read, write (close only when there is nothing to read), stops at the first that ends the
  process, marks the channel as busy while they run and as idle afterwards; and for a channel
  whose owner is gone it runs none.\<close>

theorem handleEvent_order:
  assumes "\<And>c w. getc (putc c w) = c"
    and "\<forall>f \<in> set (dispatched cbs t (ch_revents (getc w))). keeps_revents getc f"
  shows "handleEvent getc putc alive cbs t w =
     (if ch_tied (getc w) \<and> (\<forall>obj. ch_tie (getc w) = Some obj \<longrightarrow> \<not> alive obj w) then Inr w
      else bindR (foldR (\<lambda>f. f) (dispatched cbs t (ch_revents (getc w))) (putc ((getc w)\<lparr>ch_eventHandling := True\<rparr>) w))
             (\<lambda>w. Inr (putc ((getc w)\<lparr>ch_eventHandling := False\<rparr>) w)))"
  using handleEventWithGuard_dispatched [OF assms] by (auto simp: handleEvent_def split: option.split)

theorem handleEvent_order_witness:
  "handleEvent fst (\<lambda>c w. (c, snd w)) (\<lambda>_ _. True)
     \<lparr>cb_read = Some (\<lambda>t w. Inr (fst w, snd w @ ''r'')), cb_write = Some (\<lambda>w. Inr (fst w, snd w @ ''w'')),
      cb_close = Some (\<lambda>w. Inr (fst w, snd w @ ''c'')), cb_error = Some (\<lambda>w. Inr (fst w, snd w @ ''e''))\<rparr>
     (Timestamp 0) ((Channel_new 0 5)\<lparr>ch_revents := 0x1D\<rparr>, []) =
   Inr ((Channel_new 0 5)\<lparr>ch_revents := 0x1D\<rparr>, ''erw'')"
proof -
  let ?cbs = "\<lparr>cb_read = Some (\<lambda>t w. Inr (fst w, snd w @ ''r'')), cb_write = Some (\<lambda>w. Inr (fst w, snd w @ ''w'')),
      cb_close = Some (\<lambda>w. Inr (fst w, snd w @ ''c'')), cb_error = Some (\<lambda>w. Inr (fst w, snd w @ ''e''))\<rparr>
      :: (Channel \<times> string) callbacks"
  let ?w = "((Channel_new 0 5)\<lparr>ch_revents := 0x1D\<rparr>, [] :: string)"
  have b: "bit (0x1D :: events) 0" "bit (0x1D :: events) 4" "bit (0x1D :: events) 3" "bit (0x1D :: events) 2"
    by simp_all
  have d: "dispatched ?cbs (Timestamp 0) 0x1D = [\<lambda>w. Inr (fst w, snd w @ ''e''), \<lambda>w. Inr (fst w, snd w @ ''r''), \<lambda>w. Inr (fst w, snd w @ ''w'')]"
    using b by (simp add: dispatched_def call_cb_def fun_eq_iff)
  have k: "\<forall>f \<in> set (dispatched ?cbs (Timestamp 0) (ch_revents (fst ?w))). keeps_revents fst f"
    by (simp add: d keeps_revents_def)
  show ?thesis
    using handleEvent_order [of fst "\<lambda>c w. (c, snd w)" ?cbs "Timestamp 0" ?w "\<lambda>_ _. True", OF _ k]
    by (simp add: d Channel_new_def)
qed

end
