(* ===== verification/PollPoller.thy ===== *)
theory PollPoller
  imports Channel
begin

text \<open>
  The poller (\<^verbatim>\<open>src/net/Poller.h\<close>, \<^verbatim>\<open>src/net/poller/PollPoller.h\<close>, \<^verbatim>\<open>src/net/poller/PollPoller.cc\<close>), the members of
  \<^verbatim>\<open>EventLoop\<close> through which a channel reaches it, and the members of \<^verbatim>\<open>Channel\<close> that call them.
  Channels are objects on a heap, named by addresses, because the poller keeps pointers to them
  and writes their \<^verbatim>\<open>index_\<close> and \<^verbatim>\<open>revents_\<close>. \<^verbatim>\<open>poll(2)\<close> is the parameter \<open>kp\<close>. The lemmas
  show that the array of \<^verbatim>\<open>pollfd\<close>, the map and the indices stay consistent and that no assertion
  fails when a channel is registered and removed in the intended order.
\<close>

section \<open>State\<close>

record pollfd =
  pfd_fd :: int
  pfd_events :: "16 word"
  pfd_revents :: "16 word"

type_synonym chan = nat

record PollPoller =
  pollfds :: "pollfd list"
  channels :: "int \<rightharpoonup> chan"
  heap :: "chan \<Rightarrow> Channel"

record Reactor = PollPoller +
  rx_loop :: nat
  rx_threadId :: nat
  rx_tid :: nat
  rx_eventHandling :: bool
  rx_active :: "chan list"
  rx_current :: "chan option"

section \<open>PollPoller\<close>

definition heap_upd :: "chan \<Rightarrow> (Channel \<Rightarrow> Channel) \<Rightarrow> 'z PollPoller_scheme \<Rightarrow> 'z PollPoller_scheme" where
  "heap_upd c f s = s\<lparr>heap := (heap s)(c := f (heap s c))\<rparr>"

definition updateChannel :: "chan \<Rightarrow> 'z PollPoller_scheme \<Rightarrow> 'z PollPoller_scheme res" where
  "updateChannel c s =
     (let ch = heap s c in
      if ch_index ch < 0 then
        bindR (assertR (channels s (ch_fd ch) = None) ''channels_.find(fd) == end'') (\<lambda>_.
        let pfd = \<lparr>pfd_fd = ch_fd ch, pfd_events = ucast (ch_events ch), pfd_revents = 0\<rparr>;
            pfds = pollfds s @ [pfd];
            idx = size_to_int (length pfds) - 1
        in Inr (s\<lparr>pollfds := pfds, heap := (heap s)(c := set_index idx ch),
                  channels := (channels s)(pfd_fd pfd \<mapsto> c)\<rparr>))
      else
        bindR (assertR (channels s (ch_fd ch) \<noteq> None) ''channels_.find(fd) != end'') (\<lambda>_.
        bindR (assertR (channels s (ch_fd ch) = Some c) ''channels_[fd] == channel'') (\<lambda>_.
        let idx = ch_index ch in
        bindR (assertR (0 \<le> idx \<and> idx < size_to_int (length (pollfds s))) ''idx in range'') (\<lambda>_.
        let pfd = pollfds s ! nat idx in
        bindR (assertR (pfd_fd pfd = ch_fd ch \<or> pfd_fd pfd = - ch_fd ch - 1) ''pfd.fd'') (\<lambda>_.
        let pfd1 = pfd\<lparr>pfd_events := ucast (ch_events ch), pfd_revents := 0\<rparr>;
            pfd2 = (if isNoneEvent ch then pfd1\<lparr>pfd_fd := - ch_fd ch - 1\<rparr> else pfd1)
        in Inr (s\<lparr>pollfds := (pollfds s)[nat idx := pfd2]\<rparr>))))))"

definition removeChannel :: "chan \<Rightarrow> 'z PollPoller_scheme \<Rightarrow> 'z PollPoller_scheme res" where
  "removeChannel c s =
     (let ch = heap s c in
      bindR (assertR (channels s (ch_fd ch) \<noteq> None) ''channels_.find(fd) != end'') (\<lambda>_.
      bindR (assertR (channels s (ch_fd ch) = Some c) ''channels_[fd] == channel'') (\<lambda>_.
      bindR (assertR (isNoneEvent ch) ''isNoneEvent'') (\<lambda>_.
      let idx = ch_index ch in
      bindR (assertR (0 \<le> idx \<and> idx < size_to_int (length (pollfds s))) ''idx in range'') (\<lambda>_.
      let pfd = pollfds s ! nat idx in
      bindR (assertR (pfd_fd pfd = - ch_fd ch - 1 \<and> scast (pfd_events pfd) = ch_events ch) ''pfd.fd == -fd-1'') (\<lambda>_.
      let chs = (channels s)(ch_fd ch := None) in
      if int_to_size idx = sz_sub (length (pollfds s)) 1
      then Inr (s\<lparr>channels := chs, pollfds := butlast (pollfds s)\<rparr>)
      else
        let channelAtEnd = pfd_fd (last (pollfds s));
            swapped = (pollfds s)[nat idx := last (pollfds s), length (pollfds s) - 1 := pfd];
            fd = (if channelAtEnd < 0 then - channelAtEnd - 1 else channelAtEnd)
        in case chs fd of
             None \<Rightarrow> Inl OutOfBounds
           | Some d \<Rightarrow> Inr (s\<lparr>channels := chs, heap := (heap s)(d := set_index idx (heap s d)),
                              pollfds := butlast swapped\<rparr>)))))))"

fun fillActiveChannels ::
    "pollfd list \<Rightarrow> int \<Rightarrow> 'z PollPoller_scheme \<Rightarrow> chan list \<Rightarrow> ('z PollPoller_scheme \<times> chan list) res" where
  "fillActiveChannels [] numEvents s active = Inr (s, active)"
| "fillActiveChannels (pfd # pfds) numEvents s active =
     (if numEvents > 0 then
        if 0 < sint (pfd_revents pfd) then
          bindR (assertR (channels s (pfd_fd pfd) \<noteq> None) ''ch != channels_.end()'') (\<lambda>_.
          let c = the (channels s (pfd_fd pfd)) in
          bindR (assertR (ch_fd (heap s c) = pfd_fd pfd) ''channel->fd() == pfd->fd'') (\<lambda>_.
          fillActiveChannels pfds (numEvents - 1) (heap_upd c (set_revents (scast (pfd_revents pfd))) s) (active @ [c])))
        else fillActiveChannels pfds numEvents s active
      else Inr (s, active))"

text \<open>\<open>kp\<close> is \<^verbatim>\<open>poll(2)\<close>: the number of descriptors with events (negative for an error) and the
  \<^verbatim>\<open>revents\<close> it stores. \<open>now\<close> is the clock. An error is only logged.\<close>

definition PollPoller_poll ::
    "(pollfd list \<Rightarrow> int \<times> 16 word list) \<Rightarrow> Timestamp \<Rightarrow> 'z PollPoller_scheme \<Rightarrow>
     (Timestamp \<times> chan list \<times> 'z PollPoller_scheme) res" where
  "PollPoller_poll kp now s =
     (let (numEvents, rs) = kp (pollfds s);
          s1 = s\<lparr>pollfds := map2 (\<lambda>p r. p\<lparr>pfd_revents := r\<rparr>) (pollfds s) rs\<rparr>
      in if numEvents > 0
         then bindR (fillActiveChannels (pollfds s1) numEvents s1 []) (\<lambda>(s2, active). Inr (now, active, s2))
         else Inr (now, [], s1))"

section \<open>EventLoop and Channel\<close>

definition isInLoopThread :: "'z Reactor_scheme \<Rightarrow> bool" where
  "isInLoopThread s \<longleftrightarrow> rx_threadId s = rx_tid s"

definition assertInLoopThread :: "'z Reactor_scheme \<Rightarrow> unit res" where
  "assertInLoopThread s = (if isInLoopThread s then Inr () else Inl (Fatal ''EventLoop::abortNotInLoopThread''))"

definition EventLoop_updateChannel :: "chan \<Rightarrow> 'z Reactor_scheme \<Rightarrow> 'z Reactor_scheme res" where
  "EventLoop_updateChannel c s =
     bindR (assertR (ch_loop (heap s c) = rx_loop s) ''channel->ownerLoop() == this'') (\<lambda>_.
     bindR (assertInLoopThread s) (\<lambda>_. updateChannel c s))"

definition EventLoop_removeChannel :: "chan \<Rightarrow> 'z Reactor_scheme \<Rightarrow> 'z Reactor_scheme res" where
  "EventLoop_removeChannel c s =
     bindR (assertR (ch_loop (heap s c) = rx_loop s) ''channel->ownerLoop() == this'') (\<lambda>_.
     bindR (assertInLoopThread s) (\<lambda>_.
     bindR (if rx_eventHandling s
            then assertR (rx_current s = Some c \<or> c \<notin> set (rx_active s)) ''currentActiveChannel_ == channel''
            else Inr ()) (\<lambda>_.
     removeChannel c s)))"

definition Channel_mask :: "mask_op \<Rightarrow> chan \<Rightarrow> 'z Reactor_scheme \<Rightarrow> 'z Reactor_scheme res" where
  "Channel_mask m c s = EventLoop_updateChannel c (heap_upd c (\<lambda>ch. ch\<lparr>ch_events := mask_of m (ch_events ch)\<rparr>) s)"

definition Channel_remove :: "chan \<Rightarrow> 'z Reactor_scheme \<Rightarrow> 'z Reactor_scheme res" where
  "Channel_remove c s =
     bindR (assertR (isNoneEvent (heap s c)) ''isNoneEvent()'') (\<lambda>_. EventLoop_removeChannel c s)"

section \<open>Consistency\<close>

text \<open>The descriptor an entry stands for: an ignored entry holds \<open>-fd - 1\<close>.\<close>

definition watched_fd :: "pollfd \<Rightarrow> int" where
  "watched_fd p = (if pfd_fd p < 0 then - pfd_fd p - 1 else pfd_fd p)"

definition registered :: "'z PollPoller_scheme \<Rightarrow> chan \<Rightarrow> bool" where
  "registered s c \<longleftrightarrow> channels s (ch_fd (heap s c)) = Some c"

definition entry_of :: "'z PollPoller_scheme \<Rightarrow> chan \<Rightarrow> pollfd" where
  "entry_of s c = pollfds s ! nat (ch_index (heap s c))"

definition poller_struct :: "'z PollPoller_scheme \<Rightarrow> bool" where
  "poller_struct s \<longleftrightarrow>
     length (pollfds s) < 2 ^ 31 \<and>
     (\<forall>i < length (pollfds s). \<exists>c. channels s (watched_fd (pollfds s ! i)) = Some c \<and> ch_index (heap s c) = int i) \<and>
     (\<forall>fd c. channels s fd = Some c \<longrightarrow>
        0 \<le> fd \<and> ch_fd (heap s c) = fd \<and> 0 \<le> ch_index (heap s c) \<and>
        nat (ch_index (heap s c)) < length (pollfds s) \<and> watched_fd (entry_of s c) = fd)"

definition poller_inv :: "'z PollPoller_scheme \<Rightarrow> bool" where
  "poller_inv s \<longleftrightarrow> poller_struct s \<and>
     (\<forall>c. registered s c \<longrightarrow> pfd_events (entry_of s c) = ucast (ch_events (heap s c)))"

lemma structD:
  assumes "poller_struct s" "channels s fd = Some c"
  shows "0 \<le> fd" "ch_fd (heap s c) = fd" "0 \<le> ch_index (heap s c)"
    "nat (ch_index (heap s c)) < length (pollfds s)" "watched_fd (entry_of s c) = fd"
  using assms unfolding poller_struct_def by blast+

lemma struct_entry:
  assumes "poller_struct s" "i < length (pollfds s)"
  obtains c where "channels s (watched_fd (pollfds s ! i)) = Some c" "ch_index (heap s c) = int i"
    "ch_fd (heap s c) = watched_fd (pollfds s ! i)"
  using assms structD(2) [OF assms(1)] unfolding poller_struct_def by blast

lemma struct_size: "poller_struct s \<Longrightarrow> size_to_int (length (pollfds s)) = int (length (pollfds s))"
  by (simp add: poller_struct_def size_to_int_eq)

lemma watched_fd_distinct:
  assumes "poller_struct s" "i < length (pollfds s)" "j < length (pollfds s)"
    "watched_fd (pollfds s ! i) = watched_fd (pollfds s ! j)"
  shows "i = j"
proof -
  obtain c where "channels s (watched_fd (pollfds s ! i)) = Some c" "ch_index (heap s c) = int i"
    using struct_entry [OF assms(1,2)] .
  moreover obtain d where "channels s (watched_fd (pollfds s ! j)) = Some d" "ch_index (heap s d) = int j"
    using struct_entry [OF assms(1,3)] .
  ultimately show ?thesis using assms(4) by simp
qed

section \<open>Updating\<close>

lemma updateChannel_new:
  assumes st: "poller_struct s" and idx: "ch_index (heap s c) < 0" and new: "channels s (ch_fd (heap s c)) = None"
    and fd: "0 \<le> ch_fd (heap s c)" and len: "Suc (length (pollfds s)) < 2 ^ 31"
  shows "\<exists>s'. updateChannel c s = Inr s' \<and> poller_struct s' \<and> registered s' c \<and>
     pollfds s' = pollfds s @ [\<lparr>pfd_fd = ch_fd (heap s c), pfd_events = ucast (ch_events (heap s c)), pfd_revents = 0\<rparr>] \<and>
     heap s' = (heap s)(c := set_index (int (length (pollfds s))) (heap s c)) \<and>
     channels s' = (channels s)(ch_fd (heap s c) \<mapsto> c) \<and> PollPoller.PollPoller.more s' = PollPoller.PollPoller.more s"
proof -
  define p where "p = \<lparr>pfd_fd = ch_fd (heap s c), pfd_events = ucast (ch_events (heap s c)) :: 16 word, pfd_revents = 0\<rparr>"
  define s' where "s' = s\<lparr>pollfds := pollfds s @ [p], heap := (heap s)(c := set_index (int (length (pollfds s))) (heap s c)),
      channels := (channels s)(ch_fd (heap s c) \<mapsto> c)\<rparr>"
  have u: "updateChannel c s = Inr s'"
    using idx new len by (simp add: updateChannel_def Let_def s'_def p_def size_to_int_eq)
  have other: "d \<noteq> c" "fd \<noteq> ch_fd (heap s c)" if "channels s fd = Some d" for fd d
    using structD(3) [OF st that] idx new that by auto
  have wp: "watched_fd p = ch_fd (heap s c)" using fd by (simp add: watched_fd_def p_def)
  have "poller_struct s'"
    unfolding poller_struct_def
  proof (intro conjI allI impI)
    show "length (pollfds s') < 2 ^ 31" using len by (simp add: s'_def)
  next
    fix i assume i: "i < length (pollfds s')"
    show "\<exists>d. channels s' (watched_fd (pollfds s' ! i)) = Some d \<and> ch_index (heap s' d) = int i"
    proof (cases "i < length (pollfds s)")
      case True
      then obtain d where "channels s (watched_fd (pollfds s ! i)) = Some d" "ch_index (heap s d) = int i"
        using struct_entry [OF st] by blast
      with other True show ?thesis by (auto simp: s'_def nth_append)
    next
      case False
      with i have "i = length (pollfds s)" by (simp add: s'_def)
      then show ?thesis by (simp add: s'_def wp set_index_def)
    qed
  next
    fix g d assume d: "channels s' g = Some d"
    show "0 \<le> g" "ch_fd (heap s' d) = g" "0 \<le> ch_index (heap s' d)" "nat (ch_index (heap s' d)) < length (pollfds s')"
      "watched_fd (entry_of s' d) = g"
      using d fd wp other [of g d] structD [OF st, of g d]
      by (auto simp: s'_def entry_of_def set_index_def nth_append split: if_splits)
  qed
  moreover have "registered s' c" by (simp add: registered_def s'_def set_index_def)
  ultimately show ?thesis using u by (auto simp: s'_def p_def)
qed

lemma updateChannel_old:
  assumes st: "poller_struct s" and reg: "registered s c"
  shows "\<exists>s' p. updateChannel c s = Inr s' \<and> poller_struct s' \<and> heap s' = heap s \<and> channels s' = channels s \<and>
     PollPoller.PollPoller.more s' = PollPoller.PollPoller.more s \<and>
     pollfds s' = (pollfds s)[nat (ch_index (heap s c)) := p] \<and> pfd_events p = ucast (ch_events (heap s c)) \<and>
     pfd_fd p = (if isNoneEvent (heap s c) then - ch_fd (heap s c) - 1 else pfd_fd (entry_of s c))"
proof -
  define i where "i = nat (ch_index (heap s c))"
  define q where "q = (pollfds s ! i)\<lparr>pfd_events := ucast (ch_events (heap s c)), pfd_revents := 0\<rparr>"
  define p where "p = (if isNoneEvent (heap s c) then q\<lparr>pfd_fd := - ch_fd (heap s c) - 1\<rparr> else q)"
  define s' where "s' = s\<lparr>pollfds := (pollfds s)[i := p]\<rparr>"
  note c = structD [OF st reg [unfolded registered_def]]
  have fd: "pfd_fd (pollfds s ! i) = ch_fd (heap s c) \<or> pfd_fd (pollfds s ! i) = - ch_fd (heap s c) - 1"
    using c(5) by (auto simp: watched_fd_def entry_of_def i_def split: if_splits)
  have u: "updateChannel c s = Inr s'"
    using c fd reg struct_size [OF st]
    by (simp add: updateChannel_def Let_def s'_def p_def q_def i_def registered_def)
  have wp: "watched_fd p = watched_fd (pollfds s ! i)"
    using c(1,5) by (simp add: p_def q_def watched_fd_def entry_of_def i_def split: if_splits)
  then have w: "watched_fd (pollfds s' ! j) = watched_fd (pollfds s ! j)" if "j < length (pollfds s)" for j
    using that by (cases "j = i") (simp_all add: s'_def)
  have "poller_struct s'"
    using st w unfolding poller_struct_def by (simp add: entry_of_def s'_def)
  then show ?thesis using u by (auto simp: s'_def p_def q_def i_def entry_of_def)
qed

text \<open>Changing a mask, or anything else but descriptor and index, does not touch the structure.\<close>

lemma struct_heap_upd:
  assumes "poller_struct s" "\<And>ch. ch_fd (f ch) = ch_fd ch" "\<And>ch. ch_index (f ch) = ch_index ch"
  shows "poller_struct (heap_upd c f s)"
proof -
  have "ch_fd (heap (heap_upd c f s) d) = ch_fd (heap s d) \<and> ch_index (heap (heap_upd c f s) d) = ch_index (heap s d)" for d
    using assms(2,3) by (simp add: heap_upd_def)
  then show ?thesis using assms(1) unfolding poller_struct_def entry_of_def by (simp add: heap_upd_def)
qed

section \<open>Removing\<close>

lemma removeChannel_ok:
  assumes st: "poller_struct s" and reg: "registered s c" and none: "isNoneEvent (heap s c)"
    and ign: "pfd_fd (entry_of s c) < 0" and sync: "pfd_events (entry_of s c) = ucast (ch_events (heap s c))"
  shows "\<exists>s'. removeChannel c s = Inr s' \<and> poller_struct s' \<and>
     channels s' = (channels s)(ch_fd (heap s c) := None) \<and> PollPoller.PollPoller.more s' = PollPoller.PollPoller.more s \<and>
     (\<forall>d. d \<noteq> c \<longrightarrow> registered s d \<longrightarrow> registered s' d \<and> entry_of s' d = entry_of s d) \<and>
     (\<forall>d. \<exists>k. heap s' d = (heap s d)\<lparr>ch_index := k\<rparr>)"
proof -
  define i where "i = nat (ch_index (heap s c))"
  define n where "n = length (pollfds s) - 1"
  define fd where "fd = ch_fd (heap s c)"
  have ch: "channels s fd = Some c" using reg by (simp add: registered_def fd_def)
  note c = structD [OF st ch]
  have le: "i \<le> n" "n < length (pollfds s)" "length (pollfds s) = Suc n" using c(4) by (auto simp: i_def n_def)
  have idx: "ch_index (heap s c) = int i" using c(3) by (simp add: i_def)
  have len: "length (pollfds s) < 2 ^ 31" using st by (simp add: poller_struct_def)
  have fdi: "pfd_fd (pollfds s ! i) = - fd - 1"
    using c(5) ign by (simp add: watched_fd_def entry_of_def i_def split: if_splits)
  have ev: "scast (pfd_events (pollfds s ! i)) = ch_events (heap s c)"
    using sync none by (simp add: entry_of_def i_def isNoneEvent_def kNoneEvent_def)
  have last: "last (pollfds s) = pollfds s ! n" using le by (metis last_conv_nth length_0_conv Zero_not_Suc diff_Suc_1)
  obtain d where d: "channels s (watched_fd (pollfds s ! n)) = Some d" "ch_index (heap s d) = int n"
    using struct_entry [OF st le(2)] .
  have sz: "int_to_size (int i) = i" "sz_sub (Suc n) 1 = n"
    using len le by (simp_all add: int_to_size_nonneg SIZE_MOD_def sz_sub_eq)
  define s' where "s' = s\<lparr>channels := (channels s)(fd := None), pollfds := butlast ((pollfds s)[i := pollfds s ! n]),
      heap := (heap s)(d := set_index (int i) (heap s d))\<rparr>"
  define s1 where "s1 = (if i = n then s\<lparr>channels := (channels s)(fd := None), pollfds := butlast (pollfds s)\<rparr> else s')"
  have di: "d = c \<longleftrightarrow> i = n"
    using d idx c(5) structD(2) [OF st d(1)] ch by (auto simp: entry_of_def fd_def i_def [symmetric])
  have r: "removeChannel c s = Inr s1"
  proof -
    have "watched_fd (pollfds s ! n) \<noteq> fd" if "i \<noteq> n" using d(1) ch di that by auto
    moreover have "butlast ((pollfds s)[i := pollfds s ! n, n := pollfds s ! i]) = butlast ((pollfds s)[i := pollfds s ! n])"
      using le by (simp add: butlast_list_update)
    ultimately show ?thesis
      using ch none fdi ev le sz d(1) struct_size [OF st]
      by (auto simp: removeChannel_def Let_def fd_def [symmetric] idx last s1_def s'_def watched_fd_def
          split: option.split)
  qed
  have e: "pollfds s1 ! j = (if j = i then pollfds s ! n else pollfds s ! j)" "length (pollfds s1) = n" if "j < n" for j
    using that le by (auto simp: s1_def s'_def nth_butlast)
  have h: "heap s1 x = (if x = d \<and> i \<noteq> n then (heap s x)\<lparr>ch_index := int i\<rparr> else heap s x)" for x
    by (simp add: s1_def s'_def set_index_def)
  have chs: "channels s1 = (channels s)(fd := None)" by (simp add: s1_def s'_def)
  have l1: "length (pollfds s1) = n" using le by (simp add: s1_def s'_def)
  have other: "x \<noteq> c \<and> g \<noteq> fd \<and> ch_fd (heap s1 x) = g \<and>
      nat (ch_index (heap s1 x)) < n \<and> 0 \<le> ch_index (heap s1 x) \<and> entry_of s1 x = entry_of s x"
    if x: "channels s g = Some x" "x \<noteq> c" for g x
  proof -
    have g: "g \<noteq> fd" using x ch by auto
    note sx = structD [OF st x(1)]
    show ?thesis
    proof (cases "x = d")
      case True
      with x(2) di have "i < n" "i \<noteq> n" using le by auto
      with True d(2) sx x(2) g show ?thesis by (simp add: h entry_of_def e)
    next
      case False
      have "nat (ch_index (heap s x)) \<noteq> n" using sx(5) d(1) x(1) False by (auto simp: entry_of_def)
      moreover have "nat (ch_index (heap s x)) \<noteq> i" using sx(5) c(5) g by (auto simp: entry_of_def i_def)
      ultimately show ?thesis using sx le False x(2) g by (simp add: h entry_of_def e)
    qed
  qed
  have "poller_struct s1"
    unfolding poller_struct_def
  proof (intro conjI allI impI)
    show "length (pollfds s1) < 2 ^ 31" using l1 le len by simp
  next
    fix j assume "j < length (pollfds s1)"
    then have j: "j < n" using l1 by simp
    show "\<exists>x. channels s1 (watched_fd (pollfds s1 ! j)) = Some x \<and> ch_index (heap s1 x) = int j"
    proof (cases "j = i")
      case True
      with j di have "d \<noteq> c" "i \<noteq> n" by auto
      with other [OF d(1)] d True j show ?thesis by (simp add: chs h e)
    next
      case False
      obtain x where x: "channels s (watched_fd (pollfds s ! j)) = Some x" "ch_index (heap s x) = int j"
        using struct_entry [OF st, of j] j le by auto
      then have "x \<noteq> c" "x \<noteq> d" using False idx d(2) j by auto
      with other [OF x(1)] x False j show ?thesis by (simp add: chs h e)
    qed
  next
    fix g x assume "channels s1 g = Some x"
    then have x: "channels s g = Some x" "g \<noteq> fd" by (auto simp: chs split: if_splits)
    then have "x \<noteq> c" using structD(2) [OF st x(1)] fd_def by auto
    from other [OF x(1) this] structD [OF st x(1)]
    show "0 \<le> g" "ch_fd (heap s1 x) = g" "0 \<le> ch_index (heap s1 x)" "nat (ch_index (heap s1 x)) < length (pollfds s1)"
      "watched_fd (entry_of s1 x) = g" by (simp_all add: l1)
  qed
  moreover have "\<forall>x. x \<noteq> c \<longrightarrow> registered s x \<longrightarrow> registered s1 x \<and> entry_of s1 x = entry_of s x"
    using other by (auto simp: registered_def chs)
  moreover have "\<exists>k. heap s1 x = (heap s x)\<lparr>ch_index := k\<rparr>" for x
    unfolding h by (cases "heap s x") auto
  ultimately show ?thesis using r chs by (auto simp: fd_def s1_def s'_def)
qed

section \<open>Polling\<close>

text \<open>What \<^verbatim>\<open>poll(2)\<close> promises: one \<^verbatim>\<open>revents\<close> per entry, none for an entry with a negative descriptor, the sign
  bit never set, and a positive result is the number of entries with events.\<close>

definition poll_contract :: "(pollfd list \<Rightarrow> int \<times> 16 word list) \<Rightarrow> bool" where
  "poll_contract kp \<longleftrightarrow>
     (\<forall>pfds. case kp pfds of (n, rs) \<Rightarrow>
        length rs = length pfds \<and>
        (\<forall>i < length pfds. 0 \<le> sint (rs ! i) \<and> (pfd_fd (pfds ! i) < 0 \<longrightarrow> rs ! i = 0)) \<and>
        (0 < n \<longrightarrow> n = int (length (filter (\<lambda>r. 0 < sint r) rs))))"

text \<open>The active list it asks for: the channels of the entries with events, in the order of the
  array.\<close>

definition active_of :: "pollfd list \<Rightarrow> 'z PollPoller_scheme \<Rightarrow> chan list" where
  "active_of pfds s = map (\<lambda>p. the (channels s (pfd_fd p))) (filter (\<lambda>p. 0 < sint (pfd_revents p)) pfds)"

lemma fillActiveChannels_active:
  assumes "poller_struct s"
    and "\<forall>p \<in> set pfds. 0 < sint (pfd_revents p) \<longrightarrow> 0 \<le> pfd_fd p \<and> channels s (pfd_fd p) \<noteq> None"
    and "n = int (length (filter (\<lambda>p. 0 < sint (pfd_revents p)) pfds))"
  shows "\<exists>s'. fillActiveChannels pfds n s act = Inr (s', act @ active_of pfds s) \<and> poller_struct s' \<and>
     channels s' = channels s \<and> pollfds s' = pollfds s \<and> PollPoller.PollPoller.more s' = PollPoller.PollPoller.more s \<and>
     (\<forall>d. \<exists>r. heap s' d = (heap s d)\<lparr>ch_revents := r\<rparr>)"
  using assms
proof (induction pfds arbitrary: n s act)
  case Nil
  have "\<exists>r. heap s d = (heap s d)\<lparr>ch_revents := r\<rparr>" for d by (rule exI [of _ "ch_revents (heap s d)"]) simp
  with Nil show ?case by (auto simp: active_of_def)
next
  case (Cons p pfds)
  show ?case
  proof (cases "0 < sint (pfd_revents p)")
    case True
    then obtain c where c: "channels s (pfd_fd p) = Some c" using Cons.prems(2) by auto
    define s1 where "s1 = heap_upd c (set_revents (scast (pfd_revents p))) s"
    have st: "poller_struct s1" unfolding s1_def by (rule struct_heap_upd [OF Cons.prems(1)]) (simp_all add: set_revents_def)
    have ch: "channels s1 = channels s" by (simp add: s1_def heap_upd_def)
    have "\<exists>s'. fillActiveChannels pfds (n - 1) s1 (act @ [c]) = Inr (s', (act @ [c]) @ active_of pfds s1) \<and> poller_struct s' \<and>
     channels s' = channels s1 \<and> pollfds s' = pollfds s1 \<and> PollPoller.PollPoller.more s' = PollPoller.PollPoller.more s1 \<and>
     (\<forall>d. \<exists>r. heap s' d = (heap s1 d)\<lparr>ch_revents := r\<rparr>)"
      by (rule Cons.IH [OF st]) (use Cons.prems True in \<open>simp_all add: ch\<close>)
    then obtain s' where s': "fillActiveChannels pfds (n - 1) s1 (act @ [c]) = Inr (s', act @ c # active_of pfds s1)"
      "poller_struct s'" "channels s' = channels s1" "pollfds s' = pollfds s1" "PollPoller.PollPoller.more s' = PollPoller.PollPoller.more s1"
      "\<And>d. \<exists>r. heap s' d = (heap s1 d)\<lparr>ch_revents := r\<rparr>" by auto
    have "\<exists>r. heap s' d = (heap s d)\<lparr>ch_revents := r\<rparr>" for d
      using s'(6) [of d] by (auto simp: s1_def heap_upd_def set_revents_def split: if_splits)
    moreover have "active_of (p # pfds) s = c # active_of pfds s1" using True c by (simp add: active_of_def ch)
    moreover have "fillActiveChannels (p # pfds) n s act = fillActiveChannels pfds (n - 1) s1 (act @ [c])"
      using True c structD(2) [OF Cons.prems(1) c] Cons.prems(3) by (simp add: s1_def)
    ultimately show ?thesis using s'(1-5) by (intro exI [of _ s']) (simp add: s1_def heap_upd_def)
  next
    case False
    then have "fillActiveChannels (p # pfds) n s act = fillActiveChannels pfds n s act"
      using Cons.prems(3) by (cases pfds) auto
    moreover have "active_of (p # pfds) s = active_of pfds s" using False by (simp add: active_of_def)
    ultimately show ?thesis using Cons.IH [OF Cons.prems(1), of n act] Cons.prems False by simp
  qed
qed

lemma watched_fd_revents [simp]: "watched_fd (p\<lparr>pfd_revents := r\<rparr>) = watched_fd p"
  by (simp add: watched_fd_def)

lemma struct_revents:
  assumes "poller_struct s" "length rs = length (pollfds s)"
  shows "poller_struct (s\<lparr>pollfds := map2 (\<lambda>p r. p\<lparr>pfd_revents := r\<rparr>) (pollfds s) rs\<rparr>)"
  using assms unfolding poller_struct_def by (simp add: entry_of_def)

lemma active_iff:
  assumes st: "poller_struct s" and len: "length rs = length (pollfds s)"
    and neg: "\<forall>i < length (pollfds s). 0 \<le> sint (rs ! i) \<and> (pfd_fd (pollfds s ! i) < 0 \<longrightarrow> rs ! i = 0)"
    and c: "registered s c"
  shows "c \<in> set (active_of (map2 (\<lambda>p r. p\<lparr>pfd_revents := r\<rparr>) (pollfds s) rs) s) \<longleftrightarrow>
     0 < sint (rs ! nat (ch_index (heap s c)))"
proof
  assume "c \<in> set (active_of (map2 (\<lambda>p r. p\<lparr>pfd_revents := r\<rparr>) (pollfds s) rs) s)"
  then obtain i where i: "i < length (pollfds s)" "0 < sint (rs ! i)" "the (channels s (pfd_fd (pollfds s ! i))) = c"
    using len by (auto simp: active_of_def in_set_conv_nth)
  then have "0 \<le> pfd_fd (pollfds s ! i)" using neg by force
  then obtain d where "channels s (pfd_fd (pollfds s ! i)) = Some d" "ch_index (heap s d) = int i"
    using struct_entry [OF st i(1)] by (auto simp: watched_fd_def)
  with i show "0 < sint (rs ! nat (ch_index (heap s c)))" by simp
next
  define i where "i = nat (ch_index (heap s c))"
  note cs = structD [OF st c [unfolded registered_def]]
  assume r: "0 < sint (rs ! nat (ch_index (heap s c)))"
  have i: "i < length (pollfds s)" using cs(4) by (simp add: i_def)
  have "0 \<le> pfd_fd (pollfds s ! i)" using neg i r by (force simp: i_def)
  then have "the (channels s (pfd_fd (pollfds s ! i))) = c"
    using cs(5) c by (simp add: watched_fd_def entry_of_def i_def registered_def)
  moreover have "map2 (\<lambda>p r. p\<lparr>pfd_revents := r\<rparr>) (pollfds s) rs ! i \<in> set (map2 (\<lambda>p r. p\<lparr>pfd_revents := r\<rparr>) (pollfds s) rs)"
    using i len by (intro nth_mem) simp
  then have "(pollfds s ! i)\<lparr>pfd_revents := rs ! i\<rparr> \<in>
      set (filter (\<lambda>p. 0 < sint (pfd_revents p)) (map2 (\<lambda>p r. p\<lparr>pfd_revents := r\<rparr>) (pollfds s) rs))"
    using i len r by (simp add: i_def)
  then have "the (channels s (pfd_fd (pollfds s ! i))) \<in> set (active_of (map2 (\<lambda>p r. p\<lparr>pfd_revents := r\<rparr>) (pollfds s) rs) s)"
    unfolding active_of_def set_map by (rule rev_image_eqI) simp
  ultimately show "c \<in> set (active_of (map2 (\<lambda>p r. p\<lparr>pfd_revents := r\<rparr>) (pollfds s) rs) s)"
    by simp
qed

section \<open>Channels on the loop\<close>

definition fresh :: "'z PollPoller_scheme \<Rightarrow> chan \<Rightarrow> bool" where
  "fresh s c \<longleftrightarrow> ch_index (heap s c) < 0 \<and> channels s (ch_fd (heap s c)) = None \<and> 0 \<le> ch_fd (heap s c) \<and>
     Suc (length (pollfds s)) < 2 ^ 31"

definition on_loop :: "'z Reactor_scheme \<Rightarrow> chan \<Rightarrow> bool" where
  "on_loop s c \<longleftrightarrow> ch_loop (heap s c) = rx_loop s \<and> isInLoopThread s"

lemma reactor_fields:
  "PollPoller.PollPoller.more s' = PollPoller.PollPoller.more s \<Longrightarrow>
   rx_loop s' = rx_loop s \<and> rx_threadId s' = rx_threadId s \<and> rx_tid s' = rx_tid s \<and>
   rx_eventHandling s' = rx_eventHandling s \<and> rx_active s' = rx_active s \<and> rx_current s' = rx_current s"
  by (cases s; cases s') simp

lemma assertInLoopThread_ok [simp]: "on_loop s c \<Longrightarrow> assertInLoopThread s = Inr ()"
  by (simp add: on_loop_def assertInLoopThread_def)

lemma EventLoop_updateChannel_on [simp]: "on_loop s c \<Longrightarrow> EventLoop_updateChannel c s = updateChannel c s"
  by (simp add: EventLoop_updateChannel_def) (simp add: on_loop_def)

definition masked :: "mask_op \<Rightarrow> chan \<Rightarrow> 'z PollPoller_scheme \<Rightarrow> 'z PollPoller_scheme" where
  "masked m c s = heap_upd c (\<lambda>ch. ch\<lparr>ch_events := mask_of m (ch_events ch)\<rparr>) s"

lemma masked_simps [simp]:
  "pollfds (masked m c s) = pollfds s" "channels (masked m c s) = channels s"
  "PollPoller.PollPoller.more (masked m c s) = PollPoller.PollPoller.more s"
  "heap (masked m c s) = (heap s)(c := (heap s c)\<lparr>ch_events := mask_of m (ch_events (heap s c))\<rparr>)"
  "entry_of (masked m c s) d = entry_of s d"
  by (simp_all add: masked_def heap_upd_def entry_of_def)

lemma masked_reg [simp]: "registered (masked m c s) d = registered s d" "fresh (masked m c s) d = fresh s d"
  by (simp_all add: registered_def fresh_def)

lemma masked_struct: "poller_struct s \<Longrightarrow> poller_struct (masked m c s)"
  unfolding masked_def by (rule struct_heap_upd) simp_all

lemma masked_on_loop [simp]: "on_loop (masked m c s) d = on_loop s d"
  using reactor_fields [of "masked m c s" s] by (simp add: on_loop_def isInLoopThread_def)

lemma Channel_mask_masked: "on_loop s c \<Longrightarrow> Channel_mask m c s = updateChannel c (masked m c s)"
  using masked_on_loop [of m c s c] by (simp add: Channel_mask_def masked_def)

lemma on_loop_frame:
  "PollPoller.PollPoller.more s' = PollPoller.PollPoller.more s \<Longrightarrow> ch_loop (heap s' c) = ch_loop (heap s c) \<Longrightarrow> on_loop s' c = on_loop s c"
  using reactor_fields [of s' s] by (simp add: on_loop_def isInLoopThread_def)

lemma Channel_mask_registered:
  assumes "poller_inv s" "on_loop s c" "registered s c"
  shows "\<exists>s'. Channel_mask m c s = Inr s' \<and> poller_inv s' \<and> registered s' c \<and> on_loop s' c \<and>
     heap s' = heap (masked m c s) \<and> channels s' = channels s \<and> PollPoller.PollPoller.more s' = PollPoller.PollPoller.more s \<and>
     pfd_fd (entry_of s' c) =
       (if mask_of m (ch_events (heap s c)) = kNoneEvent then - ch_fd (heap s c) - 1 else pfd_fd (entry_of s c))"
proof -
  have st: "poller_struct s" using assms(1) by (simp add: poller_inv_def)
  define i where "i = nat (ch_index (heap s c))"
  have i: "i < length (pollfds s)" using structD(4) [OF st assms(3) [unfolded registered_def]] by (simp add: i_def)
  obtain s' p where u: "updateChannel c (masked m c s) = Inr s'" "poller_struct s'" "heap s' = heap (masked m c s)"
    "channels s' = channels s" "PollPoller.PollPoller.more s' = PollPoller.PollPoller.more s" "pollfds s' = (pollfds s)[i := p]"
    "pfd_events p = ucast (mask_of m (ch_events (heap s c)))"
    "pfd_fd p = (if mask_of m (ch_events (heap s c)) = kNoneEvent then - ch_fd (heap s c) - 1 else pfd_fd (entry_of s c))"
    using updateChannel_old [OF masked_struct [OF st], of m c c] assms(3) by (auto simp: i_def isNoneEvent_def)
  have reg: "registered s' d = registered s d" for d using u(3,4) by (simp add: registered_def)
  have ec: "entry_of s' c = p" using u(3,6) i by (simp add: entry_of_def i_def)
  have "pfd_events (entry_of s' d) = ucast (ch_events (heap s' d))" if "registered s' d" for d
  proof (cases "d = c")
    case True
    with ec u(3,7) show ?thesis by simp
  next
    case False
    have "registered s d" using that reg by simp
    then have "nat (ch_index (heap s d)) \<noteq> i"
      using False structD [OF st \<open>registered s d\<close> [unfolded registered_def]] assms(3)
        structD [OF st assms(3) [unfolded registered_def]]
      by (auto simp: entry_of_def i_def registered_def)
    then have "entry_of s' d = entry_of s d" using u(3,6) False by (simp add: entry_of_def)
    with \<open>registered s d\<close> assms(1) False u(3) show ?thesis by (simp add: poller_inv_def)
  qed
  then have "poller_inv s'" using u(2) by (simp add: poller_inv_def)
  moreover have "on_loop s' c" using assms(2) on_loop_frame [OF u(5), of c] u(3) by simp
  ultimately show ?thesis
    using u reg assms(3) ec Channel_mask_masked [OF assms(2), of m] by (intro exI [of _ s']) simp
qed

lemma Channel_mask_fresh:
  assumes "poller_inv s" "on_loop s c" "fresh s c"
  shows "\<exists>s'. Channel_mask m c s = Inr s' \<and> poller_inv s' \<and> registered s' c \<and> on_loop s' c \<and>
     ch_events (heap s' c) = mask_of m (ch_events (heap s c)) \<and> ch_fd (heap s' c) = ch_fd (heap s c) \<and>
     (\<forall>d. d \<noteq> c \<longrightarrow> heap s' d = heap s d) \<and> channels s' = (channels s)(ch_fd (heap s c) \<mapsto> c) \<and>
     PollPoller.PollPoller.more s' = PollPoller.PollPoller.more s \<and> pfd_fd (entry_of s' c) = ch_fd (heap s c)"
proof -
  have st: "poller_struct s" using assms(1) by (simp add: poller_inv_def)
  obtain s' where u: "updateChannel c (masked m c s) = Inr s'" "poller_struct s'" "registered s' c"
    "pollfds s' = pollfds s @ [\<lparr>pfd_fd = ch_fd (heap s c), pfd_events = ucast (mask_of m (ch_events (heap s c))), pfd_revents = 0\<rparr>]"
    "heap s' = (heap s)(c := set_index (int (length (pollfds s))) ((heap s c)\<lparr>ch_events := mask_of m (ch_events (heap s c))\<rparr>))"
    "channels s' = (channels s)(ch_fd (heap s c) \<mapsto> c)" "PollPoller.PollPoller.more s' = PollPoller.PollPoller.more s"
    using updateChannel_new [OF masked_struct [OF st], of m c c] assms(3) by (auto simp: fresh_def)
  have "pfd_events (entry_of s' d) = ucast (ch_events (heap s' d))" if "registered s' d" for d
  proof (cases "d = c")
    case True
    then show ?thesis using u(4,5) by (simp add: entry_of_def set_index_def)
  next
    case False
    have "ch_fd (heap s d) \<noteq> ch_fd (heap s c)"
      using that False u(3,5,6) by (auto simp: registered_def split: if_splits)
    then have r: "registered s d" using that False u(5,6) by (simp add: registered_def split: if_splits)
    then have "nat (ch_index (heap s d)) < length (pollfds s)" using structD(4) [OF st] by (simp add: registered_def)
    then have "entry_of s' d = entry_of s d" using u(4,5) False by (simp add: entry_of_def nth_append)
    with r assms(1) False u(5) show ?thesis by (simp add: poller_inv_def)
  qed
  then have "poller_inv s'" using u(2) by (simp add: poller_inv_def)
  moreover have "on_loop s' c" using assms(2) on_loop_frame [OF u(7), of c] u(5) by (simp add: set_index_def)
  ultimately show ?thesis
    using u Channel_mask_masked [OF assms(2), of m] by (intro exI [of _ s']) (simp add: set_index_def entry_of_def)
qed

text \<open>The other channels keep their entries.\<close>

lemma Channel_mask_others:
  assumes "poller_inv s" "on_loop s c" "registered s c \<or> fresh s c" "Channel_mask m c s = Inr s'"
    and d: "registered s d" "d \<noteq> c"
  shows "registered s' d \<and> entry_of s' d = entry_of s d \<and> heap s' d = heap s d"
proof -
  have st: "poller_struct s" using assms(1) by (simp add: poller_inv_def)
  note ds = structD [OF st d(1) [unfolded registered_def]]
  have u: "updateChannel c (masked m c s) = Inr s'" using assms(4) Channel_mask_masked [OF assms(2)] by simp
  show ?thesis using assms(3)
  proof
    assume reg: "registered s c"
    note cs = structD [OF st reg [unfolded registered_def]]
    obtain p where "heap s' = heap (masked m c s)" "channels s' = channels s"
      "pollfds s' = (pollfds s)[nat (ch_index (heap s c)) := p]"
      using updateChannel_old [OF masked_struct [OF st], of m c c] reg u by auto
    moreover have "nat (ch_index (heap s d)) \<noteq> nat (ch_index (heap s c))"
      using d reg cs ds by (auto simp: entry_of_def registered_def)
    ultimately show ?thesis using d by (simp add: registered_def entry_of_def)
  next
    assume fr: "fresh s c"
    then have "pollfds s' = pollfds s @ [\<lparr>pfd_fd = ch_fd (heap s c), pfd_events = ucast (mask_of m (ch_events (heap s c))), pfd_revents = 0\<rparr>]"
      "heap s' = (heap s)(c := set_index (int (length (pollfds s))) ((heap s c)\<lparr>ch_events := mask_of m (ch_events (heap s c))\<rparr>))"
      "channels s' = (channels s)(ch_fd (heap s c) \<mapsto> c)"
      using updateChannel_new [OF masked_struct [OF st], of m c c] u by (auto simp: fresh_def)
    then show ?thesis using d fr ds(4) by (auto simp: registered_def entry_of_def nth_append fresh_def)
  qed
qed

lemma Channel_remove_ok:
  assumes "poller_inv s" "on_loop s c" "registered s c" "isNoneEvent (heap s c)" "pfd_fd (entry_of s c) < 0"
    and "rx_eventHandling s \<longrightarrow> rx_current s = Some c \<or> c \<notin> set (rx_active s)"
  shows "\<exists>s'. Channel_remove c s = Inr s' \<and> poller_inv s' \<and> channels s' = (channels s)(ch_fd (heap s c) := None) \<and>
     (\<forall>d. d \<noteq> c \<longrightarrow> registered s d \<longrightarrow> registered s' d \<and> entry_of s' d = entry_of s d) \<and>
     (\<forall>d. \<exists>k. heap s' d = (heap s d)\<lparr>ch_index := k\<rparr>) \<and> PollPoller.PollPoller.more s' = PollPoller.PollPoller.more s"
proof -
  have st: "poller_struct s" and sync: "pfd_events (entry_of s c) = ucast (ch_events (heap s c))"
    using assms by (simp_all add: poller_inv_def)
  obtain s' where u: "removeChannel c s = Inr s'" "poller_struct s'" "channels s' = (channels s)(ch_fd (heap s c) := None)"
    "PollPoller.PollPoller.more s' = PollPoller.PollPoller.more s"
    "\<And>d. d \<noteq> c \<Longrightarrow> registered s d \<Longrightarrow> registered s' d \<and> entry_of s' d = entry_of s d"
    "\<And>d. \<exists>k. heap s' d = (heap s d)\<lparr>ch_index := k\<rparr>"
    using removeChannel_ok [OF st assms(3,4,5) sync] by auto
  have "pfd_events (entry_of s' d) = ucast (ch_events (heap s' d))" if "registered s' d" for d
  proof -
    obtain k where k: "heap s' d = (heap s d)\<lparr>ch_index := k\<rparr>" using u(6) by blast
    then have "ch_fd (heap s d) \<noteq> ch_fd (heap s c)" "channels s (ch_fd (heap s d)) = Some d"
      using that u(3) by (auto simp: registered_def split: if_splits)
    then have "registered s d" "d \<noteq> c" by (auto simp: registered_def)
    with u(5) assms(1) k show ?thesis by (simp add: poller_inv_def)
  qed
  then have "poller_inv s'" using u(2) by (simp add: poller_inv_def)
  moreover have "Channel_remove c s = removeChannel c s"
    using assms(2,4,6) by (simp add: Channel_remove_def EventLoop_removeChannel_def) (simp add: on_loop_def)
  ultimately show ?thesis using u by (intro exI [of _ s']) simp
qed

section \<open>The interface channels are used through\<close>

locale channel_registry =
  fixes mask :: "mask_op \<Rightarrow> chan \<Rightarrow> 's \<Rightarrow> 's res"
    and remove :: "chan \<Rightarrow> 's \<Rightarrow> 's res"
    and inv :: "'s \<Rightarrow> bool"
    and ready :: "'s \<Rightarrow> chan \<Rightarrow> bool"
    and idle :: "'s \<Rightarrow> chan \<Rightarrow> bool"
  assumes mask_ready: "inv s \<Longrightarrow> ready s c \<Longrightarrow> \<exists>s'. mask m c s = Inr s' \<and> inv s' \<and> ready s' c"
    and disableAll_idle: "inv s \<Longrightarrow> ready s c \<Longrightarrow> mask DisableAll c s = Inr s' \<Longrightarrow> idle s' c"
    and remove_idle: "inv s \<Longrightarrow> ready s c \<Longrightarrow> idle s c \<Longrightarrow> \<exists>s'. remove c s = Inr s' \<and> inv s' \<and> \<not> ready s' c"
begin

lemma masks_ready: "inv s \<Longrightarrow> ready s c \<Longrightarrow> \<exists>s'. foldR (\<lambda>m. mask m c) ms s = Inr s' \<and> inv s' \<and> ready s' c"
proof (induction ms arbitrary: s)
  case (Cons m ms)
  then show ?case using mask_ready [of s c m] by fastforce
qed simp

text \<open>A registered channel can change its mask at will, and is gone after \<^verbatim>\<open>disableAll\<close> and \<^verbatim>\<open>remove\<close>.\<close>

lemma lifecycle:
  assumes "inv s" "ready s c"
  shows "\<exists>s'. bindR (foldR (\<lambda>m. mask m c) (ms @ [DisableAll]) s) (remove c) = Inr s' \<and> inv s' \<and> \<not> ready s' c"
proof -
  obtain t where t: "foldR (\<lambda>m. mask m c) ms s = Inr t" "inv t" "ready t c" using masks_ready [OF assms] by blast
  obtain u where u: "mask DisableAll c t = Inr u" "inv u" "ready u c" using mask_ready [OF t(2,3)] by blast
  with remove_idle [OF u(2,3) disableAll_idle [OF t(2,3) u(1)]] t(1) show ?thesis by (auto simp: foldR_append)
qed

end

definition rx_ready :: "'z Reactor_scheme \<Rightarrow> chan \<Rightarrow> bool" where
  "rx_ready s c \<longleftrightarrow> registered s c \<and> on_loop s c \<and> (rx_eventHandling s \<longrightarrow> rx_current s = Some c \<or> c \<notin> set (rx_active s))"

definition rx_idle :: "'z Reactor_scheme \<Rightarrow> chan \<Rightarrow> bool" where
  "rx_idle s c \<longleftrightarrow> isNoneEvent (heap s c) \<and> pfd_fd (entry_of s c) < 0"

lemma rx_mask_ready:
  assumes "poller_inv s" "rx_ready s c"
  obtains s' where "Channel_mask m c s = Inr s'" "poller_inv s'" "rx_ready s' c" "heap s' = heap (masked m c s)"
    "channels s' = channels s" "PollPoller.PollPoller.more s' = PollPoller.PollPoller.more s"
    "pfd_fd (entry_of s' c) =
       (if mask_of m (ch_events (heap s c)) = kNoneEvent then - ch_fd (heap s c) - 1 else pfd_fd (entry_of s c))"
proof -
  have r: "registered s c" "on_loop s c" using assms(2) by (simp_all add: rx_ready_def)
  obtain s' where s': "Channel_mask m c s = Inr s'" "poller_inv s'" "registered s' c" "on_loop s' c"
    "heap s' = heap (masked m c s)" "channels s' = channels s" "PollPoller.PollPoller.more s' = PollPoller.PollPoller.more s"
    "pfd_fd (entry_of s' c) =
       (if mask_of m (ch_events (heap s c)) = kNoneEvent then - ch_fd (heap s c) - 1 else pfd_fd (entry_of s c))"
    using Channel_mask_registered [OF assms(1) r(2,1), of m] by blast
  moreover have "rx_ready s' c" using s'(3,4) reactor_fields [OF s'(7)] assms(2) by (simp add: rx_ready_def)
  ultimately show ?thesis using that by blast
qed

lemma rx_disableAll_idle:
  assumes "poller_inv s" "rx_ready s c" "Channel_mask DisableAll c s = Inr s'"
  shows "rx_idle s' c"
proof -
  have fd: "0 \<le> ch_fd (heap s c)"
    using assms(1,2) structD(1) [of s "ch_fd (heap s c)" c] by (simp add: poller_inv_def rx_ready_def registered_def)
  obtain t where "Channel_mask DisableAll c s = Inr t" "heap t = heap (masked DisableAll c s)"
    "pfd_fd (entry_of t c) = - ch_fd (heap s c) - 1"
    by (rule rx_mask_ready [OF assms(1,2), of DisableAll]) (simp only: mask_of.simps if_True simp_thms)
  with assms(3) fd show ?thesis by (simp add: rx_idle_def isNoneEvent_def)
qed

interpretation registry: channel_registry Channel_mask Channel_remove poller_inv rx_ready rx_idle
proof
  fix s :: "'z Reactor_scheme" and c m s'
  assume a: "poller_inv s" "rx_ready s c"
  show "\<exists>s'. Channel_mask m c s = Inr s' \<and> poller_inv s' \<and> rx_ready s' c" using rx_mask_ready [OF a] by blast
  show "Channel_mask DisableAll c s = Inr s' \<Longrightarrow> rx_idle s' c" by (rule rx_disableAll_idle [OF a])
  assume i: "rx_idle s c"
  have "\<exists>s'. Channel_remove c s = Inr s' \<and> poller_inv s' \<and> channels s' = (channels s)(ch_fd (heap s c) := None) \<and>
     (\<forall>d. \<exists>k. heap s' d = (heap s d)\<lparr>ch_index := k\<rparr>)"
    using Channel_remove_ok [of s c] a i by (auto simp: rx_ready_def rx_idle_def)
  then obtain s' k where "Channel_remove c s = Inr s'" "poller_inv s'" "channels s' = (channels s)(ch_fd (heap s c) := None)"
    "heap s' c = (heap s c)\<lparr>ch_index := k\<rparr>" by metis
  then show "\<exists>s'. Channel_remove c s = Inr s' \<and> poller_inv s' \<and> \<not> rx_ready s' c"
    by (intro exI [of _ s']) (simp add: rx_ready_def registered_def)
qed

text \<open>\<^verbatim>\<open>poll()\<close> keeps the registrations: it only stores the reported events.\<close>

lemma poller_inv_revents:
  assumes "poller_inv s" "poller_struct s'" "channels s' = channels s" "\<forall>d. \<exists>r. heap s' d = (heap s d)\<lparr>ch_revents := r\<rparr>"
    and "\<forall>i < length (pollfds s). \<exists>r. pollfds s' ! i = (pollfds s ! i)\<lparr>pfd_revents := r\<rparr>"
  shows "poller_inv s' \<and> (\<forall>d. registered s d \<longrightarrow> registered s' d \<and> (\<exists>r. entry_of s' d = (entry_of s d)\<lparr>pfd_revents := r\<rparr>))"
proof -
  have h: "ch_fd (heap s' d) = ch_fd (heap s d)" "ch_index (heap s' d) = ch_index (heap s d)"
    "ch_events (heap s' d) = ch_events (heap s d)" for d
    using assms(4) [rule_format, of d] by auto
  have r: "registered s' d = registered s d" for d using assms(3) by (simp add: registered_def h)
  have st: "poller_struct s" using assms(1) by (simp add: poller_inv_def)
  have e: "\<exists>r. entry_of s' d = (entry_of s d)\<lparr>pfd_revents := r\<rparr>" if "registered s d" for d
    using assms(5) structD(4) [OF st that [unfolded registered_def]] by (simp add: entry_of_def h)
  have "pfd_events (entry_of s' d) = ucast (ch_events (heap s' d))" if "registered s d" for d
  proof -
    from e [OF that] obtain x where "entry_of s' d = (entry_of s d)\<lparr>pfd_revents := x\<rparr>" ..
    then show ?thesis using assms(1) that by (simp add: poller_inv_def h)
  qed
  with assms(2) e r show ?thesis by (simp add: poller_inv_def)
qed

lemma PollPoller_poll_ok:
  assumes "poller_inv s" "poll_contract kp" "kp (pollfds s) = (n, rs)"
  shows "\<exists>s'. PollPoller_poll kp now s =
       Inr (now, if 0 < n then active_of (map2 (\<lambda>p r. p\<lparr>pfd_revents := r\<rparr>) (pollfds s) rs) s else [], s') \<and>
     poller_inv s' \<and> channels s' = channels s \<and> (\<forall>d. \<exists>r. heap s' d = (heap s d)\<lparr>ch_revents := r\<rparr>) \<and>
     (\<forall>d. registered s d \<longrightarrow> registered s' d \<and> (\<exists>r. entry_of s' d = (entry_of s d)\<lparr>pfd_revents := r\<rparr>)) \<and>
     PollPoller.PollPoller.more s' = PollPoller.PollPoller.more s"
proof -
  have st: "poller_struct s" using assms(1) by (simp add: poller_inv_def)
  have k: "length rs = length (pollfds s)"
    "\<forall>i < length (pollfds s). 0 \<le> sint (rs ! i) \<and> (pfd_fd (pollfds s ! i) < 0 \<longrightarrow> rs ! i = 0)"
    "0 < n \<Longrightarrow> n = int (length (filter (\<lambda>r. 0 < sint r) rs))"
    using assms(2,3) unfolding poll_contract_def by (auto dest!: spec [of _ "pollfds s"])
  define P where "P = map2 (\<lambda>p r. p\<lparr>pfd_revents := r\<rparr>) (pollfds s) rs"
  define s1 where "s1 = s\<lparr>pollfds := P\<rparr>"
  have st1: "poller_struct s1" unfolding s1_def P_def by (rule struct_revents [OF st k(1)])
  have P: "\<forall>i < length (pollfds s). \<exists>r. P ! i = (pollfds s ! i)\<lparr>pfd_revents := r\<rparr>" using k(1) by (auto simp: P_def)
  have "heap s d = (heap s d)\<lparr>ch_revents := ch_revents (heap s d)\<rparr>" for d by simp
  then have same: "\<forall>d. \<exists>r. heap s d = (heap s d)\<lparr>ch_revents := r\<rparr>" by (intro allI exI)
  show ?thesis
  proof (cases "0 < n")
    case False
    then show ?thesis
      using assms(3) poller_inv_revents [OF assms(1) st1, unfolded s1_def] same P
      by (auto simp: PollPoller_poll_def P_def [symmetric] s1_def)
  next
    case True
    have "map pfd_revents P = rs" using k(1) by (simp add: P_def list_eq_iff_nth_eq)
    then have "length (filter (\<lambda>r. 0 < sint r) rs) = length (filter (\<lambda>p. 0 < sint (pfd_revents p)) P)"
      by (metis (no_types, lifting) comp_apply filter_cong filter_map length_map)
    moreover have "\<forall>p \<in> set P. 0 < sint (pfd_revents p) \<longrightarrow> 0 \<le> pfd_fd p \<and> channels s1 (pfd_fd p) \<noteq> None"
    proof (intro ballI impI)
      fix p assume "p \<in> set P" "0 < sint (pfd_revents p)"
      then obtain i where i: "i < length (pollfds s)" "p = (pollfds s ! i)\<lparr>pfd_revents := rs ! i\<rparr>" "0 < sint (rs ! i)"
        using k(1) by (auto simp: P_def in_set_conv_nth)
      with k(2) have "0 \<le> pfd_fd (pollfds s ! i)" by force
      with struct_entry [OF st i(1)] i(2) show "0 \<le> pfd_fd p \<and> channels s1 (pfd_fd p) \<noteq> None"
        by (auto simp: watched_fd_def s1_def)
    qed
    ultimately obtain s' where s': "fillActiveChannels P n s1 [] = Inr (s', active_of P s1)" "poller_struct s'"
      "channels s' = channels s" "pollfds s' = P" "PollPoller.PollPoller.more s' = PollPoller.PollPoller.more s"
      "\<forall>d. \<exists>r. heap s' d = (heap s d)\<lparr>ch_revents := r\<rparr>"
      using fillActiveChannels_active [OF st1, of P n "[]"] k(3) [OF True] by (auto simp: s1_def)
    moreover have "active_of P s1 = active_of P s" by (simp add: active_of_def s1_def)
    ultimately show ?thesis
      using True assms(3) poller_inv_revents [OF assms(1) s'(2,3,6)] P by (simp add: PollPoller_poll_def P_def s1_def)
  qed
qed

lemma PollPoller_poll_active:
  assumes "poller_inv s" "poll_contract kp" "kp (pollfds s) = (n, rs)" "0 < n"
  shows "\<exists>active s'. PollPoller_poll kp now s = Inr (now, active, s') \<and> poller_struct s' \<and>
     channels s' = channels s \<and>
     active = active_of (map2 (\<lambda>p r. p\<lparr>pfd_revents := r\<rparr>) (pollfds s) rs) s \<and>
     (\<forall>c. registered s c \<longrightarrow> (c \<in> set active \<longleftrightarrow> 0 < sint (rs ! nat (ch_index (heap s c)))))"
proof -
  have st: "poller_struct s" using assms(1) by (simp add: poller_inv_def)
  have k: "length rs = length (pollfds s)"
    "\<forall>i < length (pollfds s). 0 \<le> sint (rs ! i) \<and> (pfd_fd (pollfds s ! i) < 0 \<longrightarrow> rs ! i = 0)"
    using assms(2-3) unfolding poll_contract_def by (auto dest!: spec [of _ "pollfds s"])
  show ?thesis
    using PollPoller_poll_ok [OF assms(1-3), of now] assms(4) active_iff [OF st k] by (auto simp: poller_inv_def)
qed

section \<open>Properties\<close>

text \<open>An example used by the witnesses: a loop with one channel on descriptor 7, not registered
  yet.\<close>

definition rx_example :: Reactor where
  "rx_example = \<lparr>pollfds = [], channels = (\<lambda>_. None), heap = (\<lambda>_. Channel_new 1 7), rx_loop = 1, rx_threadId = 4,
     rx_tid = 4, rx_eventHandling = False, rx_active = [], rx_current = None\<rparr>"

lemma rx_example_ok: "poller_inv rx_example" "on_loop rx_example 0" "fresh rx_example 0" "\<not> rx_eventHandling rx_example"
  by (simp_all add: rx_example_def poller_inv_def poller_struct_def registered_def on_loop_def isInLoopThread_def
      fresh_def Channel_new_def)

text \<open>C6: The life of a channel on its loop: a new channel, changed by any sequence of the five mask
  operations, then \<^verbatim>\<open>disableAll()\<close> and \<^verbatim>\<open>remove()\<close>, fails none of the assertions of the channel,
  the loop and the poller, and leaves the poller consistent and without the descriptor.\<close>

theorem channel_lifecycle:
  assumes "poller_inv s" "on_loop s c" "fresh s c" "\<not> rx_eventHandling s"
  shows "\<exists>s'. bindR (foldR (\<lambda>m. Channel_mask m c) (m # ms @ [DisableAll]) s) (Channel_remove c) = Inr s' \<and>
     poller_inv s' \<and> \<not> registered s' c"
proof -
  obtain t where t: "Channel_mask m c s = Inr t" "poller_inv t" "registered t c" "on_loop t c"
    "PollPoller.PollPoller.more t = PollPoller.PollPoller.more s"
    using Channel_mask_fresh [OF assms(1-3), of m] by blast
  then have r: "rx_ready t c" using assms(4) reactor_fields [OF t(5)] by (simp add: rx_ready_def)
  obtain u where u: "foldR (\<lambda>m. Channel_mask m c) (ms @ [DisableAll]) t = Inr u" "poller_inv u" "rx_ready u c"
    using registry.masks_ready [OF t(2) r] by blast
  then obtain v where v: "Channel_mask DisableAll c v = Inr u" "poller_inv v" "rx_ready v c"
    using registry.masks_ready [OF t(2) r, of ms] by (auto simp: foldR_append bindR_eq_Inr)
  obtain s' where s': "Channel_remove c u = Inr s'" "poller_inv s'" "channels s' = (channels u)(ch_fd (heap u c) := None)"
    "\<forall>d. \<exists>k. heap s' d = (heap u d)\<lparr>ch_index := k\<rparr>"
    using Channel_remove_ok [of u c] u(2,3) rx_disableAll_idle [OF v(2,3,1)] by (auto simp: rx_ready_def rx_idle_def)
  moreover obtain k where "heap s' c = (heap u c)\<lparr>ch_index := k\<rparr>" using s'(4) by blast
  then have "\<not> registered s' c" by (simp add: registered_def s'(3))
  ultimately show ?thesis using t(1) u(1) by simp
qed

theorem channel_lifecycle_witness:
  "\<exists>s'. bindR (foldR (\<lambda>m. Channel_mask m 0) [EnableReading, EnableWriting, DisableWriting, DisableAll] rx_example)
          (Channel_remove 0) = Inr s' \<and> poller_inv s' \<and> \<not> registered s' 0"
  using channel_lifecycle [OF rx_example_ok, of EnableReading "[EnableWriting, DisableWriting]"] by simp

text \<open>C7: \<^verbatim>\<open>poll()\<close> reports through the active list exactly the registered channels whose entry the
  kernel marked, in the order of the array, and none of its assertions fails.\<close>

theorem poll_reports_active:
  assumes "poller_inv s" "poll_contract kp" "kp (pollfds s) = (n, rs)" "0 < n"
  shows "\<exists>active s'. PollPoller_poll kp now s = Inr (now, active, s') \<and> poller_struct s' \<and>
     channels s' = channels s \<and>
     active = active_of (map2 (\<lambda>p r. p\<lparr>pfd_revents := r\<rparr>) (pollfds s) rs) s \<and>
     (\<forall>c. registered s c \<longrightarrow> (c \<in> set active \<longleftrightarrow> 0 < sint (rs ! nat (ch_index (heap s c)))))"
  by (rule PollPoller_poll_active [OF assms])

definition kp_example :: "pollfd list \<Rightarrow> int \<times> 16 word list" where
  "kp_example pfds =
     (let rs = map (\<lambda>p. if pfd_fd p < 0 then 0 else 1) pfds in (int (length (filter (\<lambda>r. 0 < sint r) rs)), rs))"

lemma kp_example_contract: "poll_contract kp_example"
  by (simp add: poll_contract_def kp_example_def Let_def)

theorem poll_reports_active_witness:
  "\<exists>s active s'. Channel_mask EnableReading 0 rx_example = Inr s \<and>
     PollPoller_poll kp_example (Timestamp 9) s = Inr (Timestamp 9, active, s') \<and> 0 \<in> set active"
proof -
  obtain s where s: "Channel_mask EnableReading 0 rx_example = Inr s" "poller_inv s" "registered s 0"
    "pfd_fd (entry_of s 0) = 7"
    using Channel_mask_fresh [OF rx_example_ok(1-3), of EnableReading] by (auto simp: rx_example_def Channel_new_def)
  define i where "i = nat (ch_index (heap s 0))"
  have i: "i < length (pollfds s)" "pfd_fd (pollfds s ! i) = 7"
    using s structD(4) [of s "ch_fd (heap s 0)" 0] by (simp_all add: poller_inv_def registered_def entry_of_def i_def)
  define rs where "rs = map (\<lambda>p. if pfd_fd p < 0 then 0 else (1 :: 16 word)) (pollfds s)"
  have "rs ! i = 1" "i < length rs" using i by (simp_all add: rs_def)
  then have "1 \<in> set rs" by (metis nth_mem)
  then have "filter (\<lambda>r. 0 < sint r) rs \<noteq> []" by (auto simp: filter_empty_conv intro!: bexI [of _ 1])
  then have n: "0 < int (length (filter (\<lambda>r. 0 < sint r) rs))" by simp
  have k: "kp_example (pollfds s) = (int (length (filter (\<lambda>r. 0 < sint r) rs)), rs)"
    by (simp add: kp_example_def rs_def Let_def)
  from poll_reports_active [OF s(2) kp_example_contract k n, of "Timestamp 9"] s(1,3) \<open>rs ! i = 1\<close>
  show ?thesis by (fastforce simp: i_def)
qed

text \<open>C8: A channel that was disabled completely is never reported again: whatever it enables
  afterwards, its entry keeps the negative descriptor, so no \<^verbatim>\<open>poll()\<close> puts it on the active list,
  although its mask asks for events.\<close>

theorem reenabled_channel_ignored:
  assumes "poller_inv s" "rx_ready s c" "poll_contract kp"
  shows "\<exists>s'. foldR (\<lambda>m. Channel_mask m c) (DisableAll # ms) s = Inr s' \<and> registered s' c \<and>
     ch_events (heap s' c) = fold mask_of ms kNoneEvent \<and>
     (\<forall>active s''. PollPoller_poll kp now s' = Inr (now, active, s'') \<longrightarrow> c \<notin> set active)"
proof -
  have step: "\<exists>s'. foldR (\<lambda>m. Channel_mask m c) ms t = Inr s' \<and> poller_inv s' \<and> rx_ready s' c \<and>
      pfd_fd (entry_of s' c) < 0 \<and> ch_events (heap s' c) = fold mask_of ms (ch_events (heap t c))"
    if "poller_inv t" "rx_ready t c" "pfd_fd (entry_of t c) < 0" for t
    using that
  proof (induction ms arbitrary: t)
    case (Cons m ms)
    have fd: "0 \<le> ch_fd (heap t c)"
      using Cons.prems structD(1) [of t "ch_fd (heap t c)" c] by (simp add: poller_inv_def rx_ready_def registered_def)
    obtain u where u: "Channel_mask m c t = Inr u" "poller_inv u" "rx_ready u c" "heap u = heap (masked m c t)"
      "pfd_fd (entry_of u c) < 0"
      by (rule rx_mask_ready [OF Cons.prems(1,2), of m]) (use fd Cons.prems(3) in auto)
    with Cons.IH [OF u(2,3,5)] show ?case by simp
  qed simp
  obtain t where t: "Channel_mask DisableAll c s = Inr t" "poller_inv t" "rx_ready t c"
    using registry.mask_ready [OF assms(1,2)] by blast
  have idle: "rx_idle t c" by (rule rx_disableAll_idle [OF assms(1,2) t(1)])
  then obtain s' where s': "foldR (\<lambda>m. Channel_mask m c) ms t = Inr s'" "poller_inv s'" "registered s' c"
    "pfd_fd (entry_of s' c) < 0" "ch_events (heap s' c) = fold mask_of ms kNoneEvent"
    using step [OF t(2,3)] by (auto simp: rx_idle_def isNoneEvent_def rx_ready_def)
  have "c \<notin> set active" if p: "PollPoller_poll kp now s' = Inr (now, active, s'')" for active s''
  proof (cases "0 < fst (kp (pollfds s'))")
    case True
    obtain n rs where k: "kp (pollfds s') = (n, rs)" by (cases "kp (pollfds s')")
    have i: "nat (ch_index (heap s' c)) < length (pollfds s')"
      using s'(2,3) structD(4) [of s' "ch_fd (heap s' c)" c] by (simp add: poller_inv_def registered_def)
    have "rs ! nat (ch_index (heap s' c)) = 0"
      using assms(3) k i s'(4) unfolding poll_contract_def by (auto simp: entry_of_def dest!: spec [of _ "pollfds s'"])
    with PollPoller_poll_active [OF s'(2) assms(3) k, of now] True k p s'(3) show ?thesis by fastforce
  next
    case False
    with p show ?thesis by (auto simp: PollPoller_poll_def split: prod.splits)
  qed
  with t(1) s' show ?thesis by auto
qed

theorem reenabled_channel_ignored_witness:
  "\<exists>s s'. Channel_mask EnableReading 0 rx_example = Inr s \<and>
     foldR (\<lambda>m. Channel_mask m 0) [DisableAll, EnableReading] s = Inr s' \<and>
     ch_events (heap s' 0) = kReadEvent \<and>
     (\<forall>active s''. PollPoller_poll kp_example (Timestamp 1) s' = Inr (Timestamp 1, active, s'') \<longrightarrow> 0 \<notin> set active)"
proof -
  obtain s where s: "Channel_mask EnableReading 0 rx_example = Inr s" "poller_inv s" "registered s 0" "on_loop s 0"
    "PollPoller.PollPoller.more s = PollPoller.PollPoller.more rx_example"
    using Channel_mask_fresh [OF rx_example_ok(1-3), of EnableReading] by auto
  then have "rx_ready s 0" using rx_example_ok(4) reactor_fields [OF s(5)] by (simp add: rx_ready_def)
  from reenabled_channel_ignored [OF s(2) this kp_example_contract, of "[EnableReading]" "Timestamp 1"] s(1)
  show ?thesis by (fastforce simp: kNoneEvent_def)
qed

text \<open>A channel whose only update is \<^verbatim>\<open>disableAll()\<close> (the \<^verbatim>\<open>Acceptor\<close> that is destroyed before it
  listens) is registered with a positive descriptor, and its \<^verbatim>\<open>remove()\<close> fails the poller's assertion.\<close>

theorem fresh_disable_remove_aborts:
  assumes "poller_inv s" "on_loop s c" "fresh s c" "\<not> rx_eventHandling s"
  shows "bindR (Channel_mask DisableAll c s) (Channel_remove c) = Inl (AssertFailed ''pfd.fd == -fd-1'')"
proof -
  obtain t where t: "Channel_mask DisableAll c s = Inr t" "poller_inv t" "registered t c" "on_loop t c"
    "PollPoller.PollPoller.more t = PollPoller.PollPoller.more s" "ch_events (heap t c) = kNoneEvent"
    "pfd_fd (entry_of t c) = ch_fd (heap s c)" "ch_fd (heap t c) = ch_fd (heap s c)"
    using Channel_mask_fresh [OF assms(1-3), of DisableAll] by auto
  have st: "poller_struct t" using t(2) by (simp add: poller_inv_def)
  note c = structD [OF st t(3) [unfolded registered_def]]
  have "removeChannel c t = Inl (AssertFailed ''pfd.fd == -fd-1'')"
    using t(3,6-8) c assms(3) struct_size [OF st]
    by (simp add: removeChannel_def Let_def registered_def isNoneEvent_def entry_of_def fresh_def)
  then show ?thesis
    using t assms(4) reactor_fields [OF t(5)]
    by (simp add: Channel_remove_def EventLoop_removeChannel_def isNoneEvent_def) (simp add: on_loop_def)
qed

theorem fresh_disable_remove_aborts_witness:
  "bindR (Channel_mask DisableAll 0 rx_example) (Channel_remove 0) = Inl (AssertFailed ''pfd.fd == -fd-1'')"
  by (rule fresh_disable_remove_aborts [OF rx_example_ok])

end
