(* ===== verification/TimerQueue.thy ===== *)
theory TimerQueue
  imports Timestamp "HOL-Library.Product_Lexorder"
begin

text \<open>
  Timers (\<^verbatim>\<open>src/net/Timer.h\<close>, \<^verbatim>\<open>src/net/Timer.cc\<close>, \<^verbatim>\<open>src/net/TimerId.h\<close>, \<^verbatim>\<open>src/net/TimerQueue.h\<close>,
  \<^verbatim>\<open>src/net/TimerQueue.cc\<close>). The \<^verbatim>\<open>std::set\<close> of entries, which is walked in its order, is a strictly sorted list;
  the two sets that are only searched are sets. Timers live on a heap: \<^verbatim>\<open>delete\<close> removes the
  object and a later access to it is a fault, so the theorems also exclude a use after
  the deletion. The timerfd is the value last given to \<^verbatim>\<open>timerfd_settime\<close>. A callback is the
  list of calls it makes on the queue, which may depend on the state; the clock readings
  are arguments. All functions run in the loop thread; \<^verbatim>\<open>addTimer\<close> and \<^verbatim>\<open>cancel\<close> reach them from other
  threads through the functor queue of theory \<open>EventLoop\<close>.
\<close>

section \<open>Timer and TimerId\<close>

record Timer =
  tm_callback :: nat
  tm_expiration :: Timestamp
  tm_interval :: rat
  tm_repeat :: bool
  tm_sequence :: int

definition Timer_new :: "nat \<Rightarrow> Timestamp \<Rightarrow> rat \<Rightarrow> int \<Rightarrow> Timer" where
  "Timer_new cb w interval created =
     \<lparr>tm_callback = cb, tm_expiration = w, tm_interval = interval, tm_repeat = (interval > 0),
      tm_sequence = created + 1\<rparr>"

definition Timer_restart :: "(rat \<Rightarrow> rat) \<Rightarrow> Timestamp \<Rightarrow> Timer \<Rightarrow> Timer" where
  "Timer_restart fl now t =
     t\<lparr>tm_expiration := (if tm_repeat t then addTime fl now (tm_interval t) else Timestamp_invalid)\<rparr>"

type_synonym addr = nat
type_synonym TimerId = "addr \<times> int"
type_synonym entry = "Timestamp \<times> addr"

definition UINTPTR_MAX :: nat where
  "UINTPTR_MAX = 2 ^ 64 - 1"

section \<open>The queue\<close>

record TimerQueue =
  timers :: "entry list"
  activeTimers :: "TimerId set"
  callingExpiredTimers :: bool
  cancelingTimers :: "TimerId set"
  theap :: "addr \<rightharpoonup> Timer"
  numCreated :: int
  timerfd :: "(int \<times> int) option"

definition howMuchTimeFromNow :: "Timestamp \<Rightarrow> Timestamp \<Rightarrow> int \<times> int" where
  "howMuchTimeFromNow now w =
     (let us = microSecondsSinceEpoch w - microSecondsSinceEpoch now;
          us = (if us < 100 then 100 else us)
      in (us sdiv kMicroSecondsPerSecond, (us smod kMicroSecondsPerSecond) * 1000))"

definition resetTimerfd :: "Timestamp \<Rightarrow> Timestamp \<Rightarrow> TimerQueue \<Rightarrow> TimerQueue" where
  "resetTimerfd now expiration q = q\<lparr>timerfd := Some (howMuchTimeFromNow now expiration)\<rparr>"

text \<open>Access through a pointer.\<close>

definition deref :: "addr \<Rightarrow> TimerQueue \<Rightarrow> Timer res" where
  "deref a q = (case theap q a of None \<Rightarrow> Inl OutOfBounds | Some t \<Rightarrow> Inr t)"

definition sizes_match :: "TimerQueue \<Rightarrow> unit res" where
  "sizes_match q = assertR (length (timers q) = card (activeTimers q)) ''timers_.size() == activeTimers_.size()''"

definition TimerQueue_insert :: "addr \<Rightarrow> TimerQueue \<Rightarrow> (bool \<times> TimerQueue) res" where
  "TimerQueue_insert timer q =
     bindR (sizes_match q) (\<lambda>_.
     bindR (deref timer q) (\<lambda>t.
     let w = tm_expiration t;
         earliestChanged = (case timers q of [] \<Rightarrow> True | e # _ \<Rightarrow> Timestamp_lt w (fst e))
     in
     bindR (assertR ((w, timer) \<notin> set (timers q)) ''result.second'') (\<lambda>_.
     let q1 = q\<lparr>timers := insort (w, timer) (timers q)\<rparr> in
     bindR (assertR ((timer, tm_sequence t) \<notin> activeTimers q1) ''result.second'') (\<lambda>_.
     let q2 = q1\<lparr>activeTimers := insert (timer, tm_sequence t) (activeTimers q1)\<rparr> in
     bindR (sizes_match q2) (\<lambda>_. Inr (earliestChanged, q2))))))"

definition addTimerInLoop :: "Timestamp \<Rightarrow> addr \<Rightarrow> TimerQueue \<Rightarrow> TimerQueue res" where
  "addTimerInLoop now timer q =
     bindR (TimerQueue_insert timer q) (\<lambda>(earliestChanged, q1).
     if earliestChanged then bindR (deref timer q1) (\<lambda>t. Inr (resetTimerfd now (tm_expiration t) q1))
     else Inr q1)"

text \<open>\<^verbatim>\<open>addTimer\<close> in the loop thread: \<^verbatim>\<open>new\<close> delivers the address \<open>a\<close>.\<close>

definition new_timer :: "addr \<Rightarrow> nat \<Rightarrow> Timestamp \<Rightarrow> rat \<Rightarrow> TimerQueue \<Rightarrow> TimerQueue" where
  "new_timer a cb w interval q =
     q\<lparr>theap := (theap q)(a \<mapsto> Timer_new cb w interval (numCreated q)), numCreated := numCreated q + 1\<rparr>"

definition addTimer :: "Timestamp \<Rightarrow> addr \<Rightarrow> nat \<Rightarrow> Timestamp \<Rightarrow> rat \<Rightarrow> TimerQueue \<Rightarrow> (TimerId \<times> TimerQueue) res" where
  "addTimer now a cb w interval q =
     (let q1 = new_timer a cb w interval q in
      bindR (addTimerInLoop now a q1) (\<lambda>q2.
      bindR (deref a q2) (\<lambda>t. Inr ((a, tm_sequence t), q2))))"

definition cancelInLoop :: "TimerId \<Rightarrow> TimerQueue \<Rightarrow> TimerQueue res" where
  "cancelInLoop timer q =
     bindR (sizes_match q) (\<lambda>_.
     bindR (if timer \<in> activeTimers q then
              bindR (deref (fst timer) q) (\<lambda>t.
              let e = (tm_expiration t, fst timer) in
              bindR (assertR (e \<in> set (timers q)) ''n == 1'') (\<lambda>_.
              Inr (q\<lparr>timers := remove1 e (timers q), theap := (theap q)(fst timer := None),
                     activeTimers := activeTimers q - {timer}\<rparr>)))
            else if callingExpiredTimers q then Inr (q\<lparr>cancelingTimers := insert timer (cancelingTimers q)\<rparr>)
            else Inr q) (\<lambda>q1.
     bindR (sizes_match q1) (\<lambda>_. Inr q1)))"

definition erase_active :: "entry \<Rightarrow> TimerQueue \<Rightarrow> TimerQueue res" where
  "erase_active e q =
     bindR (deref (snd e) q) (\<lambda>t.
     bindR (assertR ((snd e, tm_sequence t) \<in> activeTimers q) ''n == 1'') (\<lambda>_.
     Inr (q\<lparr>activeTimers := activeTimers q - {(snd e, tm_sequence t)}\<rparr>)))"

text \<open>\<^verbatim>\<open>lower_bound(sentry)\<close> splits the sorted entries at the first one that is not below the
  sentry.\<close>

definition getExpired :: "Timestamp \<Rightarrow> TimerQueue \<Rightarrow> (entry list \<times> TimerQueue) res" where
  "getExpired now q =
     bindR (sizes_match q) (\<lambda>_.
     let sentry = (now, UINTPTR_MAX);
         expired = takeWhile (\<lambda>e. e < sentry) (timers q);
         rest = dropWhile (\<lambda>e. e < sentry) (timers q)
     in
     bindR (assertR (rest = [] \<or> Timestamp_lt now (fst (hd rest))) ''end == timers_.end() || now < end->first'') (\<lambda>_.
     bindR (foldR erase_active expired (q\<lparr>timers := rest\<rparr>)) (\<lambda>q1.
     bindR (sizes_match q1) (\<lambda>_. Inr (expired, q1)))))"

definition reset_one :: "(rat \<Rightarrow> rat) \<Rightarrow> Timestamp \<Rightarrow> entry \<Rightarrow> TimerQueue \<Rightarrow> TimerQueue res" where
  "reset_one fl now e q =
     bindR (deref (snd e) q) (\<lambda>t.
     if tm_repeat t \<and> (snd e, tm_sequence t) \<notin> cancelingTimers q
     then bindR (TimerQueue_insert (snd e) (q\<lparr>theap := (theap q)(snd e \<mapsto> Timer_restart fl now t)\<rparr>)) (\<lambda>(_, q1). Inr q1)
     else Inr (q\<lparr>theap := (theap q)(snd e := None)\<rparr>))"

definition TimerQueue_reset ::
    "(rat \<Rightarrow> rat) \<Rightarrow> entry list \<Rightarrow> Timestamp \<Rightarrow> Timestamp \<Rightarrow> TimerQueue \<Rightarrow> TimerQueue res" where
  "TimerQueue_reset fl expired now now2 q =
     bindR (foldR (reset_one fl now) expired q) (\<lambda>q1.
     bindR (case timers q1 of
              [] \<Rightarrow> Inr Timestamp_invalid
            | e # _ \<Rightarrow> bindR (deref (snd e) q1) (\<lambda>t. Inr (tm_expiration t))) (\<lambda>nextExpire.
     Inr (if Timestamp_valid nextExpire then resetTimerfd now2 nextExpire q1 else q1)))"

text \<open>What a callback does to the queue, in the loop thread: timers it adds (at the address \<^verbatim>\<open>new\<close>
  delivers, with the clock it reads) and timers it cancels.\<close>

datatype tq_call =
    CallAdd Timestamp addr nat Timestamp rat
  | CallCancel TimerId

fun do_call :: "tq_call \<Rightarrow> TimerQueue \<Rightarrow> TimerQueue res" where
  "do_call (CallAdd now a cb w interval) q = bindR (addTimer now a cb w interval q) (\<lambda>(_, q1). Inr q1)"
| "do_call (CallCancel i) q = cancelInLoop i q"

definition Timer_run :: "(nat \<Rightarrow> TimerQueue \<Rightarrow> tq_call list) \<Rightarrow> entry \<Rightarrow> TimerQueue \<Rightarrow> TimerQueue res" where
  "Timer_run cbs e q = bindR (deref (snd e) q) (\<lambda>t. foldR do_call (cbs (tm_callback t) q) q)"

definition TimerQueue_handleRead ::
    "(rat \<Rightarrow> rat) \<Rightarrow> (nat \<Rightarrow> TimerQueue \<Rightarrow> tq_call list) \<Rightarrow> Timestamp \<Rightarrow> Timestamp \<Rightarrow> TimerQueue \<Rightarrow> TimerQueue res" where
  "TimerQueue_handleRead fl cbs now now2 q =
     bindR (getExpired now q) (\<lambda>(expired, q1).
     bindR (foldR (Timer_run cbs) expired (q1\<lparr>callingExpiredTimers := True, cancelingTimers := {}\<rparr>)) (\<lambda>q2.
     TimerQueue_reset fl expired now now2 (q2\<lparr>callingExpiredTimers := False\<rparr>)))"

definition TimerQueue_new :: TimerQueue where
  "TimerQueue_new = \<lparr>timers = [], activeTimers = {}, callingExpiredTimers = False, cancelingTimers = {},
     theap = (\<lambda>_. None), numCreated = 0, timerfd = None\<rparr>"

section \<open>Invariant\<close>

text \<open>\<open>fl\<close> are the entries of the timers outside the queue, which are being run or wait for their
  insertion: they are allocated, have the expiration of the entry, and are in none of the sets.\<close>

definition entry_ok :: "TimerQueue \<Rightarrow> entry \<Rightarrow> bool" where
  "entry_ok q e \<longleftrightarrow> (\<exists>t. theap q (snd e) = Some t \<and> tm_expiration t = fst e) \<and> snd e < UINTPTR_MAX"

definition seq_of :: "TimerQueue \<Rightarrow> addr \<Rightarrow> int" where
  "seq_of q a = (case theap q a of None \<Rightarrow> 0 | Some t \<Rightarrow> tm_sequence t)"

definition tq_inv :: "entry list \<Rightarrow> TimerQueue \<Rightarrow> bool" where
  "tq_inv fl q \<longleftrightarrow>
     sorted (timers q) \<and> distinct (map snd (fl @ timers q)) \<and>
     (\<forall>e \<in> set (fl @ timers q). entry_ok q e) \<and>
     activeTimers q = (\<lambda>e. (snd e, seq_of q (snd e))) ` set (timers q) \<and>
     (\<forall>a t. theap q a = Some t \<longrightarrow> tm_sequence t \<le> numCreated q)"

lemma tq_invD:
  assumes "tq_inv fl q"
  shows "sorted (timers q)" "distinct (map snd (fl @ timers q))" "e \<in> set (fl @ timers q) \<Longrightarrow> entry_ok q e"
    "activeTimers q = (\<lambda>e. (snd e, seq_of q (snd e))) ` set (timers q)"
    "theap q a = Some t \<Longrightarrow> tm_sequence t \<le> numCreated q"
  using assms unfolding tq_inv_def by blast+

section \<open>Single operations\<close>

lemma tq_sizes: "tq_inv fl q \<Longrightarrow> sizes_match q = Inr ()"
proof -
  assume i: "tq_inv fl q"
  then have d: "distinct (map snd (timers q))" by (simp add: tq_inv_def)
  then have "inj_on (\<lambda>e. (snd e, seq_of q (snd e))) (set (timers q))"
    by (auto simp: inj_on_def distinct_map dest: inj_onD)
  then have "card (activeTimers q) = length (timers q)"
    using i d distinct_card [of "timers q"] by (simp add: tq_inv_def card_image distinct_map)
  then show ?thesis by (simp add: sizes_match_def assertR_def)
qed

lemma seq_of_upd:
  "seq_of (q\<lparr>theap := h\<rparr>) a = (case h a of None \<Rightarrow> 0 | Some t \<Rightarrow> tm_sequence t)"
  by (simp add: seq_of_def)

text \<open>The invariant depends on the timers, the set of active ones and, per address in use, on
  the heap.\<close>

lemma tq_inv_heap:
  assumes "tq_inv fl q" "timers q' = timers q" "activeTimers q' = activeTimers q" "numCreated q \<le> numCreated q'"
    and "\<And>a. a \<in> snd ` set (fl' @ timers q) \<Longrightarrow> theap q' a = theap q a"
    and "\<And>a t. theap q' a = Some t \<Longrightarrow> theap q a = Some t \<or> tm_sequence t \<le> numCreated q'"
    and "set fl' \<subseteq> set fl" "distinct (map snd fl')"
  shows "tq_inv fl' q'"
proof -
  have "seq_of q' a = seq_of q a" if "a \<in> snd ` set (timers q)" for a
    using assms(5) [of a] that by (simp add: seq_of_def image_Un)
  then have "activeTimers q' = (\<lambda>e. (snd e, seq_of q' (snd e))) ` set (timers q')"
    using assms(1-3) by (auto simp: tq_inv_def)
  moreover have "entry_ok q' e" if "e \<in> set (fl' @ timers q)" for e
    using assms(1,7) assms(5) [of "snd e"] that unfolding tq_inv_def entry_ok_def
    by (metis (no_types, lifting) Un_iff image_eqI set_append subset_iff)
  moreover have "distinct (map snd (fl' @ timers q))" using assms(1,7,8) by (auto simp: tq_inv_def)
  moreover have "tm_sequence t \<le> numCreated q'" if "theap q' a = Some t" for a t
    using assms(1,4) assms(6) [OF that] by (force simp: tq_inv_def)
  ultimately show ?thesis using assms(1,2) by (simp add: tq_inv_def)
qed

lemma TimerQueue_insert_ok:
  assumes i: "tq_inv fl q" and t: "theap q a = Some t" and a: "a \<notin> snd ` set (fl @ timers q)" "a < UINTPTR_MAX"
  shows "TimerQueue_insert a q =
      Inr (timers q = [] \<or> tm_expiration t < fst (hd (timers q)),
           q\<lparr>timers := insort (tm_expiration t, a) (timers q),
             activeTimers := insert (a, tm_sequence t) (activeTimers q)\<rparr>) \<and>
    tq_inv fl (q\<lparr>timers := insort (tm_expiration t, a) (timers q),
             activeTimers := insert (a, tm_sequence t) (activeTimers q)\<rparr>)" (is "_ \<and> tq_inv fl ?q")
proof -
  have "sorted (timers q)" "distinct (map snd (fl @ timers q))" "\<forall>e \<in> set (fl @ timers q). entry_ok q e"
    "activeTimers q = (\<lambda>e. (snd e, seq_of q (snd e))) ` set (timers q)"
    using i by (auto simp: tq_inv_def)
  moreover have "distinct (map snd (insort e xs)) = distinct (map snd (e # xs))" for e :: entry and xs
    by (induction xs) (auto simp: set_insort_key)
  moreover have "entry_ok ?q e = entry_ok q e" "seq_of ?q b = seq_of q b" for e b
    by (simp_all add: entry_ok_def seq_of_def)
  moreover have "entry_ok q (tm_expiration t, a)" "seq_of q a = tm_sequence t"
    using t a(2) by (simp_all add: entry_ok_def seq_of_def)
  ultimately have inv: "tq_inv fl ?q"
    using i a(1) unfolding tq_inv_def by (auto simp: sorted_insort set_insort_key)
  have "(tm_expiration t, a) \<notin> set (timers q)" using a(1) by force
  moreover have "(a, tm_sequence t) \<notin> activeTimers q" unfolding tq_invD(4) [OF i] using a(1) by force
  ultimately have "TimerQueue_insert a q = Inr (timers q = [] \<or> tm_expiration t < fst (hd (timers q)), ?q)"
    using t tq_sizes [OF i] tq_sizes [OF inv]
    by (cases "timers q") (simp_all add: TimerQueue_insert_def deref_def Let_def Timestamp_lt_less)
  with inv show ?thesis by blast
qed

lemma addTimerInLoop_ok:
  assumes "tq_inv fl q" "theap q a = Some t" "a \<notin> snd ` set (fl @ timers q)" "a < UINTPTR_MAX"
  shows "\<exists>q'. addTimerInLoop now a q = Inr q' \<and> tq_inv fl q' \<and>
     timers q' = insort (tm_expiration t, a) (timers q) \<and> theap q' = theap q \<and>
     callingExpiredTimers q' = callingExpiredTimers q \<and> cancelingTimers q' = cancelingTimers q \<and>
     timerfd q' = (if timers q = [] \<or> tm_expiration t < fst (hd (timers q))
                   then Some (howMuchTimeFromNow now (tm_expiration t)) else timerfd q)"
proof -
  note ins = TimerQueue_insert_ok [OF assms]
  have "tq_inv fl (resetTimerfd n w q')" if "tq_inv fl q'" for n w q'
    using that by (intro tq_inv_heap [OF that]) (auto simp: resetTimerfd_def tq_inv_def)
  then show ?thesis
    using ins assms(2) by (auto simp: addTimerInLoop_def deref_def resetTimerfd_def)
qed

lemma new_timer_inv:
  assumes "tq_inv fl q" "theap q a = None"
  shows "tq_inv fl (new_timer a cb w interval q)" "a \<notin> snd ` set (fl @ timers q)"
proof -
  show n: "a \<notin> snd ` set (fl @ timers q)" 
  proof
    assume "a \<in> snd ` set (fl @ timers q)"
    then obtain e where e: "e \<in> set (fl @ timers q)" "snd e = a" by blast
    from tq_invD(3) [OF assms(1) e(1)] e(2) assms(2) show False by (simp add: entry_ok_def)
  qed
  show "tq_inv fl (new_timer a cb w interval q)"
  proof (rule tq_inv_heap [OF assms(1)])
    show "distinct (map snd fl)" using assms(1) by (simp add: tq_inv_def)
    show "theap (new_timer a cb w interval q) b = theap q b" if "b \<in> snd ` set (fl @ timers q)" for b
      using n that by (auto simp: new_timer_def)
    show "theap q b = Some t \<or> tm_sequence t \<le> numCreated (new_timer a cb w interval q)"
      if "theap (new_timer a cb w interval q) b = Some t" for b t
      using that by (auto simp: new_timer_def Timer_new_def split: if_splits)
  qed (simp_all add: new_timer_def)
qed

lemma addTimer_ok:
  assumes "tq_inv fl q" "theap q a = None" "a < UINTPTR_MAX"
  shows "\<exists>q'. addTimer now a cb w interval q = Inr ((a, numCreated q + 1), q') \<and> tq_inv fl q' \<and>
     timers q' = insort (w, a) (timers q) \<and> theap q' = (theap q)(a \<mapsto> Timer_new cb w interval (numCreated q)) \<and>
     callingExpiredTimers q' = callingExpiredTimers q \<and> cancelingTimers q' = cancelingTimers q"
proof -
  define q1 where "q1 = new_timer a cb w interval q"
  have q1: "theap q1 a = Some (Timer_new cb w interval (numCreated q))" "timers q1 = timers q"
    "theap q1 = (theap q)(a \<mapsto> Timer_new cb w interval (numCreated q))"
    "callingExpiredTimers q1 = callingExpiredTimers q" "cancelingTimers q1 = cancelingTimers q"
    by (simp_all add: q1_def new_timer_def)
  have inv: "tq_inv fl q1" "a \<notin> snd ` set (fl @ timers q1)"
    using new_timer_inv [OF assms(1,2)] q1(2) by (simp_all add: q1_def)
  obtain q2 where q2: "addTimerInLoop now a q1 = Inr q2" "tq_inv fl q2" "timers q2 = insort (w, a) (timers q)"
    "theap q2 = theap q1" "callingExpiredTimers q2 = callingExpiredTimers q1" "cancelingTimers q2 = cancelingTimers q1"
    using addTimerInLoop_ok [OF inv(1) q1(1) inv(2) assms(3), of now] by (auto simp: q1(2) Timer_new_def)
  then show ?thesis
    using q1 by (auto simp: addTimer_def q1_def [symmetric] deref_def Timer_new_def)
qed

lemma cancelInLoop_ok:
  assumes i: "tq_inv fl q"
  shows "\<exists>q'. cancelInLoop j q = Inr q' \<and> tq_inv fl q' \<and> callingExpiredTimers q' = callingExpiredTimers q \<and>
     numCreated q' = numCreated q \<and>
     (if j \<in> activeTimers q
      then set (timers q') = {e \<in> set (timers q). snd e \<noteq> fst j} \<and> theap q' = (theap q)(fst j := None) \<and>
        cancelingTimers q' = cancelingTimers q
      else timers q' = timers q \<and> theap q' = theap q \<and>
        cancelingTimers q' = (if callingExpiredTimers q then insert j (cancelingTimers q) else cancelingTimers q))"
proof (cases "j \<in> activeTimers q")
  case True
  obtain e where e: "e \<in> set (timers q)" "j = (snd e, seq_of q (snd e))" using i True by (auto simp: tq_inv_def)
  then have "entry_ok q e" using i by (simp add: tq_inv_def)
  then obtain t where t: "theap q (snd e) = Some t" "tm_expiration t = fst e" by (auto simp: entry_ok_def)
  define q' where "q' = q\<lparr>timers := remove1 e (timers q), theap := (theap q)(fst j := None),
      activeTimers := activeTimers q - {j}\<rparr>"
  have d: "distinct (map snd (timers q))" "distinct (timers q)" using i by (auto simp: tq_inv_def distinct_map)
  then have rest: "set (remove1 e (timers q)) = {x \<in> set (timers q). snd x \<noteq> snd e}"
    using e(1) by (auto simp: set_remove1_eq distinct_map dest: inj_onD)
  define q1 where "q1 = q\<lparr>timers := remove1 e (timers q), activeTimers := activeTimers q - {j}\<rparr>"
  have "tq_inv fl q1"
  proof -
    have "activeTimers q1 = (\<lambda>e. (snd e, seq_of q1 (snd e))) ` set (timers q1)"
      using i e(2) by (auto simp: q1_def tq_inv_def rest seq_of_def)
    moreover have "distinct (map snd (fl @ remove1 e (timers q)))"
      using i by (auto simp: tq_inv_def distinct_map inj_on_def rest intro!: distinct_remove1)
    moreover have "\<forall>x \<in> set (fl @ remove1 e (timers q)). entry_ok q1 x"
      using i by (auto simp: tq_inv_def rest entry_ok_def q1_def)
    ultimately show ?thesis using i by (auto simp: tq_inv_def q1_def sorted_remove1)
  qed
  moreover have gone: "snd e \<notin> snd ` set (fl @ remove1 e (timers q))"
    using tq_invD(2) [OF i] e(1) by (auto simp: rest)
  ultimately have inv: "tq_inv fl q'"
  proof (intro tq_inv_heap [of fl q1 q'])
    show "distinct (map snd fl)" using tq_invD(2) [OF i] by simp
    show "theap q' b = theap q1 b" if "b \<in> snd ` set (fl @ timers q1)" for b
    proof -
      have "b \<noteq> snd e"
      proof
        assume "b = snd e"
        with that gone show False by (simp add: q1_def)
      qed
      then show ?thesis by (simp add: q1_def q'_def e(2))
    qed
  qed (auto simp: q1_def q'_def e(2) split: if_splits)
  have "cancelInLoop j q = Inr q'"
    using True e t tq_sizes [OF i] tq_sizes [OF inv] by (simp add: cancelInLoop_def deref_def Let_def q'_def)
  with inv True rest e(2) show ?thesis by (simp add: q'_def)
next
  case False
  define q' where "q' = (if callingExpiredTimers q then q\<lparr>cancelingTimers := insert j (cancelingTimers q)\<rparr> else q)"
  have "timers q' = timers q" "activeTimers q' = activeTimers q" "numCreated q' = numCreated q" "theap q' = theap q"
    by (simp_all add: q'_def)
  then have inv: "tq_inv fl q'" using tq_invD(2) [OF i] by (intro tq_inv_heap [OF i]) auto
  have "cancelInLoop j q = Inr q'"
    using False tq_sizes [OF i] tq_sizes [OF inv]
    by (cases "callingExpiredTimers q") (simp_all add: cancelInLoop_def q'_def)
  with inv False show ?thesis by (simp add: q'_def)
qed

section \<open>Expiry\<close>

lemma takeWhile_sorted:
  assumes "sorted xs" "\<And>x y. x \<in> set xs \<Longrightarrow> y \<in> set xs \<Longrightarrow> x \<le> y \<Longrightarrow> P y \<Longrightarrow> P x"
  shows "takeWhile P xs = filter P xs \<and> dropWhile P xs = filter (\<lambda>x. \<not> P x) xs"
  using assms
proof (induction xs)
  case (Cons x xs)
  show ?case
  proof (cases "P x")
    case True
    have "takeWhile P xs = filter P xs \<and> dropWhile P xs = filter (\<lambda>x. \<not> P x) xs"
      by (rule Cons.IH) (use Cons.prems in auto)
    with True show ?thesis by simp
  next
    case False
    then have "\<forall>y \<in> set xs. \<not> P y" using Cons.prems by auto
    with False show ?thesis by (simp add: filter_empty_conv filter_id_conv)
  qed
qed simp

lemma below_sentry: "snd e < UINTPTR_MAX \<Longrightarrow> e < (now, UINTPTR_MAX) \<longleftrightarrow> fst e \<le> now" for e :: entry
  by (cases e) (auto simp: less_prod_def intro: less_imp_le)

lemma erase_active_all:
  assumes "distinct (map snd xs)" "\<And>e. e \<in> set xs \<Longrightarrow> theap q (snd e) \<noteq> None"
    and "\<And>e. e \<in> set xs \<Longrightarrow> (snd e, seq_of q (snd e)) \<in> activeTimers q"
  shows "foldR erase_active xs q = Inr (q\<lparr>activeTimers := activeTimers q - (\<lambda>e. (snd e, seq_of q (snd e))) ` set xs\<rparr>)"
  using assms
proof (induction xs arbitrary: q)
  case (Cons x xs)
  obtain t where t: "theap q (snd x) = Some t" using Cons.prems(2) [of x] by auto
  define q1 where "q1 = q\<lparr>activeTimers := activeTimers q - {(snd x, seq_of q (snd x))}\<rparr>"
  have s: "seq_of q1 a = seq_of q a" for a by (simp add: q1_def seq_of_def)
  have "erase_active x q = Inr q1"
    using t Cons.prems(3) [of x] by (simp add: erase_active_def deref_def seq_of_def q1_def)
  moreover have "foldR erase_active xs q1 = Inr (q1\<lparr>activeTimers := activeTimers q1 - (\<lambda>e. (snd e, seq_of q1 (snd e))) ` set xs\<rparr>)"
  proof (rule Cons.IH)
    show "distinct (map snd xs)" using Cons.prems(1) by simp
    show "theap q1 (snd e) \<noteq> None" if "e \<in> set xs" for e using Cons.prems(2) [of e] that by (simp add: q1_def)
    show "(snd e, seq_of q1 (snd e)) \<in> activeTimers q1" if "e \<in> set xs" for e
    proof -
      have "snd e \<noteq> snd x" using Cons.prems(1) that by (auto simp: image_iff)
      then show ?thesis using Cons.prems(3) [of e] that unfolding s by (simp add: q1_def)
    qed
  qed
  moreover have "activeTimers q1 - X = activeTimers q - insert (snd x, seq_of q (snd x)) X" for X by (auto simp: q1_def)
  ultimately show ?case by (simp add: s) (simp add: q1_def)
qed simp

lemma getExpired_ok:
  fixes now :: Timestamp
  assumes i: "tq_inv fl q"
  defines "xs \<equiv> filter (\<lambda>e. fst e \<le> now) (timers q)" and "ys \<equiv> filter (\<lambda>e. now < fst e) (timers q)"
  shows "\<exists>q'. getExpired now q = Inr (xs, q') \<and> tq_inv (xs @ fl) q' \<and> timers q' = ys \<and> theap q' = theap q \<and>
     numCreated q' = numCreated q \<and> timerfd q' = timerfd q"
proof -
  have b: "e < (now, UINTPTR_MAX) \<longleftrightarrow> fst e \<le> now" if "e \<in> set (timers q)" for e
    using tq_invD(3) [OF i, of e] that below_sentry [of e now] by (simp add: entry_ok_def)
  have split: "takeWhile (\<lambda>e. e < (now, UINTPTR_MAX)) (timers q) = xs" "dropWhile (\<lambda>e. e < (now, UINTPTR_MAX)) (timers q) = ys"
  proof -
    have "takeWhile (\<lambda>e. e < (now, UINTPTR_MAX)) (timers q) = filter (\<lambda>e. e < (now, UINTPTR_MAX)) (timers q) \<and>
        dropWhile (\<lambda>e. e < (now, UINTPTR_MAX)) (timers q) = filter (\<lambda>e. \<not> e < (now, UINTPTR_MAX)) (timers q)"
      by (rule takeWhile_sorted [OF tq_invD(1) [OF i]]) (rule order.strict_trans1)
    moreover have "filter (\<lambda>e. e < (now, UINTPTR_MAX)) (timers q) = xs" "filter (\<lambda>e. \<not> e < (now, UINTPTR_MAX)) (timers q) = ys"
      unfolding xs_def ys_def by (rule filter_cong; simp add: b not_le)+
    ultimately show "takeWhile (\<lambda>e. e < (now, UINTPTR_MAX)) (timers q) = xs"
      "dropWhile (\<lambda>e. e < (now, UINTPTR_MAX)) (timers q) = ys" by simp_all
  qed
  have app: "timers q = xs @ ys" using split by (metis takeWhile_dropWhile_id)
  define q1 where "q1 = q\<lparr>timers := ys\<rparr>"
  define q2 where "q2 = q1\<lparr>activeTimers := activeTimers q1 - (\<lambda>e. (snd e, seq_of q1 (snd e))) ` set xs\<rparr>"
  have seq: "seq_of q1 a = seq_of q a" "seq_of q2 a = seq_of q a" for a by (simp_all add: q1_def q2_def seq_of_def)
  have dist: "distinct (map snd ((xs @ fl) @ ys))" using tq_invD(2) [OF i] app by auto
  have e: "foldR erase_active xs q1 = Inr q2"
    unfolding q2_def
  proof (rule erase_active_all)
    show "distinct (map snd xs)" using dist by simp
    show "theap q1 (snd e) \<noteq> None" if "e \<in> set xs" for e
      using tq_invD(3) [OF i, of e] that app by (auto simp: q1_def entry_ok_def)
    show "(snd e, seq_of q1 (snd e)) \<in> activeTimers q1" if "e \<in> set xs" for e
      unfolding seq using that app tq_invD(4) [OF i] by (auto simp: q1_def)
  qed
  have "activeTimers q2 = (\<lambda>e. (snd e, seq_of q2 (snd e))) ` set ys"
    using dist tq_invD(4) [OF i] app unfolding q2_def seq by (auto simp: q1_def seq_of_def)
  moreover have "entry_ok q2 e" if "e \<in> set ((xs @ fl) @ ys)" for e
    using tq_invD(3) [OF i, of e] that app by (auto simp: entry_ok_def q1_def q2_def)
  moreover have "sorted ys" using tq_invD(1) [OF i] sorted_filter [of "\<lambda>x. x"] by (simp add: ys_def)
  moreover have f: "timers q2 = ys" "theap q2 = theap q" "numCreated q2 = numCreated q" "timerfd q2 = timerfd q"
    by (simp_all add: q2_def q1_def)
  ultimately have inv: "tq_inv (xs @ fl) q2" using dist tq_invD(5) [OF i] unfolding tq_inv_def by simp
  have "ys = [] \<or> now < fst (hd ys)" using hd_in_set [of ys] by (cases "ys = []") (auto simp: ys_def)
  then have "getExpired now q = Inr (xs, q2)"
    using tq_sizes [OF i] tq_sizes [OF inv] e
    by (simp add: getExpired_def Let_def split Timestamp_lt_less q1_def [symmetric] del: dropWhile_eq_Nil_conv)
  with inv f show ?thesis by blast
qed

section \<open>Callbacks\<close>

text \<open>\<^verbatim>\<open>new\<close> delivers an address that is not in use and not the sentry's.\<close>

fun call_ok :: "tq_call \<Rightarrow> TimerQueue \<Rightarrow> bool" where
  "call_ok (CallAdd now a cb w interval) q \<longleftrightarrow> theap q a = None \<and> a < UINTPTR_MAX"
| "call_ok (CallCancel i) q \<longleftrightarrow> True"

abbreviation calls_ok :: "tq_call list \<Rightarrow> TimerQueue \<Rightarrow> bool" where
  "calls_ok \<equiv> steps_ok do_call call_ok"

definition allocator_ok :: "(nat \<Rightarrow> TimerQueue \<Rightarrow> tq_call list) \<Rightarrow> bool" where
  "allocator_ok cbs \<longleftrightarrow> (\<forall>cb q. calls_ok (cbs cb q) q)"

lemma do_call_ok:
  assumes "tq_inv fl q" "call_ok c q"
  shows "\<exists>q'. do_call c q = Inr q' \<and> tq_inv fl q'"
proof (cases c)
  case (CallAdd now a cb w interval)
  then show ?thesis using addTimer_ok [OF assms(1), of a now cb w interval] assms(2) by auto
next
  case (CallCancel j)
  then show ?thesis using cancelInLoop_ok [OF assms(1), of j] by auto
qed

lemma do_calls_ok: "tq_inv fl q \<Longrightarrow> calls_ok cs q \<Longrightarrow> \<exists>q'. foldR do_call cs q = Inr q' \<and> tq_inv fl q'"
  by (rule steps_ok_total) (use do_call_ok in blast)+

lemma Timer_runs_ok:
  assumes "allocator_ok cbs" "tq_inv fl q" "set xs \<subseteq> set fl"
  shows "\<exists>q'. foldR (Timer_run cbs) xs q = Inr q' \<and> tq_inv fl q'"
  using assms(2)
proof (rule foldR_total)
  fix e r
  assume e: "e \<in> set xs" and r: "tq_inv fl r"
  then obtain t where "theap r (snd e) = Some t" using tq_invD(3) [OF r, of e] assms(3) by (auto simp: entry_ok_def)
  then show "\<exists>q'. Timer_run cbs e r = Inr q' \<and> tq_inv fl q'"
    using do_calls_ok [OF r] assms(1) by (simp add: Timer_run_def deref_def allocator_ok_def)
qed

section \<open>Restart\<close>

lemma reset_one_ok:
  assumes i: "tq_inv (e # fl) q"
  shows "\<exists>q'. reset_one F now e q = Inr q' \<and> tq_inv fl q'"
proof -
  obtain t where t: "theap q (snd e) = Some t" "snd e < UINTPTR_MAX"
    using tq_invD(3) [OF i, of e] by (auto simp: entry_ok_def)
  have new: "snd e \<notin> snd ` set (fl @ timers q)" and fl: "distinct (map snd fl)" using tq_invD(2) [OF i] by auto
  have upd: "tq_inv fl (q\<lparr>theap := (theap q)(snd e := x)\<rparr>)" if "\<And>u. x = Some u \<Longrightarrow> tm_sequence u \<le> numCreated q" for x
  proof (rule tq_inv_heap [OF i])
    show "theap (q\<lparr>theap := (theap q)(snd e := x)\<rparr>) b = theap q b" if "b \<in> snd ` set (fl @ timers q)" for b
    proof -
      have "b \<noteq> snd e" using that new by metis
      then show ?thesis by simp
    qed
    show "theap q b = Some u \<or> tm_sequence u \<le> numCreated (q\<lparr>theap := (theap q)(snd e := x)\<rparr>)"
      if "theap (q\<lparr>theap := (theap q)(snd e := x)\<rparr>) b = Some u" for b u
      using that \<open>\<And>u. x = Some u \<Longrightarrow> tm_sequence u \<le> numCreated q\<close> by (auto split: if_splits)
  qed (use fl in auto)
  show ?thesis
  proof (cases "tm_repeat t \<and> (snd e, tm_sequence t) \<notin> cancelingTimers q")
    case True
    define q1 where "q1 = q\<lparr>theap := (theap q)(snd e \<mapsto> Timer_restart F now t)\<rparr>"
    have "tq_inv fl q1" unfolding q1_def using tq_invD(5) [OF i t(1)] by (intro upd) (auto simp: Timer_restart_def)
    then show ?thesis
      using TimerQueue_insert_ok [of fl q1 "snd e" "Timer_restart F now t"] new t True
      by (simp add: reset_one_def deref_def q1_def)
  next
    case False
    then show ?thesis using upd [of None] t by (auto simp: reset_one_def deref_def)
  qed
qed

lemma reset_all_ok: "tq_inv (xs @ fl) q \<Longrightarrow> \<exists>q'. foldR (reset_one F now) xs q = Inr q' \<and> tq_inv fl q'"
proof (induction xs arbitrary: q)
  case (Cons e xs)
  obtain q1 where "reset_one F now e q = Inr q1" "tq_inv (xs @ fl) q1"
    using reset_one_ok [of e "xs @ fl" q F now] Cons.prems by auto
  with Cons.IH [of q1] show ?case by simp
qed simp

lemma TimerQueue_reset_ok:
  assumes "tq_inv (xs @ fl) q"
  shows "\<exists>q'. TimerQueue_reset F xs now now2 q = Inr q' \<and> tq_inv fl q' \<and>
     (timers q' \<noteq> [] \<longrightarrow> Timestamp_valid (fst (hd (timers q'))) \<longrightarrow>
        timerfd q' = Some (howMuchTimeFromNow now2 (fst (hd (timers q')))))"
proof -
  obtain q1 where q1: "foldR (reset_one F now) xs q = Inr q1" "tq_inv fl q1" using reset_all_ok [OF assms] by blast
  have arm: "tq_inv fl (resetTimerfd now2 w q1)" for w
    using tq_invD(2) [OF q1(2)] by (intro tq_inv_heap [OF q1(2)]) (auto simp: resetTimerfd_def)
  show ?thesis
  proof (cases "timers q1")
    case Nil
    then show ?thesis using q1 by (simp add: TimerQueue_reset_def Timestamp_valid_def Timestamp_invalid_def)
  next
    case (Cons e es)
    then obtain t where "theap q1 (snd e) = Some t" "tm_expiration t = fst e"
      using tq_invD(3) [OF q1(2), of e] by (auto simp: entry_ok_def)
    then have "TimerQueue_reset F xs now now2 q =
        Inr (if Timestamp_valid (fst e) then resetTimerfd now2 (fst e) q1 else q1)"
      using q1(1) Cons by (simp add: TimerQueue_reset_def deref_def)
    then show ?thesis using arm [of "fst e"] q1(2) Cons by (auto simp: resetTimerfd_def)
  qed
qed

lemma tq_inv_flags: "tq_inv fl q \<Longrightarrow> tq_inv fl (q\<lparr>callingExpiredTimers := b, cancelingTimers := c\<rparr>)"
  by (simp add: tq_inv_def entry_ok_def seq_of_def)

section \<open>The interface: a queue ordered by time\<close>

locale expiry_queue =
  fixes expire :: "'t::linorder \<Rightarrow> 'q \<Rightarrow> ('e list \<times> 'q) res"
    and pending :: "'q \<Rightarrow> 'e list"
    and due :: "'e \<Rightarrow> 't"
    and inv :: "'q \<Rightarrow> bool"
  assumes expire_splits: "inv q \<Longrightarrow> \<exists>q'. expire now q = Inr (filter (\<lambda>e. due e \<le> now) (pending q), q') \<and>
      pending q' = filter (\<lambda>e. now < due e) (pending q)"
    and pending_sorted: "inv q \<Longrightarrow> sorted (map due (pending q))"
begin

text \<open>Nothing is early, nothing is left over, and what is returned comes in the order of the due
  times.\<close>

lemma expire_complete:
  assumes "inv q" "expire now q = Inr (xs, q')"
  shows "pending q = xs @ pending q' \<and> (\<forall>e \<in> set xs. due e \<le> now) \<and> (\<forall>e \<in> set (pending q'). now < due e) \<and>
     sorted (map due xs)"
proof -
  have xs: "xs = filter (\<lambda>e. due e \<le> now) (pending q)" "pending q' = filter (\<lambda>e. now < due e) (pending q)"
    using expire_splits [OF assms(1), of now] assms(2) by auto
  have "filter (\<lambda>e. due e \<le> now) es @ filter (\<lambda>e. now < due e) es = es" if "sorted (map due es)" for es
    using that
  proof (induction es)
    case (Cons e es)
    show ?case
    proof (cases "due e \<le> now")
      case False
      then have "\<forall>x \<in> set es. now < due x" using Cons.prems by force
      then have "filter (\<lambda>e. due e \<le> now) es = []" "filter (\<lambda>e. now < due e) es = es"
        by (auto simp: filter_empty_conv filter_id_conv)
      with False show ?thesis by simp
    qed (use Cons in auto)
  qed simp
  then show ?thesis using xs pending_sorted [OF assms(1)] by (simp add: sorted_filter)
qed

end

interpretation timer_queue: expiry_queue getExpired timers fst "tq_inv []"
proof
  fix q and now :: Timestamp
  assume i: "tq_inv [] q"
  show "\<exists>q'. getExpired now q = Inr (filter (\<lambda>e. fst e \<le> now) (timers q), q') \<and> timers q' = filter (\<lambda>e. now < fst e) (timers q)"
    using getExpired_ok [OF i, of now] by auto
  have "sorted_wrt (\<lambda>x y. fst x \<le> fst y) (timers q)"
    using tq_invD(1) [OF i] by (rule sorted_wrt_mono_rel [rotated]) (auto simp: less_eq_prod_def intro: less_imp_le)
  then show "sorted (map fst (timers q))" by (simp add: sorted_map)
qed

section \<open>Properties\<close>

text \<open>The queue the witnesses use: two timers, one of them repeating.\<close>

definition tq_example :: TimerQueue where
  "tq_example = \<lparr>timers = [(Timestamp 5, 1), (Timestamp 9, 2)], activeTimers = {(1, 1), (2, 2)}, callingExpiredTimers = False,
     cancelingTimers = {},
     theap = [1 \<mapsto> \<lparr>tm_callback = 0, tm_expiration = Timestamp 5, tm_interval = 2, tm_repeat = True, tm_sequence = 1\<rparr>,
              2 \<mapsto> \<lparr>tm_callback = 0, tm_expiration = Timestamp 9, tm_interval = 0, tm_repeat = False, tm_sequence = 2\<rparr>],
     numCreated = 2, timerfd = None\<rparr>"

lemma tq_example_inv: "tq_inv [] tq_example"
  by (auto simp: tq_inv_def tq_example_def entry_ok_def seq_of_def UINTPTR_MAX_def less_eq_prod_def less_Timestamp_def
      split: if_splits)

text \<open>\<^verbatim>\<open>getExpired\<close> takes out exactly the timers that are due, a timer due at this very microsecond
  included, in the order of their expiration, and leaves exactly the later ones; none of its
  assertions fails.\<close>

theorem getExpired_exact:
  assumes "tq_inv [] q"
  shows "\<exists>xs q'. getExpired now q = Inr (xs, q') \<and> timers q = xs @ timers q' \<and> (\<forall>e \<in> set xs. fst e \<le> now) \<and>
     (\<forall>e \<in> set (timers q'). now < fst e) \<and> sorted (map fst xs)"
  using timer_queue.expire_splits [OF assms, of now] timer_queue.expire_complete [OF assms, of now] by blast

theorem getExpired_exact_witness:
  "\<exists>xs q'. getExpired (Timestamp 5) tq_example = Inr (xs, q') \<and> timers tq_example = xs @ timers q' \<and>
     (\<forall>e \<in> set xs. fst e \<le> Timestamp 5) \<and> (\<forall>e \<in> set (timers q'). Timestamp 5 < fst e) \<and> sorted (map fst xs)"
  by (rule getExpired_exact [OF tq_example_inv])

text \<open>C9: A round of the timer queue is safe and re-arms the timer: from a consistent queue, with
  callbacks that add and cancel timers (themselves included) as they like, \<^verbatim>\<open>handleRead\<close> fails no
  assertion, touches no deleted timer, ends in a consistent queue, and leaves the timerfd set
  for the earliest timer that is left.\<close>

theorem handleRead_safe:
  assumes "tq_inv [] q" "allocator_ok cbs"
  shows "\<exists>q'. TimerQueue_handleRead fl cbs now now2 q = Inr q' \<and> tq_inv [] q' \<and>
     (timers q' \<noteq> [] \<longrightarrow> Timestamp_valid (fst (hd (timers q'))) \<longrightarrow>
        timerfd q' = Some (howMuchTimeFromNow now2 (fst (hd (timers q')))))"
proof -
  obtain xs q1 where q1: "getExpired now q = Inr (xs, q1)" "tq_inv xs q1" using getExpired_ok [OF assms(1), of now] by auto
  obtain q2 where q2: "foldR (Timer_run cbs) xs (q1\<lparr>callingExpiredTimers := True, cancelingTimers := {}\<rparr>) = Inr q2" "tq_inv xs q2"
    using Timer_runs_ok [OF assms(2) tq_inv_flags [OF q1(2)]] by blast
  have "q2\<lparr>callingExpiredTimers := False\<rparr> = q2\<lparr>callingExpiredTimers := False, cancelingTimers := cancelingTimers q2\<rparr>" by simp
  then have "tq_inv xs (q2\<lparr>callingExpiredTimers := False\<rparr>)" using tq_inv_flags [OF q2(2)] by metis
  from TimerQueue_reset_ok [of xs "[]" _ fl now now2] this q1(1) q2(1) show ?thesis
    by (simp add: TimerQueue_handleRead_def)
qed

theorem handleRead_safe_witness:
  "\<exists>q'. TimerQueue_handleRead (\<lambda>x. x) (\<lambda>_ _. [CallCancel (1, 1), CallCancel (2, 2)]) (Timestamp 7) (Timestamp 8) tq_example = Inr q' \<and>
     tq_inv [] q'"
proof -
  have "allocator_ok (\<lambda>_ _. [CallCancel (1, 1), CallCancel (2, 2)])"
    unfolding allocator_ok_def by (auto split: sum.split)
  from handleRead_safe [OF tq_example_inv this, of "\<lambda>x. x" "Timestamp 7" "Timestamp 8"] show ?thesis by blast
qed




end
