(* ===== verification/EventLoop.thy ===== *)
theory EventLoop
  imports PollPoller TimerQueue
begin

text \<open>
  \<^verbatim>\<open>EventLoop\<close> (\<^verbatim>\<open>src/net/EventLoop.h\<close>, \<^verbatim>\<open>src/net/EventLoop.cc\<close>): the functor queue, the wakeup descriptor and the loop.
  A functor is the list of calls it makes on the loop when it runs. The other threads are
  the steps \<open>other_queue\<close>, \<open>other_wakeup\<close> and \<open>other_quit\<close> of the relation \<open>el_step\<close>, which may happen between any two
  steps of the loop thread: appending to \<^verbatim>\<open>pendingFunctors_\<close> under the mutex and writing to the eventfd are separate
  steps, because the code releases the mutex in between (\<open>el_wk\<close> counts the writes that
  are under way). The fields \<open>el_queued\<close> and \<open>el_ran\<close> record the history. The members that reach the
  poller are in theory \<open>PollPoller\<close>.
\<close>

section \<open>State\<close>

datatype Fn = Fn (fn_id: nat) (fn_acts: "act list")
  and act = ActQueue Fn | ActRun Fn | ActQuit

datatype el_pc = AtTest | AtPoll | AtEvents bool | AtSwap | AtFunctors | AtDone

record EventLoop =
  el_looping :: bool
  el_quit :: bool
  el_eventHandling :: bool
  el_calling :: bool
  el_iteration :: int
  el_pending :: "Fn list"
  el_efd :: nat
  el_wk :: nat
  el_pc :: el_pc
  el_todo :: "act list"
  el_functors :: "Fn list"
  el_queued :: "nat list"
  el_ran :: "nat list"

definition kPollTimeMs :: int where
  "kPollTimeMs = 10 * 1000"

definition EventLoop_new :: EventLoop where
  "EventLoop_new = \<lparr>el_looping = False, el_quit = False, el_eventHandling = False, el_calling = False, el_iteration = 0,
     el_pending = [], el_efd = 0, el_wk = 0, el_pc = AtDone, el_todo = [], el_functors = [], el_queued = [], el_ran = []\<rparr>"

section \<open>Members\<close>

text \<open>A write of 1 to the eventfd adds to its counter; it fails, and is only logged, when the
  counter is at its maximum. A read takes the whole counter.\<close>

definition wakeup :: "EventLoop \<Rightarrow> EventLoop" where
  "wakeup s = (if el_efd s < 2 ^ 64 - 2 then s\<lparr>el_efd := el_efd s + 1\<rparr> else s)"

definition EventLoop_handleRead :: "EventLoop \<Rightarrow> EventLoop" where
  "EventLoop_handleRead s = s\<lparr>el_efd := 0\<rparr>"

definition push_functor :: "Fn \<Rightarrow> EventLoop \<Rightarrow> EventLoop" where
  "push_functor cb s = s\<lparr>el_pending := el_pending s @ [cb], el_queued := el_queued s @ [fn_id cb]\<rparr>"

definition queueInLoop :: "bool \<Rightarrow> Fn \<Rightarrow> EventLoop \<Rightarrow> EventLoop" where
  "queueInLoop inLoopThread cb s =
     (let s1 = push_functor cb s in if \<not> inLoopThread \<or> el_calling s1 then wakeup s1 else s1)"

definition quit :: "bool \<Rightarrow> EventLoop \<Rightarrow> EventLoop" where
  "quit inLoopThread s = (let s1 = s\<lparr>el_quit := True\<rparr> in if \<not> inLoopThread then wakeup s1 else s1)"

text \<open>What the loop thread does when a functor runs; \<^verbatim>\<open>runInLoop\<close> in the loop thread calls it at
  once.\<close>

primrec run_functor :: "Fn \<Rightarrow> EventLoop \<Rightarrow> EventLoop" and run_act :: "act \<Rightarrow> EventLoop \<Rightarrow> EventLoop" where
  "run_functor (Fn n acts) s = fold id (map run_act acts) s"
| "run_act (ActQueue f) s = queueInLoop True f s"
| "run_act (ActRun f) s = run_functor f s"
| "run_act ActQuit s = quit True s"

definition runInLoop :: "bool \<Rightarrow> Fn \<Rightarrow> EventLoop \<Rightarrow> EventLoop" where
  "runInLoop inLoopThread cb s = (if inLoopThread then run_functor cb s else queueInLoop False cb s)"

definition run_pending :: "Fn \<Rightarrow> EventLoop \<Rightarrow> EventLoop" where
  "run_pending f s = run_functor f (s\<lparr>el_ran := el_ran s @ [fn_id f]\<rparr>)"

definition doPendingFunctors :: "EventLoop \<Rightarrow> EventLoop" where
  "doPendingFunctors s =
     (let functors = el_pending s;
          s1 = s\<lparr>el_calling := True, el_pending := []\<rparr>
      in (fold run_pending functors s1)\<lparr>el_calling := False\<rparr>)"

text \<open>\<^verbatim>\<open>runAt\<close>, \<^verbatim>\<open>runAfter\<close> and \<^verbatim>\<open>runEvery\<close>: what they hand to the timer queue (callback, time, interval).\<close>

definition runAt :: "Timestamp \<Rightarrow> nat \<Rightarrow> nat \<times> Timestamp \<times> rat" where
  "runAt time cb = (cb, time, 0)"

definition runAfter :: "(rat \<Rightarrow> rat) \<Rightarrow> Timestamp \<Rightarrow> rat \<Rightarrow> nat \<Rightarrow> nat \<times> Timestamp \<times> rat" where
  "runAfter fl now delay cb = (let time = addTime fl now delay in runAt time cb)"

definition runEvery :: "(rat \<Rightarrow> rat) \<Rightarrow> Timestamp \<Rightarrow> rat \<Rightarrow> nat \<Rightarrow> nat \<times> Timestamp \<times> rat" where
  "runEvery fl now interval cb = (let time = addTime fl now interval in (cb, time, interval))"

definition printActiveChannels :: "('z Reactor_scheme) \<Rightarrow> string list" where
  "printActiveChannels r = map (\<lambda>c. ''{'' @ reventsToString (heap r c) @ ''} '') (rx_active r)"

section \<open>The loop among other threads\<close>

text \<open>One call of a running functor, with \<^verbatim>\<open>runInLoop\<close> unfolded in place.\<close>

fun act_step :: "act \<Rightarrow> EventLoop \<Rightarrow> EventLoop" where
  "act_step (ActQueue f) s = queueInLoop True f s"
| "act_step (ActRun f) s = s\<lparr>el_todo := fn_acts f @ el_todo s\<rparr>"
| "act_step ActQuit s = quit True s"

inductive el_step :: "EventLoop \<Rightarrow> EventLoop \<Rightarrow> bool" where
  other_queue: "el_step s (push_functor f (s\<lparr>el_wk := el_wk s + 1\<rparr>))"
| other_wakeup: "el_wk s = n + 1 \<Longrightarrow> el_step s (wakeup (s\<lparr>el_wk := n\<rparr>))"
| other_quit: "el_step s (s\<lparr>el_quit := True, el_wk := el_wk s + 1\<rparr>)"
| loop_test: "el_pc s = AtTest \<Longrightarrow>
    el_step s (if el_quit s then s\<lparr>el_pc := AtDone, el_looping := False\<rparr> else s\<lparr>el_pc := AtPoll\<rparr>)"
| loop_poll: "el_pc s = AtPoll \<Longrightarrow>
    el_step s (s\<lparr>el_pc := AtEvents (0 < el_efd s), el_iteration := el_iteration s + 1, el_eventHandling := True\<rparr>)"
| loop_wakeup_read: "el_pc s = AtEvents True \<Longrightarrow> el_todo s = [] \<Longrightarrow>
    el_step s (EventLoop_handleRead (s\<lparr>el_pc := AtEvents False\<rparr>))"
| loop_callback: "el_pc s = AtEvents b \<Longrightarrow> el_todo s = [] \<Longrightarrow> el_step s (s\<lparr>el_todo := acts\<rparr>)"
| loop_act: "el_todo s = a # as \<Longrightarrow> el_step s (act_step a (s\<lparr>el_todo := as\<rparr>))"
| loop_begin: "el_pc s = AtEvents False \<Longrightarrow> el_todo s = [] \<Longrightarrow>
    el_step s (s\<lparr>el_pc := AtSwap, el_eventHandling := False, el_calling := True\<rparr>)"
| loop_swap: "el_pc s = AtSwap \<Longrightarrow>
    el_step s (s\<lparr>el_pc := AtFunctors, el_functors := el_pending s, el_pending := []\<rparr>)"
| loop_next: "el_pc s = AtFunctors \<Longrightarrow> el_todo s = [] \<Longrightarrow> el_functors s = f # fs \<Longrightarrow>
    el_step s (s\<lparr>el_functors := fs, el_todo := fn_acts f, el_ran := el_ran s @ [fn_id f]\<rparr>)"
| loop_end: "el_pc s = AtFunctors \<Longrightarrow> el_todo s = [] \<Longrightarrow> el_functors s = [] \<Longrightarrow>
    el_step s (s\<lparr>el_pc := AtTest, el_calling := False\<rparr>)"

text \<open>The call of \<^verbatim>\<open>loop()\<close>: it clears \<^verbatim>\<open>quit_\<close>. Functors queued by other threads before it have their
  wakeups.\<close>

definition loop_start :: "EventLoop \<Rightarrow> EventLoop res" where
  "loop_start s =
     bindR (assertR (\<not> el_looping s) ''!looping_'') (\<lambda>_. Inr (s\<lparr>el_looping := True, el_quit := False, el_pc := AtTest\<rparr>))"

definition el_init :: "EventLoop \<Rightarrow> bool" where
  "el_init s \<longleftrightarrow> loop_start EventLoop_new = Inr s"

inductive_cases el_stepE: "el_step s t"

section \<open>Invariant\<close>

text \<open>While the loop is on its way to \<^verbatim>\<open>poll()\<close> or in it, functors that nobody has taken out are announced
  by a wakeup that is readable or being written; so is a request to quit. The functors that were
  queued are those that ran, those taken out and those still pending, in this order.\<close>

definition el_announced :: "EventLoop \<Rightarrow> bool" where
  "el_announced s \<longleftrightarrow> 0 < el_efd s \<or> 0 < el_wk s"

definition el_inv :: "EventLoop \<Rightarrow> bool" where
  "el_inv s \<longleftrightarrow>
     (el_pc s \<in> {AtFunctors, AtTest, AtPoll} \<longrightarrow> el_pending s \<noteq> [] \<longrightarrow> el_announced s) \<and>
     (el_pc s = AtPoll \<longrightarrow> el_quit s \<longrightarrow> el_announced s) \<and>
     (el_calling s \<longleftrightarrow> el_pc s \<in> {AtSwap, AtFunctors}) \<and>
     (el_todo s \<noteq> [] \<longrightarrow> el_pc s = AtFunctors \<or> (\<exists>b. el_pc s = AtEvents b)) \<and>
     (el_functors s \<noteq> [] \<longrightarrow> el_pc s = AtFunctors) \<and>
     (el_pc s \<noteq> AtDone \<longrightarrow> el_looping s) \<and>
     el_queued s = el_ran s @ map fn_id (el_functors s) @ map fn_id (el_pending s)"

lemma wakeup_simps [simp]:
  "el_pc (wakeup s) = el_pc s" "el_pending (wakeup s) = el_pending s" "el_quit (wakeup s) = el_quit s"
  "el_calling (wakeup s) = el_calling s" "el_todo (wakeup s) = el_todo s" "el_functors (wakeup s) = el_functors s"
  "el_looping (wakeup s) = el_looping s" "el_queued (wakeup s) = el_queued s" "el_ran (wakeup s) = el_ran s"
  "el_wk (wakeup s) = el_wk s" "0 < el_efd (wakeup s)"
  by (auto simp: wakeup_def)

lemma push_simps [simp]:
  "el_pc (push_functor f s) = el_pc s" "el_pending (push_functor f s) = el_pending s @ [f]"
  "el_quit (push_functor f s) = el_quit s" "el_calling (push_functor f s) = el_calling s"
  "el_todo (push_functor f s) = el_todo s" "el_functors (push_functor f s) = el_functors s"
  "el_looping (push_functor f s) = el_looping s" "el_queued (push_functor f s) = el_queued s @ [fn_id f]"
  "el_ran (push_functor f s) = el_ran s" "el_wk (push_functor f s) = el_wk s" "el_efd (push_functor f s) = el_efd s"
  by (auto simp: push_functor_def)

lemma el_inv_init: "el_init s \<Longrightarrow> el_inv s"
  by (auto simp: el_init_def loop_start_def EventLoop_new_def el_inv_def)

lemma act_step_inv:
  assumes "el_inv s" "el_todo s = a # as"
  shows "el_inv (act_step a (s\<lparr>el_todo := as\<rparr>))"
proof -
  have "el_pc s = AtFunctors \<or> (\<exists>b. el_pc s = AtEvents b)" using assms by (simp add: el_inv_def)
  then show ?thesis
  proof (elim disjE exE)
    assume "el_pc s = AtFunctors"
    with assms show ?thesis by (cases a) (simp_all add: el_inv_def queueInLoop_def quit_def Let_def el_announced_def)
  next
    fix b assume "el_pc s = AtEvents b"
    with assms show ?thesis by (cases a) (simp_all add: el_inv_def queueInLoop_def quit_def Let_def el_announced_def)
  qed
qed

lemma el_inv_step: "el_inv s \<Longrightarrow> el_step s t \<Longrightarrow> el_inv t"
proof (erule el_stepE)
  fix a as
  assume "el_inv s" "t = act_step a (s\<lparr>el_todo := as\<rparr>)" "el_todo s = a # as"
  then show "el_inv t" by (simp add: act_step_inv)
qed (auto simp: el_inv_def el_announced_def EventLoop_handleRead_def)

interpretation event_loop: transition_system el_init el_step el_inv
  by unfold_locales (auto intro: el_inv_init el_inv_step)

section \<open>Running the pending functors without interference\<close>

text \<open>A functor changes nothing but the pending functors, the counter, the history of the queue and
  the request to quit, and only appends to the pending ones.\<close>

definition el_frame :: "EventLoop \<Rightarrow> EventLoop \<Rightarrow> bool" where
  "el_frame s t \<longleftrightarrow> el_ran t = el_ran s \<and> el_calling t = el_calling s \<and>
     (\<exists>fs. el_pending t = el_pending s @ fs \<and> (el_calling s \<longrightarrow> fs \<noteq> [] \<longrightarrow> 0 < el_efd t)) \<and>
     (0 < el_efd s \<longrightarrow> 0 < el_efd t)"

lemma el_frame_refl: "el_frame s s"
  by (simp add: el_frame_def)

lemma el_frame_trans: "el_frame s t \<Longrightarrow> el_frame t u \<Longrightarrow> el_frame s u"
  by (auto simp: el_frame_def)

lemma queueInLoop_frame: "el_frame s (queueInLoop b f s)"
  by (auto simp: el_frame_def queueInLoop_def Let_def wakeup_def)

lemma run_frame:
  "el_frame s (run_functor f s)"
  "el_frame s (run_act a s)"
proof (induction f and a arbitrary: s and s)
  case (Fn n acts)
  have "(\<forall>a \<in> set as. \<forall>s. el_frame s (run_act a s)) \<Longrightarrow> el_frame s (fold id (map run_act as) s)" for as s
  proof (induction as arbitrary: s)
    case (Cons a as)
    then show ?case using el_frame_trans [of s "run_act a s"] by simp
  qed (simp add: el_frame_refl)
  with Fn show ?case by simp
next
  case ActQuit
  then show ?case by (simp add: el_frame_def quit_def)
qed (simp_all add: queueInLoop_frame)

lemma run_pending_frame:
  "el_ran (run_pending f s) = el_ran s @ [fn_id f] \<and> el_calling (run_pending f s) = el_calling s \<and>
   (\<exists>fs. el_pending (run_pending f s) = el_pending s @ fs \<and> (el_calling s \<longrightarrow> fs \<noteq> [] \<longrightarrow> 0 < el_efd (run_pending f s))) \<and>
   (0 < el_efd s \<longrightarrow> 0 < el_efd (run_pending f s))"
  using run_frame(1) [of "s\<lparr>el_ran := el_ran s @ [fn_id f]\<rparr>" f] by (auto simp: el_frame_def run_pending_def)

lemma fold_run_pending:
  "\<exists>gs. el_ran (fold run_pending fs s) = el_ran s @ map fn_id fs \<and> el_calling (fold run_pending fs s) = el_calling s \<and>
     el_pending (fold run_pending fs s) = el_pending s @ gs \<and>
     (el_calling s \<longrightarrow> gs \<noteq> [] \<longrightarrow> 0 < el_efd (fold run_pending fs s)) \<and>
     (0 < el_efd s \<longrightarrow> 0 < el_efd (fold run_pending fs s))"
proof (induction fs arbitrary: s)
  case (Cons f fs)
  obtain hs where hs: "el_pending (run_pending f s) = el_pending s @ hs" "el_calling s \<longrightarrow> hs \<noteq> [] \<longrightarrow> 0 < el_efd (run_pending f s)"
    using run_pending_frame [of f s] by blast
  define t where "t = fold run_pending fs (run_pending f s)"
  from Cons.IH [of "run_pending f s"] obtain gs where "el_ran t = el_ran (run_pending f s) @ map fn_id fs \<and>
    el_calling t = el_calling (run_pending f s) \<and> el_pending t = el_pending (run_pending f s) @ gs \<and>
    (el_calling (run_pending f s) \<longrightarrow> gs \<noteq> [] \<longrightarrow> 0 < el_efd t) \<and> (0 < el_efd (run_pending f s) \<longrightarrow> 0 < el_efd t)"
    unfolding t_def ..
  moreover have "el_ran (run_pending f s) = el_ran s @ [fn_id f]" "el_calling (run_pending f s) = el_calling s"
    "0 < el_efd s \<longrightarrow> 0 < el_efd (run_pending f s)"
    using run_pending_frame [of f s] by blast+
  ultimately show ?case
    using hs by (intro exI [of _ "hs @ gs"]) (cases "gs = []"; simp add: t_def [symmetric])
qed simp

section \<open>Properties\<close>


text \<open>A run of the system: another thread queues a functor while the loop is on its way to \<^verbatim>\<open>poll()\<close>.\<close>

definition el_example :: EventLoop where
  "el_example = (push_functor (Fn 7 []) (EventLoop_new\<lparr>el_looping := True, el_wk := 1\<rparr>))\<lparr>el_pc := AtPoll\<rparr>"

lemma el_example_reach: "reach el_init el_step el_example"
proof -
  let ?s0 = "EventLoop_new\<lparr>el_looping := True, el_quit := False, el_pc := AtTest\<rparr>"
  have "el_init ?s0" by (simp add: el_init_def loop_start_def EventLoop_new_def)
  then have "reach el_init el_step ?s0" by (rule reach_init)
  then have "reach el_init el_step (push_functor (Fn 7 []) (?s0\<lparr>el_wk := el_wk ?s0 + 1\<rparr>))" (is "reach _ _ ?s1")
    by (rule reach_step) (rule other_queue)
  then have "reach el_init el_step (if el_quit ?s1 then ?s1\<lparr>el_pc := AtDone, el_looping := False\<rparr> else ?s1\<lparr>el_pc := AtPoll\<rparr>)"
    by (rule reach_step) (rule loop_test, simp)
  then show ?thesis by (simp add: el_example_def EventLoop_new_def push_functor_def)
qed


text \<open>Functors run exactly once and in the order they were queued, whichever threads queued them:
  in every reachable state the history of the queue is what ran, then what the current round
  still has to run, then what is pending.\<close>

theorem functors_fifo:
  assumes "reach el_init el_step s"
  shows "el_queued s = el_ran s @ map fn_id (el_functors s) @ map fn_id (el_pending s)"
  using event_loop.reach_inv [OF assms] by (simp add: el_inv_def)

theorem functors_fifo_witness:
  "el_queued el_example = el_ran el_example @ map fn_id (el_functors el_example) @ map fn_id (el_pending el_example)"
  by (rule functors_fifo [OF el_example_reach])

text \<open>\<^verbatim>\<open>doPendingFunctors\<close> runs exactly the functors that were pending when it started; those its
  functors queue stay for the next round, which is announced by a wakeup, so a functor that
  queues itself cannot keep the loop from polling.\<close>

theorem doPendingFunctors_one_round:
  "el_ran (doPendingFunctors s) = el_ran s @ map fn_id (el_pending s) \<and>
   (el_pending (doPendingFunctors s) = [] \<or> 0 < el_efd (doPendingFunctors s)) \<and> \<not> el_calling (doPendingFunctors s)"
  using fold_run_pending [of "el_pending s" "s\<lparr>el_calling := True, el_pending := []\<rparr>"]
  by (auto simp: doPendingFunctors_def Let_def)

text \<open>What happens before \<^verbatim>\<open>loop()\<close> is not announced: a functor that the loop's own thread queues
  first leaves the eventfd at zero, so the loop can enter \<^verbatim>\<open>poll()\<close> with it pending and nothing to wake it but the
  ten-second timeout; and a \<^verbatim>\<open>quit()\<close> that came first is forgotten.\<close>

theorem before_loop_not_announced:
  "\<exists>s t. loop_start (queueInLoop True f EventLoop_new) = Inr s \<and> el_step s t \<and> el_pc t = AtPoll \<and> el_pending t = [f] \<and>
     \<not> el_announced t \<and> (\<exists>u. loop_start (quit False EventLoop_new) = Inr u \<and> \<not> el_quit u)"
proof -
  define s where "s = (queueInLoop True f EventLoop_new)\<lparr>el_looping := True, el_quit := False, el_pc := AtTest\<rparr>"
  have "loop_start (queueInLoop True f EventLoop_new) = Inr s"
    by (simp add: loop_start_def s_def queueInLoop_def EventLoop_new_def)
  moreover have "el_step s (s\<lparr>el_pc := AtPoll\<rparr>)"
    using loop_test [of s] by (simp add: s_def)
  moreover have "loop_start (quit False EventLoop_new) = Inr ((quit False EventLoop_new)\<lparr>el_looping := True, el_quit := False, el_pc := AtTest\<rparr>)"
    by (simp add: loop_start_def quit_def EventLoop_new_def wakeup_def)
  ultimately show ?thesis
    by (intro exI [of _ s] exI [of _ "s\<lparr>el_pc := AtPoll\<rparr>"])
      (simp add: s_def queueInLoop_def Let_def EventLoop_new_def push_functor_def el_announced_def)
qed

end
