(* ===== verification/TcpConnection.thy ===== *)
theory TcpConnection
  imports Buffer EventLoop
begin

text \<open>
  \<^verbatim>\<open>TcpConnection\<close> (\<^verbatim>\<open>src/net/TcpConnection.h\<close>, \<^verbatim>\<open>src/net/TcpConnection.cc\<close>), in the loop thread of the connection: the
  state machine, both buffers, the channel on its loop (theory \<open>PollPoller\<close>). The kernel's side of
  the socket is \<open>tc_wire\<close>, the bytes \<^verbatim>\<open>write(2)\<close> has taken, and \<open>tc_shut\<close>, whether the write side was shut
  down. \<open>kw\<close> is \<^verbatim>\<open>write(2)\<close>: for the \<open>n\<close>-th call and its data, the value returned and errno.
  A user callback is the list of calls it makes on the connection, which may depend on its
  state. Callbacks that the code queues are appended to \<open>tc_queue\<close>.

  The abstract view of the sending side is one sequence of bytes: what is on the wire and behind
  it what the output buffer holds. A send appends to it, and the loop moves the border.
\<close>

section \<open>State\<close>

datatype StateE = kDisconnected | kConnecting | kConnected | kDisconnecting

datatype queued = QWriteComplete | QHighWaterMark nat | QForceClose | QConnectDestroyed
  | QSendInLoop "byte list" | QShutdownInLoop | QForceCloseAfter real

datatype conn_log = LConnection bool | LMessage | LClose | LError

record TcpConnection =
  tc_name :: string
  tc_state :: StateE
  tc_channel :: chan
  tc_input :: Buffer
  tc_output :: Buffer
  tc_highWaterMark :: nat
  tc_hasWriteComplete :: bool
  tc_hasHighWaterMark :: bool
  tc_rx :: Reactor
  tc_wire :: "byte list"
  tc_writes :: nat
  tc_shut :: bool
  tc_keepAlive :: bool
  tc_noDelay :: bool
  tc_queue :: "queued list"
  tc_log :: "conn_log list"

type_synonym kwrite = "nat \<Rightarrow> byte list \<Rightarrow> int \<times> int"

definition EWOULDBLOCK :: int where "EWOULDBLOCK = 11"
definition EPIPE :: int where "EPIPE = 32"
definition ECONNRESET :: int where "ECONNRESET = 104"

text \<open>The constructor: the channel of the descriptor is a new one at the address \<open>c\<close>.\<close>

definition TcpConnection_new :: "string \<Rightarrow> chan \<Rightarrow> int \<Rightarrow> bool \<Rightarrow> bool \<Rightarrow> Reactor \<Rightarrow> TcpConnection" where
  "TcpConnection_new nm c sockfd wc hw rx =
     \<lparr>tc_name = nm, tc_state = kConnecting, tc_channel = c, tc_input = Buffer_new, tc_output = Buffer_new,
      tc_highWaterMark = 64 * 1024 * 1024, tc_hasWriteComplete = wc, tc_hasHighWaterMark = hw,
      tc_rx = rx\<lparr>heap := (heap rx)(c := Channel_new (rx_loop rx) sockfd)\<rparr>,
      tc_wire = [], tc_writes = 0, tc_shut = False, tc_keepAlive = True, tc_noDelay = False, tc_queue = [], tc_log = []\<rparr>"

definition tc_chan :: "TcpConnection \<Rightarrow> Channel" where
  "tc_chan s = heap (tc_rx s) (tc_channel s)"

definition connected :: "TcpConnection \<Rightarrow> bool" where
  "connected s \<longleftrightarrow> tc_state s = kConnected"

section \<open>Sending\<close>

definition tc_mask :: "mask_op \<Rightarrow> TcpConnection \<Rightarrow> TcpConnection res" where
  "tc_mask m s = bindR (Channel_mask m (tc_channel s) (tc_rx s)) (\<lambda>rx. Inr (s\<lparr>tc_rx := rx\<rparr>))"

text \<open>The direct write of \<^verbatim>\<open>sendInLoop\<close>: the state, the bytes that remain, and \<^verbatim>\<open>faultError\<close>.\<close>

definition send_direct :: "kwrite \<Rightarrow> byte list \<Rightarrow> TcpConnection \<Rightarrow> TcpConnection \<times> nat \<times> nat \<times> bool" where
  "send_direct kw data s =
     (if \<not> isWriting (tc_chan s) \<and> readableBytes (tc_output s) = 0 then
        let (n, errno) = kw (tc_writes s) data;
            s1 = s\<lparr>tc_writes := tc_writes s + 1\<rparr>
        in if n > 0 then
             let nwrote = nat n; remaining = sz_sub (length data) nwrote;
                 s2 = s1\<lparr>tc_wire := tc_wire s1 @ take nwrote data\<rparr>
             in (if remaining = 0 \<and> tc_hasWriteComplete s then s2\<lparr>tc_queue := tc_queue s2 @ [QWriteComplete]\<rparr> else s2,
                 nwrote, remaining, False)
           else (s1, 0, length data, errno \<noteq> EWOULDBLOCK \<and> (errno = EPIPE \<or> errno = ECONNRESET))
      else (s, 0, length data, False))"

text \<open>The rest of \<^verbatim>\<open>sendInLoop\<close>: the high water mark callback and the output buffer.\<close>

definition note_highWaterMark :: "nat \<Rightarrow> TcpConnection \<Rightarrow> TcpConnection" where
  "note_highWaterMark remaining s =
     (let oldLen = readableBytes (tc_output s) in
      if tc_highWaterMark s \<le> sz_add oldLen remaining \<and> oldLen < tc_highWaterMark s \<and> tc_hasHighWaterMark s
      then s\<lparr>tc_queue := tc_queue s @ [QHighWaterMark (sz_add oldLen remaining)]\<rparr> else s)"

definition send_rest :: "byte list \<Rightarrow> nat \<Rightarrow> TcpConnection \<Rightarrow> TcpConnection res" where
  "send_rest rest remaining s =
     (let s1 = note_highWaterMark remaining s in
      bindR (Buffer_append rest remaining (tc_output s1)) (\<lambda>out.
      let s2 = s1\<lparr>tc_output := out\<rparr> in
      if \<not> isWriting (tc_chan s2) then tc_mask EnableWriting s2 else Inr s2))"

definition sendInLoop :: "kwrite \<Rightarrow> byte list \<Rightarrow> TcpConnection \<Rightarrow> TcpConnection res" where
  "sendInLoop kw data s =
     bindR (assertInLoopThread (tc_rx s)) (\<lambda>_.
     if tc_state s = kDisconnected then Inr s
     else
       let (s1, nwrote, remaining, faultError) = send_direct kw data s in
       bindR (assertR (remaining \<le> length data) ''remaining <= len'') (\<lambda>_.
       if \<not> faultError \<and> remaining > 0 then send_rest (drop nwrote data) remaining s1 else Inr s1))"

definition send :: "kwrite \<Rightarrow> byte list \<Rightarrow> TcpConnection \<Rightarrow> TcpConnection res" where
  "send kw message s =
     (if tc_state s = kConnected then
        if isInLoopThread (tc_rx s) then sendInLoop kw message s
        else Inr (s\<lparr>tc_queue := tc_queue s @ [QSendInLoop message]\<rparr>)
      else Inr s)"

text \<open>\<^verbatim>\<open>send(const void*, int)\<close>: a view of the first \<open>len\<close> bytes of an object of the program.\<close>

definition send_data :: "kwrite \<Rightarrow> byte list \<Rightarrow> int \<Rightarrow> TcpConnection \<Rightarrow> TcpConnection res" where
  "send_data kw data len s = (if 0 \<le> len \<and> nat len \<le> length data then send kw (take (nat len) data) s else Inl OutOfBounds)"

text \<open>\<^verbatim>\<open>send(Buffer*)\<close>: the bytes of the buffer go out and the buffer is emptied.\<close>

definition send_buffer :: "kwrite \<Rightarrow> Buffer \<Rightarrow> TcpConnection \<Rightarrow> (Buffer \<times> TcpConnection) res" where
  "send_buffer kw buf s =
     (if tc_state s = kConnected then
        let message = slice (peek buf) (peek buf + readableBytes buf) (buf_data buf) in
        if isInLoopThread (tc_rx s) then bindR (sendInLoop kw message s) (\<lambda>s1. Inr (retrieveAll buf, s1))
        else bindR (retrieveAllAsString buf) (\<lambda>(str, buf1).
             Inr (buf1, s\<lparr>tc_queue := tc_queue s @ [QSendInLoop str]\<rparr>))
      else Inr (buf, s))"

section \<open>Closing\<close>

definition shutdownInLoop :: "TcpConnection \<Rightarrow> TcpConnection res" where
  "shutdownInLoop s =
     bindR (assertInLoopThread (tc_rx s)) (\<lambda>_.
     Inr (if \<not> isWriting (tc_chan s) then s\<lparr>tc_shut := True\<rparr> else s))"

definition shutdown :: "TcpConnection \<Rightarrow> TcpConnection res" where
  "shutdown s =
     (if tc_state s = kConnected then
        let s1 = s\<lparr>tc_state := kDisconnecting\<rparr> in
        if isInLoopThread (tc_rx s) then shutdownInLoop s1 else Inr (s1\<lparr>tc_queue := tc_queue s1 @ [QShutdownInLoop]\<rparr>)
      else Inr s)"

definition forceClose :: "TcpConnection \<Rightarrow> TcpConnection" where
  "forceClose s =
     (if tc_state s = kConnected \<or> tc_state s = kDisconnecting
      then s\<lparr>tc_state := kDisconnecting, tc_queue := tc_queue s @ [QForceClose]\<rparr> else s)"

text \<open>\<^verbatim>\<open>forceCloseWithDelay()\<close> leaves a timer with a \<^verbatim>\<open>WeakCallback\<close>, which does its work if the connection still
  exists when it expires (see \<open>WeakCallback_call\<close>).\<close>

definition forceCloseWithDelay :: "real \<Rightarrow> TcpConnection \<Rightarrow> TcpConnection" where
  "forceCloseWithDelay seconds s =
     (if tc_state s = kConnected \<or> tc_state s = kDisconnecting
      then s\<lparr>tc_state := kDisconnecting, tc_queue := tc_queue s @ [QForceCloseAfter seconds]\<rparr> else s)"

definition setTcpNoDelay :: "bool \<Rightarrow> TcpConnection \<Rightarrow> TcpConnection" where
  "setTcpNoDelay on s = s\<lparr>tc_noDelay := on\<rparr>"

definition setHighCompleteCallback :: "nat \<Rightarrow> TcpConnection \<Rightarrow> TcpConnection" where
  "setHighCompleteCallback highWaterMark s = s\<lparr>tc_hasHighWaterMark := True, tc_highWaterMark := highWaterMark\<rparr>"

text \<open>What a user callback may do with the connection.\<close>

datatype user_call = USend "byte list" | UShutdown | UForceClose | UForceCloseWithDelay real
  | USetTcpNoDelay bool | USetHighWaterMark nat | URetrieve nat | URetrieveAll

fun do_user :: "kwrite \<Rightarrow> user_call \<Rightarrow> TcpConnection \<Rightarrow> TcpConnection res" where
  "do_user kw (USend d) s = send kw d s"
| "do_user kw UShutdown s = shutdown s"
| "do_user kw UForceClose s = Inr (forceClose s)"
| "do_user kw (UForceCloseWithDelay d) s = Inr (forceCloseWithDelay d s)"
| "do_user kw (USetTcpNoDelay on) s = Inr (setTcpNoDelay on s)"
| "do_user kw (USetHighWaterMark n) s = Inr (setHighCompleteCallback n s)"
| "do_user kw (URetrieve n) s = bindR (retrieve n (tc_input s)) (\<lambda>b. Inr (s\<lparr>tc_input := b\<rparr>))"
| "do_user kw URetrieveAll s = Inr (s\<lparr>tc_input := retrieveAll (tc_input s)\<rparr>)"

record user_callbacks =
  on_connection :: "TcpConnection \<Rightarrow> user_call list"
  on_message :: "TcpConnection \<Rightarrow> user_call list"

definition call_connection :: "kwrite \<Rightarrow> user_callbacks \<Rightarrow> TcpConnection \<Rightarrow> TcpConnection res" where
  "call_connection kw u s =
     (let s1 = s\<lparr>tc_log := tc_log s @ [LConnection (connected s)]\<rparr> in foldR (do_user kw) (on_connection u s1) s1)"

definition call_message :: "kwrite \<Rightarrow> user_callbacks \<Rightarrow> TcpConnection \<Rightarrow> TcpConnection res" where
  "call_message kw u s =
     (let s1 = s\<lparr>tc_log := tc_log s @ [LMessage]\<rparr> in foldR (do_user kw) (on_message u s1) s1)"

definition defaultMessageCallback :: "TcpConnection \<Rightarrow> user_call list" where
  "defaultMessageCallback s = [URetrieveAll]"

definition defaultConnectionCallback :: "TcpConnection \<Rightarrow> user_call list" where
  "defaultConnectionCallback s = []"

text \<open>\<^verbatim>\<open>closeCallback_\<close> is \<^verbatim>\<open>TcpServer::removeConnection\<close> or \<^verbatim>\<open>TcpClient::removeConnection\<close>: both take the connection out of
  their tables and queue \<^verbatim>\<open>connectDestroyed\<close>.\<close>

definition handleClose :: "kwrite \<Rightarrow> user_callbacks \<Rightarrow> TcpConnection \<Rightarrow> TcpConnection res" where
  "handleClose kw u s =
     bindR (assertInLoopThread (tc_rx s)) (\<lambda>_.
     bindR (assertR (tc_state s = kConnected \<or> tc_state s = kDisconnecting) ''state_ == kConnected || state_ == kDisconnecting'') (\<lambda>_.
     bindR (tc_mask DisableAll (s\<lparr>tc_state := kDisconnected\<rparr>)) (\<lambda>s1.
     bindR (call_connection kw u s1) (\<lambda>s2.
     Inr (s2\<lparr>tc_log := tc_log s2 @ [LClose], tc_queue := tc_queue s2 @ [QConnectDestroyed]\<rparr>)))))"

definition forceCloseInLoop :: "kwrite \<Rightarrow> user_callbacks \<Rightarrow> TcpConnection \<Rightarrow> TcpConnection res" where
  "forceCloseInLoop kw u s =
     bindR (assertInLoopThread (tc_rx s)) (\<lambda>_.
     if tc_state s = kConnected \<or> tc_state s = kDisconnecting then handleClose kw u s else Inr s)"

text \<open>The \<^verbatim>\<open>WeakCallback\<close> of \<^verbatim>\<open>forceCloseWithDelay()\<close>: \<open>alive\<close> is whether \<^verbatim>\<open>object_.lock()\<close> finds the connection.\<close>

definition WeakCallback_call :: "('s \<Rightarrow> 's res) \<Rightarrow> bool \<Rightarrow> 's \<Rightarrow> 's res" where
  "WeakCallback_call f alive s = (if alive then f s else Inr s)"

definition delayed_close :: "kwrite \<Rightarrow> user_callbacks \<Rightarrow> bool \<Rightarrow> TcpConnection \<Rightarrow> TcpConnection res" where
  "delayed_close kw u = WeakCallback_call (forceCloseInLoop kw u)"

definition handleError :: "TcpConnection \<Rightarrow> TcpConnection" where
  "handleError s = s\<lparr>tc_log := tc_log s @ [LError]\<rparr>"

section \<open>Events\<close>

definition connectEstablished :: "kwrite \<Rightarrow> user_callbacks \<Rightarrow> TcpConnection \<Rightarrow> TcpConnection res" where
  "connectEstablished kw u s =
     bindR (assertInLoopThread (tc_rx s)) (\<lambda>_.
     bindR (assertR (tc_state s = kConnecting) ''state_ == kConnecting'') (\<lambda>_.
     let s1 = s\<lparr>tc_state := kConnected, tc_rx := heap_upd (tc_channel s) (Channel_tie (tc_channel s)) (tc_rx s)\<rparr> in
     bindR (tc_mask EnableReading s1) (call_connection kw u)))"

definition connectDestroyed :: "kwrite \<Rightarrow> user_callbacks \<Rightarrow> TcpConnection \<Rightarrow> TcpConnection res" where
  "connectDestroyed kw u s =
     bindR (assertInLoopThread (tc_rx s)) (\<lambda>_.
     bindR (if tc_state s = kConnected
            then bindR (tc_mask DisableAll (s\<lparr>tc_state := kDisconnected\<rparr>)) (call_connection kw u) else Inr s) (\<lambda>s1.
     bindR (Channel_remove (tc_channel s1) (tc_rx s1)) (\<lambda>rx. Inr (s1\<lparr>tc_rx := rx\<rparr>))))"

definition TcpConnection_handleRead ::
    "kwrite \<Rightarrow> user_callbacks \<Rightarrow> (nat list \<Rightarrow> sys_read) \<Rightarrow> TcpConnection \<Rightarrow> TcpConnection res" where
  "TcpConnection_handleRead kw u readv s =
     bindR (assertInLoopThread (tc_rx s)) (\<lambda>_.
     bindR (readFd readv (tc_input s)) (\<lambda>(n, savedErrno, b).
     let s1 = s\<lparr>tc_input := b\<rparr> in
     if n > 0 then call_message kw u s1
     else if n = 0 then handleClose kw u s1
     else Inr (handleError s1)))"

text \<open>The branch of \<^verbatim>\<open>handleWrite\<close> for an emptied buffer.\<close>

definition output_drained :: "TcpConnection \<Rightarrow> TcpConnection res" where
  "output_drained s =
     bindR (tc_mask DisableWriting s) (\<lambda>s1.
     if readableBytes (tc_output s1) = 0 then
       bindR (tc_mask DisableWriting s1) (\<lambda>s2.
       let s3 = (if tc_hasWriteComplete s2 then s2\<lparr>tc_queue := tc_queue s2 @ [QWriteComplete]\<rparr> else s2)
       in if tc_state s3 = kDisconnecting then shutdownInLoop s3 else Inr s3)
     else Inr s1)"

definition handleWrite :: "kwrite \<Rightarrow> TcpConnection \<Rightarrow> TcpConnection res" where
  "handleWrite kw s =
     bindR (assertInLoopThread (tc_rx s)) (\<lambda>_.
     if isWriting (tc_chan s) then
       let data = slice (peek (tc_output s)) (peek (tc_output s) + readableBytes (tc_output s)) (buf_data (tc_output s));
           (n, errno) = kw (tc_writes s) data;
           s1 = s\<lparr>tc_writes := tc_writes s + 1\<rparr>
       in if n > 0 then
            bindR (retrieve (nat n) (tc_output s1)) (\<lambda>out.
            let s2 = s1\<lparr>tc_output := out, tc_wire := tc_wire s1 @ take (nat n) data\<rparr> in
            if readableBytes out = 0 then output_drained s2 else Inr s2)
          else Inr s1
     else Inr s)"

section \<open>Invariant\<close>

definition kw_contract :: "kwrite \<Rightarrow> bool" where
  "kw_contract kw \<longleftrightarrow> (\<forall>i data. fst (kw i data) \<le> int (length data))"

text \<open>A live connection has its channel registered, and the channel waits for writability exactly
  while the output buffer holds bytes. The write side is shut down only behind the last byte.\<close>

definition tc_inv :: "TcpConnection \<Rightarrow> bool" where
  "tc_inv s \<longleftrightarrow>
     buf_inv (tc_input s) \<and> buf_inv (tc_output s) \<and> poller_inv (tc_rx s) \<and> rx_ready (tc_rx s) (tc_channel s) \<and>
     tc_state s \<noteq> kConnecting \<and>
     (tc_state s \<noteq> kDisconnected \<longrightarrow> has_ev (ch_events (tc_chan s)) kReadEvent \<and>
        (isWriting (tc_chan s) \<longleftrightarrow> content (tc_output s) \<noteq> [])) \<and>
     (tc_state s = kDisconnected \<longrightarrow> rx_idle (tc_rx s) (tc_channel s)) \<and>
     (tc_shut s \<longrightarrow> tc_state s \<noteq> kConnected \<and> (tc_state s = kDisconnecting \<longrightarrow> content (tc_output s) = []))"

text \<open>The bytes handed over so far: those the kernel has, then those that wait.\<close>

definition tc_stream :: "TcpConnection \<Rightarrow> byte list" where
  "tc_stream s = tc_wire s @ content (tc_output s)"

section \<open>Mask changes\<close>

lemma tc_mask_ok:
  assumes "poller_inv (tc_rx s)" "rx_ready (tc_rx s) (tc_channel s)"
  obtains rx where "tc_mask m s = Inr (s\<lparr>tc_rx := rx\<rparr>)" "poller_inv rx" "rx_ready rx (tc_channel s)"
    "ch_events (heap rx (tc_channel s)) = mask_of m (ch_events (tc_chan s))"
    "m = DisableAll \<Longrightarrow> rx_idle rx (tc_channel s)"
proof -
  obtain rx where rx: "Channel_mask m (tc_channel s) (tc_rx s) = Inr rx" "poller_inv rx" "rx_ready rx (tc_channel s)"
    "heap rx = heap (masked m (tc_channel s) (tc_rx s))"
    by (rule rx_mask_ready [OF assms, of m]) 
  show ?thesis
    using that [of rx] rx rx_disableAll_idle [OF assms, of rx] by (auto simp: tc_mask_def tc_chan_def)
qed

lemma ready_in_loop: "rx_ready rx c \<Longrightarrow> isInLoopThread rx"
  by (simp add: rx_ready_def on_loop_def)

lemma ready_assert: "rx_ready rx c \<Longrightarrow> assertInLoopThread rx = Inr ()"
  using assertInLoopThread_ok [of rx c] by (simp add: rx_ready_def)

lemma tc_invD:
  assumes "tc_inv s"
  shows "buf_inv (tc_input s)" "buf_inv (tc_output s)" "poller_inv (tc_rx s)" "rx_ready (tc_rx s) (tc_channel s)"
    "tc_state s \<noteq> kConnecting" "assertInLoopThread (tc_rx s) = Inr ()"
    "readableBytes (tc_output s) = length (content (tc_output s))"
    "tc_state s \<noteq> kDisconnected \<Longrightarrow> isWriting (tc_chan s) \<longleftrightarrow> content (tc_output s) \<noteq> []"
    "tc_state s \<noteq> kDisconnected \<Longrightarrow> has_ev (ch_events (tc_chan s)) kReadEvent"
    "tc_state s = kDisconnected \<Longrightarrow> rx_idle (tc_rx s) (tc_channel s)"
    "tc_state s = kConnected \<Longrightarrow> \<not> tc_shut s"
    "tc_shut s \<Longrightarrow> tc_state s = kDisconnecting \<Longrightarrow> content (tc_output s) = []"
  using assms ready_assert [of "tc_rx s" "tc_channel s"] unfolding tc_inv_def by auto

lemma idle_not_writing: "rx_idle (tc_rx s) (tc_channel s) \<Longrightarrow> \<not> isWriting (tc_chan s)"
  by (simp add: rx_idle_def tc_chan_def isWriting_def isNoneEvent_def has_ev_def kNoneEvent_def)

section \<open>Sending\<close>

text \<open>The sends the buffer accepts: no fatal socket error, and the bytes that remain are of a
  kind that an append does not abort on (see theory \<open>Buffer\<close>).\<close>

definition send_ok :: "kwrite \<Rightarrow> byte list \<Rightarrow> TcpConnection \<Rightarrow> bool" where
  "send_ok kw data s \<longleftrightarrow> length data < SIZE_MOD \<and>
     (case send_direct kw data s of (s1, nwrote, remaining, faultError) \<Rightarrow>
        \<not> faultError \<and> (remaining > 0 \<longrightarrow> appendable remaining (tc_output s)))"

lemma send_direct_ok:
  assumes "kw_contract kw" "length data < SIZE_MOD" "send_direct kw data s = (s1, nw, rem, False)" "buf_inv (tc_output s)"
    "isWriting (tc_chan s) \<longleftrightarrow> content (tc_output s) \<noteq> []"
  shows "nw \<le> length data \<and> rem = length data - nw \<and> tc_wire s1 = tc_wire s @ take nw data \<and>
     (0 < nw \<longrightarrow> content (tc_output s) = []) \<and>
     s1 = s\<lparr>tc_writes := tc_writes s1, tc_wire := tc_wire s @ take nw data, tc_queue := tc_queue s1\<rparr>"
proof (cases "\<not> isWriting (tc_chan s) \<and> readableBytes (tc_output s) = 0")
  case True
  obtain n e where k: "kw (tc_writes s) data = (n, e)" by (cases "kw (tc_writes s) data")
  have n: "n \<le> int (length data)" using assms(1) k unfolding kw_contract_def by (metis fst_conv)
  have c: "content (tc_output s) = []" using True length_content [OF assms(4)] by (metis length_0_conv)
  show ?thesis
  proof (cases "n > 0")
    case pos: True
    have "sz_sub (length data) (nat n) = length data - nat n" using n assms(2) by (intro sz_sub_eq) simp_all
    then show ?thesis
      using assms(3) True k pos n c by (auto simp: send_direct_def Let_def split: if_splits)
  next
    case False
    then show ?thesis using assms(3) True k c by (auto simp: send_direct_def Let_def)
  qed
next
  case False
  then show ?thesis using assms(3) by (auto simp: send_direct_def Let_def)
qed

lemma send_rest_ok:
  assumes i: "tc_inv s" and live: "tc_state s \<noteq> kDisconnected" "\<not> tc_shut s"
    and app: "appendable (length rest) (tc_output s)" "rest \<noteq> []"
  shows "\<exists>s'. send_rest rest (length rest) s = Inr s' \<and> tc_inv s' \<and> tc_state s' = tc_state s \<and>
     tc_stream s' = tc_stream s @ rest \<and> tc_log s' = tc_log s \<and> tc_shut s' = tc_shut s"
proof -
  obtain q where q: "note_highWaterMark (length rest) s = s\<lparr>tc_queue := q\<rparr>"
  proof (cases "note_highWaterMark (length rest) s = s")
    case True
    then show ?thesis using that [of "tc_queue s"] by simp
  qed (auto simp: note_highWaterMark_def Let_def split: if_splits intro: that)
  obtain out where out: "Buffer_append rest (length rest) (tc_output s) = Inr out" "buf_inv out"
    "content out = content (tc_output s) @ rest"
    using bq.append_all [OF tc_invD(2) [OF i] app(1)] by auto
  define s2 where "s2 = s\<lparr>tc_queue := q, tc_output := out\<rparr>"
  have ch: "tc_chan s2 = tc_chan s" by (simp add: s2_def tc_chan_def)
  have run: "send_rest rest (length rest) s = (if \<not> isWriting (tc_chan s) then tc_mask EnableWriting s2 else Inr s2)"
    using q out(1) ch by (simp add: send_rest_def Let_def s2_def)
  have ne: "content out \<noteq> []" using out(3) app(2) by simp
  show ?thesis
  proof (cases "isWriting (tc_chan s)")
    case w: True
    have "tc_inv s2" using i ne out(2) w live ch by (simp add: tc_inv_def s2_def tc_chan_def)
    then show ?thesis using run w out(3) by (simp add: tc_stream_def s2_def)
  next
    case False
    obtain rx where rx: "tc_mask EnableWriting s2 = Inr (s2\<lparr>tc_rx := rx\<rparr>)" "poller_inv rx" "rx_ready rx (tc_channel s2)"
      "ch_events (heap rx (tc_channel s2)) = mask_of EnableWriting (ch_events (tc_chan s2))"
      by (rule tc_mask_ok [of s2 EnableWriting]) (use tc_invD(3,4) [OF i] in \<open>simp_all add: s2_def\<close>)
    have "tc_inv (s2\<lparr>tc_rx := rx\<rparr>)"
      using i ne out(2) rx live ch tc_invD(9) [OF i live(1)]
      by (simp add: tc_inv_def tc_chan_def isWriting_def s2_def del: mask_of.simps)
    then show ?thesis using run False rx(1) out(3) by (simp add: tc_stream_def s2_def)
  qed
qed

lemma sendInLoop_ok:
  assumes i: "tc_inv s" and live: "tc_state s \<noteq> kDisconnected" and notshut: "\<not> tc_shut s"
    and c: "kw_contract kw" and ok: "send_ok kw data s"
  shows "\<exists>s'. sendInLoop kw data s = Inr s' \<and> tc_inv s' \<and> tc_state s' = tc_state s \<and> tc_stream s' = tc_stream s @ data \<and>
     tc_log s' = tc_log s \<and> tc_shut s' = tc_shut s"
proof -
  obtain s1 nw rem where d: "send_direct kw data s = (s1, nw, rem, False)" and app: "rem > 0 \<longrightarrow> appendable rem (tc_output s)"
    and len: "length data < SIZE_MOD"
    using ok unfolding send_ok_def by (cases "send_direct kw data s") auto
  note D = send_direct_ok [OF c len d tc_invD(2) [OF i] tc_invD(8) [OF i live]]
  then obtain w q where s1: "s1 = s\<lparr>tc_writes := w, tc_wire := tc_wire s @ take nw data, tc_queue := q\<rparr>" by blast
  have inv1: "tc_inv s1" using i by (simp add: tc_inv_def s1 tc_chan_def)
  have st1: "tc_stream s1 = tc_stream s @ take nw data" using D by (cases "nw = 0") (auto simp: tc_stream_def s1)
  show ?thesis
  proof (cases "rem > 0")
    case False
    then have "sendInLoop kw data s = Inr s1" using live d D by (simp add: sendInLoop_def tc_invD(6) [OF i])
    moreover have "take nw data = data" using False D by simp
    ultimately show ?thesis using inv1 st1 by (simp add: s1)
  next
    case True
    then have rem: "rem = length (drop nw data)" "drop nw data \<noteq> []" using D by auto
    have "sendInLoop kw data s = send_rest (drop nw data) (length (drop nw data)) s1"
      using True live d D by (simp add: sendInLoop_def tc_invD(6) [OF i])
    moreover have "\<exists>s'. send_rest (drop nw data) (length (drop nw data)) s1 = Inr s' \<and> tc_inv s' \<and> tc_state s' = tc_state s1 \<and>
       tc_stream s' = tc_stream s1 @ drop nw data \<and> tc_log s' = tc_log s1 \<and> tc_shut s' = tc_shut s1"
      by (rule send_rest_ok [OF inv1]) (use live notshut app rem True in \<open>simp_all add: s1\<close>)
    ultimately show ?thesis using st1 by (simp add: s1)
  qed
qed

section \<open>Flushing and shutting down\<close>

lemma output_bytes: "buf_inv b \<Longrightarrow> slice (peek b) (peek b + readableBytes b) (buf_data b) = content b"
  by (simp add: content_def buf_inv_readable peek_def buf_inv_def)

lemma shutdownInLoop_ok:
  assumes "tc_inv s" "tc_state s = kDisconnecting"
  shows "shutdownInLoop s = Inr (s\<lparr>tc_shut := tc_shut s \<or> content (tc_output s) = []\<rparr>) \<and>
     tc_inv (s\<lparr>tc_shut := tc_shut s \<or> content (tc_output s) = []\<rparr>)"
proof -
  have w: "isWriting (tc_chan s) \<longleftrightarrow> content (tc_output s) \<noteq> []" using tc_invD(8) [OF assms(1)] assms(2) by simp
  have "s\<lparr>tc_shut := tc_shut s\<rparr> = s" by simp
  then have "shutdownInLoop s = Inr (s\<lparr>tc_shut := tc_shut s \<or> content (tc_output s) = []\<rparr>)"
    using w by (cases "content (tc_output s) = []") (simp_all add: shutdownInLoop_def tc_invD(6) [OF assms(1)])
  moreover have "tc_inv (s\<lparr>tc_shut := tc_shut s \<or> content (tc_output s) = []\<rparr>)"
    using assms by (auto simp: tc_inv_def tc_chan_def)
  ultimately show ?thesis ..
qed

lemma shutdown_ok:
  assumes "tc_inv s"
  shows "\<exists>s'. shutdown s = Inr s' \<and> tc_inv s' \<and> tc_stream s' = tc_stream s \<and> tc_wire s' = tc_wire s \<and> tc_log s' = tc_log s \<and>
     tc_state s' = (if tc_state s = kConnected then kDisconnecting else tc_state s)"
proof (cases "tc_state s = kConnected")
  case True
  have "tc_inv (s\<lparr>tc_state := kDisconnecting\<rparr>)" using assms True by (simp add: tc_inv_def tc_chan_def)
  from shutdownInLoop_ok [OF this] True show ?thesis
    by (simp add: shutdown_def tc_stream_def ready_in_loop [OF tc_invD(4) [OF assms]])
qed (use assms in \<open>simp add: shutdown_def\<close>)

lemma output_drained_ok:
  assumes r: "poller_inv (tc_rx s)" "rx_ready (tc_rx s) (tc_channel s)"
    and b: "buf_inv (tc_input s)" "buf_inv (tc_output s)" "content (tc_output s) = []"
    and st: "tc_state s = kConnected \<or> tc_state s = kDisconnecting" "\<not> tc_shut s"
    and rd: "has_ev (ch_events (tc_chan s)) kReadEvent"
  shows "\<exists>s'. output_drained s = Inr s' \<and> tc_inv s' \<and> tc_state s' = tc_state s \<and> tc_output s' = tc_output s \<and>
     tc_wire s' = tc_wire s \<and> tc_log s' = tc_log s"
proof -
  obtain rx where rx: "tc_mask DisableWriting s = Inr (s\<lparr>tc_rx := rx\<rparr>)" "poller_inv rx" "rx_ready rx (tc_channel s)"
    "ch_events (heap rx (tc_channel s)) = mask_of DisableWriting (ch_events (tc_chan s))"
    by (rule tc_mask_ok [OF r, of DisableWriting])
  obtain ry where ry: "tc_mask DisableWriting (s\<lparr>tc_rx := rx\<rparr>) = Inr (s\<lparr>tc_rx := ry\<rparr>)" "poller_inv ry" "rx_ready ry (tc_channel s)"
    "ch_events (heap ry (tc_channel s)) = mask_of DisableWriting (mask_of DisableWriting (ch_events (tc_chan s)))"
    by (rule tc_mask_ok [of "s\<lparr>tc_rx := rx\<rparr>" DisableWriting]) (use rx in \<open>simp_all add: tc_chan_def\<close>)
  have ro: "readableBytes (tc_output s) = 0" using length_content [OF b(2)] b(3) by simp
  have ex: "\<exists>s'. (if tc_state t = kDisconnecting then shutdownInLoop t else Inr t) = Inr s' \<and> tc_inv s' \<and>
      tc_state s' = tc_state t \<and> tc_output s' = tc_output t \<and> tc_wire s' = tc_wire t \<and> tc_log s' = tc_log t" if "tc_inv t" for t
    using shutdownInLoop_ok [OF that] that by auto
  have inv: "tc_inv (s\<lparr>tc_rx := ry, tc_queue := q\<rparr>)" for q
    using ry b st rd by (auto simp: tc_inv_def tc_chan_def isWriting_def simp del: mask_of.simps)
  have "tc_inv (s\<lparr>tc_rx := ry\<rparr>)" using inv [of "tc_queue s"] by (simp add: tc_inv_def tc_chan_def)
  from ex [OF this] ex [OF inv [of "tc_queue s @ [QWriteComplete]"]] rx(1) ry(1) ro show ?thesis
    by (cases "tc_hasWriteComplete s"; cases "tc_state s = kDisconnecting") (simp_all add: output_drained_def Let_def)
qed

lemma handleWrite_ok:
  assumes i: "tc_inv s" and c: "kw_contract kw"
  shows "\<exists>s'. handleWrite kw s = Inr s' \<and> tc_inv s' \<and> tc_stream s' = tc_stream s \<and> tc_state s' = tc_state s \<and>
     tc_log s' = tc_log s"
proof (cases "isWriting (tc_chan s)")
  case False
  then show ?thesis using i by (simp add: handleWrite_def tc_invD(6) [OF i])
next
  case True
  have live: "tc_state s = kConnected \<or> tc_state s = kDisconnecting"
    using True tc_invD(10) [OF i] tc_invD(5) [OF i] idle_not_writing by (cases "tc_state s") auto
  then have nd: "tc_state s \<noteq> kDisconnected" by auto
  define data where "data = content (tc_output s)"
  obtain n e where k: "kw (tc_writes s) data = (n, e)" by (cases "kw (tc_writes s) data")
  have n: "nat n \<le> length data" using c k unfolding kw_contract_def by (metis fst_conv nat_le_iff)
  have bytes: "slice (peek (tc_output s)) (peek (tc_output s) + readableBytes (tc_output s)) (buf_data (tc_output s)) = data"
    using output_bytes [OF tc_invD(2) [OF i]] by (simp add: data_def)
  have notshut: "\<not> tc_shut s" using tc_invD(8) [OF i nd] tc_invD(11,12) [OF i] True live by auto
  show ?thesis
  proof (cases "n > 0")
    case False
    have "tc_inv (s\<lparr>tc_writes := tc_writes s + 1\<rparr>)" using i by (simp add: tc_inv_def tc_chan_def)
    with True k False show ?thesis by (simp add: handleWrite_def tc_invD(6) [OF i] bytes tc_stream_def)
  next
    case pos: True
    obtain out where out: "retrieve (nat n) (tc_output s) = Inr out" "buf_inv out" "content out = drop (nat n) data"
      using bq.retrieve [OF tc_invD(2) [OF i], of "nat n"] n by (auto simp: data_def)
    define s2 where "s2 = s\<lparr>tc_writes := tc_writes s + 1, tc_output := out, tc_wire := tc_wire s @ take (nat n) data\<rparr>"
    have st: "tc_wire s2 @ content (tc_output s2) = tc_stream s" by (simp add: s2_def out(3) tc_stream_def data_def)
    have f: "tc_state s2 = tc_state s" "tc_log s2 = tc_log s" by (simp_all add: s2_def)
    have run: "handleWrite kw s = (if content out = [] then output_drained s2 else Inr s2)"
      using True k pos out(1) length_content [OF out(2)]
      by (auto simp: handleWrite_def tc_invD(6) [OF i] bytes s2_def simp flip: length_0_conv)
    show ?thesis
    proof (cases "content out = []")
      case False
      have "tc_inv s2"
        using i True nd out(2) False notshut by (simp add: tc_inv_def s2_def tc_chan_def)
      with False run st f show ?thesis by (simp add: tc_stream_def)
    next
      case empty: True
      have "\<exists>s'. output_drained s2 = Inr s' \<and> tc_inv s' \<and> tc_state s' = tc_state s2 \<and> tc_output s' = tc_output s2 \<and>
          tc_wire s' = tc_wire s2 \<and> tc_log s' = tc_log s2"
        by (rule output_drained_ok)
          (use tc_invD(1,3,4) [OF i] out(2) empty live notshut tc_invD(9) [OF i nd] in \<open>simp_all add: s2_def tc_chan_def\<close>)
      with empty run st f show ?thesis by (auto simp: tc_stream_def)
    qed
  qed
qed

section \<open>User callbacks\<close>

text \<open>What a callback may ask for: sends the buffer accepts, and no more input than there is.\<close>

fun ucall_ok :: "kwrite \<Rightarrow> user_call \<Rightarrow> TcpConnection \<Rightarrow> bool" where
  "ucall_ok kw (USend d) s \<longleftrightarrow> (tc_state s = kConnected \<longrightarrow> send_ok kw d s)"
| "ucall_ok kw (URetrieve n) s \<longleftrightarrow> n \<le> readableBytes (tc_input s)"
| "ucall_ok kw _ s \<longleftrightarrow> True"

abbreviation ucalls_ok :: "kwrite \<Rightarrow> user_call list \<Rightarrow> TcpConnection \<Rightarrow> bool" where
  "ucalls_ok kw \<equiv> steps_ok (do_user kw) (ucall_ok kw)"

definition user_ok :: "kwrite \<Rightarrow> user_callbacks \<Rightarrow> bool" where
  "user_ok kw u \<longleftrightarrow> (\<forall>s. ucalls_ok kw (on_connection u s) s \<and> ucalls_ok kw (on_message u s) s)"

text \<open>The bytes a sequence of calls hands over: sends count while the connection is up.\<close>

fun sent_by :: "user_call \<Rightarrow> bool \<times> byte list \<Rightarrow> bool \<times> byte list" where
  "sent_by (USend d) (up, bs) = (up, if up then bs @ d else bs)"
| "sent_by UShutdown (up, bs) = (False, bs)"
| "sent_by UForceClose (up, bs) = (False, bs)"
| "sent_by (UForceCloseWithDelay d) (up, bs) = (False, bs)"
| "sent_by _ (up, bs) = (up, bs)"

definition tc_abs :: "TcpConnection \<Rightarrow> bool \<times> byte list" where
  "tc_abs s = (connected s, tc_stream s)"

lemma do_user_ok:
  assumes i: "tc_inv s" and c: "kw_contract kw" and ok: "ucall_ok kw call s"
  shows "\<exists>s'. do_user kw call s = Inr s' \<and> tc_inv s' \<and> tc_log s' = tc_log s \<and> tc_abs s' = sent_by call (tc_abs s) \<and>
     (tc_state s' = kDisconnected \<longleftrightarrow> tc_state s = kDisconnected)"
proof (cases call)
  case (USend d)
  show ?thesis
  proof (cases "tc_state s = kConnected")
    case True
    with sendInLoop_ok [OF i _ tc_invD(11) [OF i True] c, of d] ok USend show ?thesis
      by (fastforce simp: send_def tc_abs_def connected_def ready_in_loop [OF tc_invD(4) [OF i]])
  next
    case False
    with i USend show ?thesis by (simp add: send_def tc_abs_def connected_def)
  qed
next
  case UShutdown
  with shutdown_ok [OF i] show ?thesis by (auto simp: tc_abs_def connected_def)
next
  case UForceClose
  have "tc_inv (forceClose s)" using i by (auto simp: forceClose_def tc_inv_def tc_chan_def)
  moreover have "tc_log (forceClose s) = tc_log s" "tc_stream (forceClose s) = tc_stream s"
    "\<not> connected (forceClose s)" "tc_state (forceClose s) = kDisconnected \<longleftrightarrow> tc_state s = kDisconnected"
    by (auto simp: forceClose_def tc_stream_def connected_def)
  ultimately show ?thesis using UForceClose by (simp add: tc_abs_def)
next
  case (UForceCloseWithDelay d)
  have "tc_inv (forceCloseWithDelay d s)" using i by (auto simp: forceCloseWithDelay_def tc_inv_def tc_chan_def)
  moreover have "tc_log (forceCloseWithDelay d s) = tc_log s" "tc_stream (forceCloseWithDelay d s) = tc_stream s"
    "\<not> connected (forceCloseWithDelay d s)"
    "tc_state (forceCloseWithDelay d s) = kDisconnected \<longleftrightarrow> tc_state s = kDisconnected"
    by (auto simp: forceCloseWithDelay_def tc_stream_def connected_def)
  ultimately show ?thesis using UForceCloseWithDelay by (simp add: tc_abs_def)
next
  case (USetTcpNoDelay on)
  then show ?thesis
    using i by (simp add: setTcpNoDelay_def tc_inv_def tc_chan_def tc_abs_def connected_def tc_stream_def)
next
  case (USetHighWaterMark n)
  then show ?thesis
    using i by (simp add: setHighCompleteCallback_def tc_inv_def tc_chan_def tc_abs_def connected_def tc_stream_def)
next
  case (URetrieve n)
  obtain b where "retrieve n (tc_input s) = Inr b" "buf_inv b"
    using bq.retrieve [OF tc_invD(1) [OF i], of n] length_content [OF tc_invD(1) [OF i]] ok URetrieve by auto
  moreover from this have "tc_inv (s\<lparr>tc_input := b\<rparr>)" using i by (simp add: tc_inv_def tc_chan_def)
  ultimately show ?thesis using URetrieve by (simp add: tc_abs_def connected_def tc_stream_def)
next
  case URetrieveAll
  have "tc_inv (s\<lparr>tc_input := retrieveAll (tc_input s)\<rparr>)" using i by (simp add: tc_inv_def tc_chan_def)
  with URetrieveAll show ?thesis by (simp add: tc_abs_def connected_def tc_stream_def)
qed

lemma do_users_ok:
  assumes "tc_inv s" "kw_contract kw" "ucalls_ok kw calls s"
  shows "\<exists>s'. foldR (do_user kw) calls s = Inr s' \<and> tc_inv s' \<and> tc_log s' = tc_log s \<and>
     tc_abs s' = fold sent_by calls (tc_abs s) \<and> (tc_state s' = kDisconnected \<longleftrightarrow> tc_state s = kDisconnected)"
  using assms(1,3)
proof (induction calls arbitrary: s)
  case (Cons c cs)
  then obtain t where t: "do_user kw c s = Inr t" "tc_inv t" "tc_log t = tc_log s" "tc_abs t = sent_by c (tc_abs s)"
    "tc_state t = kDisconnected \<longleftrightarrow> tc_state s = kDisconnected"
    using do_user_ok [OF Cons.prems(1) assms(2), of c] by auto
  with Cons.IH [of t] Cons.prems(2) show ?case by simp
qed simp

lemma tc_inv_log [simp]: "tc_inv (s\<lparr>tc_log := l\<rparr>) = tc_inv s" "tc_inv (s\<lparr>tc_queue := q\<rparr>) = tc_inv s"
  by (simp_all add: tc_inv_def tc_chan_def)

lemma call_connection_ok:
  assumes "tc_inv s" "kw_contract kw" "user_ok kw u"
  shows "\<exists>s'. call_connection kw u s = Inr s' \<and> tc_inv s' \<and> tc_log s' = tc_log s @ [LConnection (connected s)] \<and>
     (tc_state s' = kDisconnected \<longleftrightarrow> tc_state s = kDisconnected)"
proof -
  let ?s = "s\<lparr>tc_log := tc_log s @ [LConnection (connected s)]\<rparr>"
  have "ucalls_ok kw (on_connection u ?s) ?s" using assms(3) by (simp only: user_ok_def)
  with do_users_ok [of ?s kw "on_connection u ?s"] assms(1,2) show ?thesis
    by (auto simp: call_connection_def Let_def)
qed

lemma call_message_ok:
  assumes "tc_inv s" "kw_contract kw" "user_ok kw u"
  shows "\<exists>s'. call_message kw u s = Inr s' \<and> tc_inv s' \<and> tc_log s' = tc_log s @ [LMessage] \<and>
     (tc_state s' = kDisconnected \<longleftrightarrow> tc_state s = kDisconnected)"
proof -
  let ?s = "s\<lparr>tc_log := tc_log s @ [LMessage]\<rparr>"
  have "ucalls_ok kw (on_message u ?s) ?s" using assms(3) by (simp only: user_ok_def)
  with do_users_ok [of ?s kw "on_message u ?s"] assms(1,2) show ?thesis
    by (auto simp: call_message_def Let_def)
qed

section \<open>Closing\<close>

text \<open>\<^verbatim>\<open>setState(kDisconnected)\<close> with \<^verbatim>\<open>disableAll()\<close>.\<close>

lemma disconnect_ok:
  assumes "tc_inv s"
  obtains rx where "tc_mask DisableAll (s\<lparr>tc_state := kDisconnected\<rparr>) = Inr (s\<lparr>tc_state := kDisconnected, tc_rx := rx\<rparr>)"
    "tc_inv (s\<lparr>tc_state := kDisconnected, tc_rx := rx\<rparr>)"
proof -
  let ?s = "s\<lparr>tc_state := kDisconnected\<rparr>"
  obtain rx where rx: "tc_mask DisableAll ?s = Inr (?s\<lparr>tc_rx := rx\<rparr>)" "poller_inv rx" "rx_ready rx (tc_channel ?s)"
    "DisableAll = DisableAll \<Longrightarrow> rx_idle rx (tc_channel ?s)"
    by (rule tc_mask_ok [of ?s DisableAll]) (use tc_invD(3,4) [OF assms] in simp_all)
  then have "tc_inv (?s\<lparr>tc_rx := rx\<rparr>)" using assms by (simp add: tc_inv_def)
  with rx(1) that show ?thesis by simp
qed

lemma handleClose_ok:
  assumes "tc_inv s" "tc_state s \<noteq> kDisconnected" "kw_contract kw" "user_ok kw u"
  shows "\<exists>s'. handleClose kw u s = Inr s' \<and> tc_inv s' \<and> tc_state s' = kDisconnected \<and>
     tc_log s' = tc_log s @ [LConnection False, LClose]"
proof -
  have st: "tc_state s = kConnected \<or> tc_state s = kDisconnecting"
    using assms(2) tc_invD(5) [OF assms(1)] by (cases "tc_state s") auto
  obtain rx where rx: "tc_mask DisableAll (s\<lparr>tc_state := kDisconnected\<rparr>) = Inr (s\<lparr>tc_state := kDisconnected, tc_rx := rx\<rparr>)"
    "tc_inv (s\<lparr>tc_state := kDisconnected, tc_rx := rx\<rparr>)" (is "tc_inv ?t")
    using disconnect_ok [OF assms(1)] .
  from call_connection_ok [OF rx(2) assms(3,4)] obtain s' where "call_connection kw u ?t = Inr s'" "tc_inv s'"
    "tc_log s' = tc_log s @ [LConnection False]" "tc_state s' = kDisconnected"
    by (auto simp: connected_def)
  with rx(1) st show ?thesis by (simp add: handleClose_def tc_invD(6) [OF assms(1)])
qed

text \<open>One event of a live or closed connection, as far as it returns: the channel of a closed
  connection has no events, so the loop no longer reads for it.\<close>

inductive tc_step :: "kwrite \<Rightarrow> user_callbacks \<Rightarrow> TcpConnection \<Rightarrow> TcpConnection \<Rightarrow> bool"
  for kw :: kwrite and u :: user_callbacks where
  st_read: "tc_state s \<noteq> kDisconnected \<Longrightarrow>
    (\<And>bs. readv (readFd_iov (tc_input s)) = ReadOk bs \<Longrightarrow> length bs \<le> sum_list (readFd_iov (tc_input s))) \<Longrightarrow>
    TcpConnection_handleRead kw u readv s = Inr s' \<Longrightarrow> tc_step kw u s s'"
| st_write: "handleWrite kw s = Inr s' \<Longrightarrow> tc_step kw u s s'"
| st_error: "tc_step kw u s (handleError s)"
| st_calls: "ucalls_ok kw calls s \<Longrightarrow> foldR (do_user kw) calls s = Inr s' \<Longrightarrow> tc_step kw u s s'"
| st_force: "delayed_close kw u alive s = Inr s' \<Longrightarrow> tc_step kw u s s'"
| st_queue: "tc_step kw u s (s\<lparr>tc_queue := q\<rparr>)"

definition tc_init :: "kwrite \<Rightarrow> user_callbacks \<Rightarrow> TcpConnection \<Rightarrow> bool" where
  "tc_init kw u s \<longleftrightarrow> (\<exists>rx nm c fd wc hw. let s0 = TcpConnection_new nm c fd wc hw rx in
     poller_inv (tc_rx s0) \<and> fresh (tc_rx s0) c \<and> on_loop (tc_rx s0) c \<and> \<not> rx_eventHandling (tc_rx s0) \<and>
     connectEstablished kw u s0 = Inr s)"

definition notices :: "TcpConnection \<Rightarrow> conn_log list" where
  "notices s = filter (\<lambda>x. x \<noteq> LMessage \<and> x \<noteq> LError) (tc_log s)"

definition tc_life :: "TcpConnection \<Rightarrow> bool" where
  "tc_life s \<longleftrightarrow> tc_inv s \<and>
     notices s = (if tc_state s = kDisconnected then [LConnection True, LConnection False, LClose] else [LConnection True])"

lemma connectEstablished_ok:
  assumes new: "s0 = TcpConnection_new nm c fd wc hw rx"
    and r: "poller_inv (tc_rx s0)" "fresh (tc_rx s0) c" "on_loop (tc_rx s0) c" "\<not> rx_eventHandling (tc_rx s0)"
    and k: "kw_contract kw" "user_ok kw u"
  shows "\<exists>s. connectEstablished kw u s0 = Inr s \<and> tc_life s \<and> tc_state s \<noteq> kDisconnected"
proof -
  define rt where "rt = heap_upd c (Channel_tie c) (tc_rx s0)"
  have f: "pollfds rt = pollfds (tc_rx s0)" "channels rt = channels (tc_rx s0)"
    "PollPoller.PollPoller.more rt = PollPoller.PollPoller.more (tc_rx s0)"
    "heap rt = (heap (tc_rx s0))(c := Channel_tie c (heap (tc_rx s0) c))"
    by (simp_all add: rt_def heap_upd_def)
  have reg: "registered rt d = registered (tc_rx s0) d" "entry_of rt d = entry_of (tc_rx s0) d" for d
    using f by (simp_all add: registered_def entry_of_def Channel_tie_def)
  have pi: "poller_inv rt"
    using r(1) struct_heap_upd [of "tc_rx s0" "Channel_tie c" c] reg f(4)
    by (auto simp: poller_inv_def rt_def [symmetric] Channel_tie_def)
  have fr: "fresh rt c" using r(2) f by (simp add: fresh_def Channel_tie_def)
  have ol: "on_loop rt c" using r(3) on_loop_frame [OF f(3), of c] f(4) by (simp add: Channel_tie_def)
  obtain ry where ry: "Channel_mask EnableReading c rt = Inr ry" "poller_inv ry" "registered ry c" "on_loop ry c"
    "ch_events (heap ry c) = mask_of EnableReading (ch_events (heap rt c))"
    "PollPoller.PollPoller.more ry = PollPoller.PollPoller.more rt"
    using Channel_mask_fresh [OF pi ol fr, of EnableReading] by blast
  have ev: "\<not> rx_eventHandling ry" using reactor_fields [OF ry(6)] reactor_fields [OF f(3)] r(4) by simp
  define s2 where "s2 = s0\<lparr>tc_state := kConnected, tc_rx := ry\<rparr>"
  have ch0: "ch_events (heap rt c) = 0" by (simp add: f(4) Channel_tie_def new TcpConnection_new_def Channel_new_def)
  have "\<not> has_ev (ch_events (heap ry c)) kWriteEvent"
    unfolding ry(5) has_ev_mask_of ch0 by (simp add: has_ev_def)
  moreover have "has_ev (ch_events (heap ry c)) kReadEvent" unfolding ry(5) by (rule has_ev_mask_of)
  ultimately have inv: "tc_inv s2"
    using ry ev by (simp add: tc_inv_def s2_def new TcpConnection_new_def rx_ready_def tc_chan_def isWriting_def)
  have "tc_channel s0 = c" "tc_state s0 = kConnecting" by (simp_all add: new TcpConnection_new_def)
  then have "connectEstablished kw u s0 = call_connection kw u s2"
    using ry(1) assertInLoopThread_ok [OF r(3)] by (simp add: connectEstablished_def tc_mask_def rt_def s2_def Let_def)
  moreover obtain s where "call_connection kw u s2 = Inr s" "tc_inv s" "tc_log s = tc_log s2 @ [LConnection (connected s2)]"
    "tc_state s = kDisconnected \<longleftrightarrow> tc_state s2 = kDisconnected"
    using call_connection_ok [OF inv k] by blast
  ultimately show ?thesis
    by (simp add: tc_life_def notices_def s2_def new TcpConnection_new_def connected_def)
qed

lemma tc_life_close:
  "tc_life s \<Longrightarrow> tc_state s \<noteq> kDisconnected \<Longrightarrow> kw_contract kw \<Longrightarrow> user_ok kw u \<Longrightarrow> handleClose kw u s = Inr s' \<Longrightarrow> tc_life s'"
  using handleClose_ok [of s kw u] by (auto simp: tc_life_def notices_def)

lemma tc_life_frame:
  "tc_life s \<Longrightarrow> tc_inv s' \<Longrightarrow> notices s' = notices s \<Longrightarrow> (tc_state s' = kDisconnected \<longleftrightarrow> tc_state s = kDisconnected) \<Longrightarrow> tc_life s'"
  by (simp add: tc_life_def)

lemma tc_life_read:
  assumes l: "tc_life s" and k: "kw_contract kw" "user_ok kw u" and live: "tc_state s \<noteq> kDisconnected"
    and c: "\<And>bs. readv (readFd_iov (tc_input s)) = ReadOk bs \<Longrightarrow> length bs \<le> sum_list (readFd_iov (tc_input s))"
    and r: "TcpConnection_handleRead kw u readv s = Inr s'"
  shows "tc_life s'"
proof -
  have i: "tc_inv s" using l by (simp add: tc_life_def)
  obtain n e b where b: "readFd readv (tc_input s) = Inr (n, e, b)"
    using r by (auto simp: TcpConnection_handleRead_def tc_invD(6) [OF i] bindR_eq_Inr)
  have "buf_inv b" by (rule readFd_inv [OF tc_invD(1) [OF i] b c])
  then have i1: "tc_inv (s\<lparr>tc_input := b\<rparr>)" using i by (simp add: tc_inv_def tc_chan_def)
  have l1: "tc_life (s\<lparr>tc_input := b\<rparr>)" using l i1 by (simp add: tc_life_def notices_def)
  have r': "(if n > 0 then call_message kw u (s\<lparr>tc_input := b\<rparr>) else if n = 0 then handleClose kw u (s\<lparr>tc_input := b\<rparr>)
      else Inr (handleError (s\<lparr>tc_input := b\<rparr>))) = Inr s'"
    using r b by (simp add: TcpConnection_handleRead_def tc_invD(6) [OF i] Let_def)
  consider "n > 0" | "n = 0" | "n < 0" by linarith
  then show ?thesis
  proof cases
    case 1
    then show ?thesis using r' call_message_ok [OF i1 k] l1 by (auto intro!: tc_life_frame [OF l1] simp: notices_def)
  next
    case 2
    then show ?thesis using r' tc_life_close [OF l1 _ k] live by simp
  next
    case 3
    then have "s' = handleError (s\<lparr>tc_input := b\<rparr>)" using r' by simp
    then show ?thesis using l1 by (simp add: handleError_def tc_life_def notices_def)
  qed
qed

lemma tc_life_step:
  assumes l: "tc_life s" and k: "kw_contract kw" "user_ok kw u" and st: "tc_step kw u s s'"
  shows "tc_life s'"
  using st
proof cases
  case (st_read readv)
  then show ?thesis using tc_life_read [OF l k] by blast
next
  case st_write
  with handleWrite_ok [of s kw] l k(1) show ?thesis
    by (auto simp: tc_life_def notices_def)
next
  case st_error
  with l show ?thesis by (simp add: handleError_def tc_life_def notices_def)
next
  case (st_calls calls)
  with do_users_ok [of s kw calls] l k(1) show ?thesis by (auto simp: tc_life_def notices_def)
next
  case (st_force alive)
  have i: "tc_inv s" using l by (simp add: tc_life_def)
  have "s' = s \<or> (tc_state s \<noteq> kDisconnected \<and> handleClose kw u s = Inr s')"
    using st_force by (auto simp: delayed_close_def WeakCallback_call_def forceCloseInLoop_def tc_invD(6) [OF i] split: if_splits)
  then show ?thesis using l tc_life_close [OF l _ k] by blast
next
  case (st_queue q)
  with l show ?thesis by (simp add: tc_life_def notices_def)
qed

lemma tc_life_reach:
  assumes k: "kw_contract kw" "user_ok kw u" and r: "reach (tc_init kw u) (tc_step kw u) s"
  shows "tc_life s"
  using r
proof (induction rule: reach.induct)
  case (reach_init s)
  then obtain rx nm c fd wc hw where "let s0 = TcpConnection_new nm c fd wc hw rx in
     poller_inv (tc_rx s0) \<and> fresh (tc_rx s0) c \<and> on_loop (tc_rx s0) c \<and> \<not> rx_eventHandling (tc_rx s0) \<and>
     connectEstablished kw u s0 = Inr s" unfolding tc_init_def by blast
  then show ?case using connectEstablished_ok [OF refl, of nm c fd wc hw rx kw u] k by (auto simp: Let_def)
next
  case (reach_step s t)
  then show ?case using tc_life_step [OF _ k] by blast
qed

section \<open>The interface: a connection as a byte stream\<close>

text \<open>What a protocol on top of the connection relies on: its calls change the abstract state
  (still open, bytes handed over) as it expects, and the loop's own work leaves that state alone.\<close>

locale byte_stream =
  fixes step :: "'e \<Rightarrow> 's \<Rightarrow> 's res"
    and ok :: "'e \<Rightarrow> 's \<Rightarrow> bool"
    and inv :: "'s \<Rightarrow> bool"
    and abs :: "'s \<Rightarrow> 'a"
    and effect :: "'e \<Rightarrow> 'a \<Rightarrow> 'a"
  assumes step_effect: "inv s \<Longrightarrow> ok x s \<Longrightarrow> \<exists>s'. step x s = Inr s' \<and> inv s' \<and> abs s' = effect x (abs s)"
begin

lemma run_refines:
  assumes "inv s" "steps_ok step ok xs s"
  shows "\<exists>s'. foldR step xs s = Inr s' \<and> inv s' \<and> abs s' = fold effect xs (abs s)"
  using assms
proof (induction xs arbitrary: s)
  case (Cons x xs)
  then obtain t where "step x s = Inr t" "inv t" "abs t = effect x (abs s)"
    using step_effect [of s x] by auto
  with Cons.IH [of t] Cons.prems(2) show ?case by simp
qed simp

end

text \<open>The steps of the sending side: the loop finds the descriptor writable, or the user calls.\<close>

fun conn_event :: "kwrite \<Rightarrow> user_call option \<Rightarrow> TcpConnection \<Rightarrow> TcpConnection res" where
  "conn_event kw None s = handleWrite kw s"
| "conn_event kw (Some c) s = do_user kw c s"

fun conn_event_ok :: "kwrite \<Rightarrow> user_call option \<Rightarrow> TcpConnection \<Rightarrow> bool" where
  "conn_event_ok kw None s \<longleftrightarrow> True"
| "conn_event_ok kw (Some c) s \<longleftrightarrow> ucall_ok kw c s"

fun conn_effect :: "user_call option \<Rightarrow> bool \<times> byte list \<Rightarrow> bool \<times> byte list" where
  "conn_effect None a = a"
| "conn_effect (Some c) a = sent_by c a"

definition conn_inv :: "kwrite \<Rightarrow> TcpConnection \<Rightarrow> bool" where
  "conn_inv kw s \<longleftrightarrow> kw_contract kw \<and> tc_inv s \<and> tc_state s \<noteq> kDisconnected"

lemma conn_event_effect:
  assumes "conn_inv kw s" "conn_event_ok kw x s"
  shows "\<exists>s'. conn_event kw x s = Inr s' \<and> conn_inv kw s' \<and> tc_abs s' = conn_effect x (tc_abs s)"
proof (cases x)
  case None
  then show ?thesis using handleWrite_ok [of s kw] assms(1) by (auto simp: conn_inv_def tc_abs_def connected_def)
next
  case (Some c)
  then show ?thesis using do_user_ok [of s kw c] assms by (auto simp: conn_inv_def)
qed

interpretation conn: byte_stream "conn_event kw" "conn_event_ok kw" "conn_inv kw" tc_abs conn_effect for kw
  by unfold_locales (rule conn_event_effect)

section \<open>Example connection\<close>

text \<open>A kernel that takes every byte at once, and the default callbacks.\<close>

definition kw_all :: kwrite where "kw_all i data = (int (length data), 0)"

definition u_default :: user_callbacks where
  "u_default = \<lparr>on_connection = defaultConnectionCallback, on_message = defaultMessageCallback\<rparr>"

definition conn_new_example :: TcpConnection where
  "conn_new_example = TcpConnection_new ''conn'' 0 7 False False rx_example"

lemma rx_example_new [simp]: "rx_example\<lparr>heap := (heap rx_example)(0 := Channel_new (rx_loop rx_example) 7)\<rparr> = rx_example"
  by (simp add: rx_example_def fun_eq_iff)

lemma kw_all_contract [simp]: "kw_contract kw_all"
  by (simp add: kw_contract_def kw_all_def)

lemma u_default_ok [simp]: "user_ok kw u_default"
  by (simp add: user_ok_def u_default_def defaultConnectionCallback_def defaultMessageCallback_def split: sum.split)

lemma tc_mask_frame: "tc_mask m s = Inr s' \<Longrightarrow> \<exists>rx. s' = s\<lparr>tc_rx := rx\<rparr>"
  by (auto simp: tc_mask_def bindR_eq_Inr)

lemma conn_example_established:
  obtains s where "connectEstablished kw_all u_default conn_new_example = Inr s" "tc_life s"
    "tc_state s = kConnected" "tc_output s = Buffer_new" "tc_wire s = []" "tc_channel s = 0" "\<not> tc_shut s" "tc_input s = Buffer_new"
proof -
  have "\<exists>s. connectEstablished kw_all u_default conn_new_example = Inr s"
    using connectEstablished_ok [OF conn_new_example_def, of kw_all u_default] rx_example_ok
    by (auto simp: conn_new_example_def TcpConnection_new_def)
  then obtain s where s: "connectEstablished kw_all u_default conn_new_example = Inr s" ..
  then obtain rx where "s = conn_new_example\<lparr>tc_state := kConnected, tc_rx := rx, tc_log := [LConnection True]\<rparr>"
    by (auto simp: connectEstablished_def bindR_eq_Inr call_connection_def u_default_def defaultConnectionCallback_def
        Let_def connected_def conn_new_example_def TcpConnection_new_def dest!: tc_mask_frame)
  moreover have "tc_life s"
    using connectEstablished_ok [OF conn_new_example_def, of kw_all u_default] rx_example_ok s
    by (auto simp: conn_new_example_def TcpConnection_new_def)
  ultimately show ?thesis using that [of s] s by (simp add: conn_new_example_def TcpConnection_new_def)
qed

section \<open>Properties\<close>



text \<open>The user is told of a connection in one fixed order: up exactly once, before anything
  else, and down exactly once, followed by the close callback, when and only when the connection
  reaches \<^verbatim>\<open>kDisconnected\<close>. This holds after any sequence of reads, writes, errors, forced closes and
  user calls, and the connection keeps its invariant.\<close>

theorem connection_notices:
  assumes "kw_contract kw" "user_ok kw u" "reach (tc_init kw u) (tc_step kw u) s"
  shows "tc_inv s \<and> notices s =
     (if tc_state s = kDisconnected then [LConnection True, LConnection False, LClose] else [LConnection True])"
  using tc_life_reach [OF assms] by (simp add: tc_life_def)

theorem connection_notices_witness:
  "\<exists>s s'. connectEstablished kw_all u_default conn_new_example = Inr s \<and>
     delayed_close kw_all u_default True s = Inr s' \<and> notices s' = [LConnection True, LConnection False, LClose]"
proof -
  obtain s where s: "connectEstablished kw_all u_default conn_new_example = Inr s" "tc_life s"
    "tc_state s = kConnected" "tc_output s = Buffer_new" "tc_wire s = []" "tc_channel s = 0" "\<not> tc_shut s" "tc_input s = Buffer_new"
    by (rule conn_example_established)
  then have i: "tc_inv s" by (simp add: tc_life_def)
  obtain s' where s': "handleClose kw_all u_default s = Inr s'" "tc_state s' = kDisconnected"
    using handleClose_ok [OF i _ kw_all_contract u_default_ok] s(3) by auto
  then have f: "delayed_close kw_all u_default True s = Inr s'"
    using s(3) by (simp add: delayed_close_def WeakCallback_call_def forceCloseInLoop_def tc_invD(6) [OF i])
  have "tc_init kw_all u_default s"
    unfolding tc_init_def using s(1) rx_example_ok
    by (intro exI [of _ rx_example] exI [of _ "''conn''"] exI [of _ 0] exI [of _ 7] exI [of _ False])
      (simp add: conn_new_example_def TcpConnection_new_def)
  then have "reach (tc_init kw_all u_default) (tc_step kw_all u_default) s'"
    using f by (intro reach.reach_step [OF reach.reach_init] tc_step.st_force)
  from connection_notices [OF kw_all_contract u_default_ok this] s(1) f s'(2) show ?thesis by auto
qed


lemma connectDestroyed_closed:
  assumes "tc_inv s" "tc_state s = kDisconnected"
  shows "\<exists>rx. Channel_remove (tc_channel s) (tc_rx s) = Inr rx \<and> poller_inv rx \<and> \<not> registered rx (tc_channel s)"
proof -
  have r: "rx_ready (tc_rx s) (tc_channel s)" "rx_idle (tc_rx s) (tc_channel s)" "poller_inv (tc_rx s)"
    using tc_invD(3,4,10) [OF assms(1)] assms(2) by simp_all
  obtain rx where "Channel_remove (tc_channel s) (tc_rx s) = Inr rx" "poller_inv rx"
    "channels rx = (channels (tc_rx s))(ch_fd (heap (tc_rx s) (tc_channel s)) := None)"
    "\<exists>k. heap rx (tc_channel s) = (heap (tc_rx s) (tc_channel s))\<lparr>ch_index := k\<rparr>"
    using Channel_remove_ok [of "tc_rx s" "tc_channel s"] r unfolding rx_ready_def rx_idle_def by blast
  then show ?thesis by (auto simp: registered_def)
qed

text \<open>C23: The last call on a connection, \<^verbatim>\<open>connectDestroyed()\<close>. From \<^verbatim>\<open>kConnected\<close> and from \<^verbatim>\<open>kDisconnected\<close> it takes
  the channel out of the poller. In \<^verbatim>\<open>kDisconnecting\<close>, after \<^verbatim>\<open>shutdown()\<close> with the peer still open, it neither
  disables the channel nor may remove it: the assertion of \<^verbatim>\<open>Channel::remove()\<close> fails.\<close>

theorem connectDestroyed_outcome:
  assumes "tc_inv s" "kw_contract kw" "user_ok kw u"
  shows "if tc_state s = kDisconnecting
     then connectDestroyed kw u s = Inl (AssertFailed ''isNoneEvent()'')
     else \<exists>s'. connectDestroyed kw u s = Inr s' \<and> tc_state s' = kDisconnected \<and>
       poller_inv (tc_rx s') \<and> \<not> registered (tc_rx s') (tc_channel s')"
proof (cases "tc_state s")
  case kConnected
  obtain rx where rx: "tc_mask DisableAll (s\<lparr>tc_state := kDisconnected\<rparr>) = Inr (s\<lparr>tc_state := kDisconnected, tc_rx := rx\<rparr>)"
    "tc_inv (s\<lparr>tc_state := kDisconnected, tc_rx := rx\<rparr>)" (is "tc_inv ?t")
    using disconnect_ok [OF assms(1)] .
  obtain s1 where s1: "call_connection kw u ?t = Inr s1" "tc_inv s1" "tc_state s1 = kDisconnected"
    using call_connection_ok [OF rx(2) assms(2,3)] by auto
  with connectDestroyed_closed [OF s1(2,3)] rx(1) kConnected show ?thesis
    by (auto simp: connectDestroyed_def tc_invD(6) [OF assms(1)])
next
  case kDisconnecting
  then have "\<not> isNoneEvent (heap (tc_rx s) (tc_channel s))"
    using tc_invD(9) [OF assms(1)] by (auto simp: isNoneEvent_def has_ev_def kNoneEvent_def tc_chan_def)
  with kDisconnecting show ?thesis
    by (simp add: connectDestroyed_def tc_invD(6) [OF assms(1)] Channel_remove_def)
next
  case kDisconnected
  with connectDestroyed_closed [OF assms(1)] show ?thesis
    by (auto simp: connectDestroyed_def tc_invD(6) [OF assms(1)])
next
  case kConnecting
  with tc_invD(5) [OF assms(1)] show ?thesis by simp
qed

theorem connectDestroyed_outcome_witness:
  "\<exists>s s1. connectEstablished kw_all u_default conn_new_example = Inr s \<and> shutdown s = Inr s1 \<and>
     connectDestroyed kw_all u_default s1 = Inl (AssertFailed ''isNoneEvent()'')"
proof -
  obtain s where s: "connectEstablished kw_all u_default conn_new_example = Inr s" "tc_life s"
    "tc_state s = kConnected" "tc_output s = Buffer_new" "tc_wire s = []" "tc_channel s = 0" "\<not> tc_shut s" "tc_input s = Buffer_new"
    by (rule conn_example_established)
  then have i: "tc_inv s" by (simp add: tc_life_def)
  obtain s1 where s1: "shutdown s = Inr s1" "tc_inv s1" "tc_state s1 = kDisconnecting"
    using shutdown_ok [OF i] s(3) by auto
  from connectDestroyed_outcome [OF s1(2) kw_all_contract u_default_ok] s(1) s1 show ?thesis by auto
qed

end
