(* ===== verification/Monitor.thy ===== *)
theory Monitor
  imports Leaf_Prelude
begin

text \<open>
  Threads that share an object through \<^verbatim>\<open>MutexLock\<close> and \<^verbatim>\<open>Condition\<close> (\<^verbatim>\<open>src/base/Mutex.h\<close>,
  \<^verbatim>\<open>src/base/Condition.h\<close>, \<^verbatim>\<open>src/base/Condition.cc\<close>).

  Every synchronised method of \<^verbatim>\<open>src/base\<close> has one shape: take the lock, \<^verbatim>\<open>while (...) cond.wait()\<close>, a
  body that may notify, and the release by the guard's destructor. \<open>code\<close> is the table of such methods
  of one class, \<open>monitor\<close> the object with the position of each thread, and \<open>mon_step\<close> one step of
  one thread; any interleaving of them, with spurious wake-ups, is a run.

  Three contracts are proved once for all classes: mutual exclusion with an invariant of the
  data (\<open>monitor_laws\<close>), no lost wake-up for methods that notify one waiter (\<open>signalling\<close>), and release of
  all waiters by a \<^verbatim>\<open>notifyAll\<close> (\<open>broadcast\<close>).
\<close>

section \<open>MutexLock\<close>

text \<open>\<open>mx_owner\<close> is the thread that holds the pthread mutex; the code's own record of it is \<open>holder\<close>.\<close>

record MutexLock =
  mx_owner :: "nat option"
  holder :: int

definition tid_of :: "nat \<Rightarrow> int" where
  "tid_of t = int t + 1"

definition MutexLock_new :: MutexLock where
  "MutexLock_new = \<lparr>mx_owner = None, holder = 0\<rparr>"

definition MutexLock_dtor :: "MutexLock \<Rightarrow> unit res" where
  "MutexLock_dtor mx = assertR (holder mx = 0) ''holder_ == 0''"

definition isLockedByThisThread :: "nat \<Rightarrow> MutexLock \<Rightarrow> bool" where
  "isLockedByThisThread t mx \<longleftrightarrow> holder mx = tid_of t"

definition assertLocked :: "nat \<Rightarrow> MutexLock \<Rightarrow> unit res" where
  "assertLocked t mx = assertR (isLockedByThisThread t mx) ''isLockedByThisThread()''"

definition unassignHolder :: "MutexLock \<Rightarrow> MutexLock" where
  "unassignHolder mx = mx\<lparr>holder := 0\<rparr>"

definition assignHolder :: "nat \<Rightarrow> MutexLock \<Rightarrow> MutexLock" where
  "assignHolder t mx = mx\<lparr>holder := tid_of t\<rparr>"

text \<open>\<^verbatim>\<open>lock()\<close>, \<open>None\<close> while another thread has the mutex; \<^verbatim>\<open>unlock()\<close>.\<close>

definition MutexLock_lock :: "nat \<Rightarrow> MutexLock \<Rightarrow> MutexLock option" where
  "MutexLock_lock t mx = (if mx_owner mx = None then Some (assignHolder t (mx\<lparr>mx_owner := Some t\<rparr>)) else None)"

definition MutexLock_unlock :: "MutexLock \<Rightarrow> MutexLock" where
  "MutexLock_unlock mx = (unassignHolder mx)\<lparr>mx_owner := None\<rparr>"

section \<open>Condition\<close>

datatype notify = Notify nat | NotifyAll nat

text \<open>\<^verbatim>\<open>wait()\<close>: the \<^verbatim>\<open>UnassignGuard\<close>, and \<^verbatim>\<open>pthread_cond_wait\<close> which gives up the mutex. The lock is taken again
  on the way out.\<close>

definition Condition_wait :: "MutexLock \<Rightarrow> MutexLock" where
  "Condition_wait mx = (unassignHolder mx)\<lparr>mx_owner := None\<rparr>"

text \<open>\<^verbatim>\<open>waitForSeconds\<close>: the absolute time of the timeout (seconds, nanoseconds) from the time of day
  (seconds, microseconds), and whether \<^verbatim>\<open>pthread_cond_timedwait\<close> reported \<^verbatim>\<open>ETIMEDOUT\<close>.\<close>

definition ETIMEDOUT :: int where "ETIMEDOUT = 110"

definition waitForSeconds :: "(int \<times> int \<Rightarrow> int) \<Rightarrow> int \<times> int \<Rightarrow> int \<Rightarrow> bool" where
  "waitForSeconds timedwait tv seconds =
     (case tv of (tv_sec, tv_usec) \<Rightarrow> ETIMEDOUT = timedwait (tv_sec + seconds, tv_usec * 1000))"

section \<open>Threads in a monitor\<close>

datatype 'm pc = POut | PEnter 'm | PLocked 'm | PWaiting 'm | PWoken 'm

text \<open>A class: when a thread starts a method, the condition of its \<^verbatim>\<open>while\<close>, the condition variable it
  waits on, and its body with the notification.\<close>

record ('d, 'm) code =
  m_call :: "'m \<Rightarrow> 'd \<Rightarrow> bool"
  m_while :: "'m \<Rightarrow> 'd \<Rightarrow> bool"
  m_cond :: "'m \<Rightarrow> nat option"
  m_body :: "'m \<Rightarrow> 'd \<Rightarrow> ('d \<times> notify option) res"

record ('d, 'm) monitor =
  mon_mutex :: MutexLock
  mon_data :: 'd
  mon_pcs :: "'m pc list"

definition monitor_new :: "'d \<Rightarrow> nat \<Rightarrow> ('d, 'm) monitor" where
  "monitor_new d n = \<lparr>mon_mutex = MutexLock_new, mon_data = d, mon_pcs = replicate n POut\<rparr>"

fun waits_on :: "('d, 'm) code \<Rightarrow> nat \<Rightarrow> 'm pc \<Rightarrow> bool" where
  "waits_on C c (PWaiting m) \<longleftrightarrow> m_cond C m = Some c"
| "waits_on C c _ \<longleftrightarrow> False"

fun wake :: "'m pc \<Rightarrow> 'm pc" where
  "wake (PWaiting m) = PWoken m"
| "wake p = p"

text \<open>\<^verbatim>\<open>notify()\<close> wakes one waiter if there is one, \<^verbatim>\<open>notifyAll()\<close> all of them.\<close>

inductive notified :: "('d, 'm) code \<Rightarrow> notify option \<Rightarrow> 'm pc list \<Rightarrow> 'm pc list \<Rightarrow> bool" for C :: "('d, 'm) code" where
  n_silent: "notified C None ps ps"
| n_nobody: "(\<And>p. p \<in> set ps \<Longrightarrow> \<not> waits_on C c p) \<Longrightarrow> notified C (Some (Notify c)) ps ps"
| n_one: "i < length ps \<Longrightarrow> waits_on C c (ps ! i) \<Longrightarrow> notified C (Some (Notify c)) ps (ps[i := wake (ps ! i)])"
| n_all: "notified C (Some (NotifyAll c)) ps (map (\<lambda>p. if waits_on C c p then wake p else p) ps)"

inductive mon_step :: "('d, 'm) code \<Rightarrow> ('d, 'm) monitor \<Rightarrow> ('d, 'm) monitor \<Rightarrow> bool" for C :: "('d, 'm) code" where
  mon_call: "t < length (mon_pcs s) \<Longrightarrow> mon_pcs s ! t = POut \<Longrightarrow> m_call C m (mon_data s) \<Longrightarrow>
    mon_step C s (s\<lparr>mon_pcs := (mon_pcs s)[t := PEnter m]\<rparr>)"
| mon_lock: "t < length (mon_pcs s) \<Longrightarrow> mon_pcs s ! t = PEnter m \<or> mon_pcs s ! t = PWoken m \<Longrightarrow>
    MutexLock_lock t (mon_mutex s) = Some mx \<Longrightarrow>
    mon_step C s (s\<lparr>mon_mutex := mx, mon_pcs := (mon_pcs s)[t := PLocked m]\<rparr>)"
| mon_wait: "t < length (mon_pcs s) \<Longrightarrow> mon_pcs s ! t = PLocked m \<Longrightarrow> m_while C m (mon_data s) \<Longrightarrow>
    mon_step C s (s\<lparr>mon_mutex := Condition_wait (mon_mutex s), mon_pcs := (mon_pcs s)[t := PWaiting m]\<rparr>)"
| mon_spurious: "t < length (mon_pcs s) \<Longrightarrow> mon_pcs s ! t = PWaiting m \<Longrightarrow>
    mon_step C s (s\<lparr>mon_pcs := (mon_pcs s)[t := PWoken m]\<rparr>)"
| mon_run: "t < length (mon_pcs s) \<Longrightarrow> mon_pcs s ! t = PLocked m \<Longrightarrow> \<not> m_while C m (mon_data s) \<Longrightarrow>
    m_body C m (mon_data s) = Inr (d, n) \<Longrightarrow> notified C n (mon_pcs s) ps \<Longrightarrow>
    mon_step C s \<lparr>mon_mutex = MutexLock_unlock (mon_mutex s), mon_data = d, mon_pcs = ps[t := POut]\<rparr>"

inductive_simps notified_None [simp]: "notified C None ps qs"

text \<open>Runs that a schedule determines: which thread goes on, and for \<^verbatim>\<open>notify()\<close> which waiter is woken.\<close>

datatype 'm sched = Call nat 'm | Go nat | Wakes nat nat

fun turn_call :: "('d, 'm) code \<Rightarrow> nat \<Rightarrow> 'm \<Rightarrow> ('d, 'm) monitor \<Rightarrow> ('d, 'm) monitor option" where
  "turn_call C t m s =
     (if t < length (mon_pcs s) \<and> (case mon_pcs s ! t of POut \<Rightarrow> True | _ \<Rightarrow> False) \<and> m_call C m (mon_data s)
      then Some (s\<lparr>mon_pcs := (mon_pcs s)[t := PEnter m]\<rparr>) else None)"

definition turn_notify :: "('d, 'm) code \<Rightarrow> nat option \<Rightarrow> notify option \<Rightarrow> 'm pc list \<Rightarrow> 'm pc list option" where
  "turn_notify C w n ps =
     (case n of None \<Rightarrow> Some ps
      | Some (NotifyAll c) \<Rightarrow> Some (map (\<lambda>p. if waits_on C c p then wake p else p) ps)
      | Some (Notify c) \<Rightarrow>
          (case w of
             None \<Rightarrow> if filter (waits_on C c) ps = [] then Some ps else None
           | Some i \<Rightarrow> if i < length ps \<and> waits_on C c (ps ! i) then Some (ps[i := wake (ps ! i)]) else None))"

definition turn_body :: "('d, 'm) code \<Rightarrow> nat option \<Rightarrow> nat \<Rightarrow> 'm \<Rightarrow> ('d, 'm) monitor \<Rightarrow> ('d, 'm) monitor option" where
  "turn_body C w t m s =
     (case m_body C m (mon_data s) of Inl _ \<Rightarrow> None
      | Inr (d, n) \<Rightarrow> (case turn_notify C w n (mon_pcs s) of None \<Rightarrow> None
          | Some ps \<Rightarrow> Some \<lparr>mon_mutex = MutexLock_unlock (mon_mutex s), mon_data = d, mon_pcs = ps[t := POut]\<rparr>))"

definition turn_go :: "('d, 'm) code \<Rightarrow> nat option \<Rightarrow> nat \<Rightarrow> ('d, 'm) monitor \<Rightarrow> ('d, 'm) monitor option" where
  "turn_go C w t s =
     (if t < length (mon_pcs s) then
        (case mon_pcs s ! t of
           PEnter m \<Rightarrow> map_option (\<lambda>mx. s\<lparr>mon_mutex := mx, mon_pcs := (mon_pcs s)[t := PLocked m]\<rparr>) (MutexLock_lock t (mon_mutex s))
         | PWoken m \<Rightarrow> map_option (\<lambda>mx. s\<lparr>mon_mutex := mx, mon_pcs := (mon_pcs s)[t := PLocked m]\<rparr>) (MutexLock_lock t (mon_mutex s))
         | PLocked m \<Rightarrow>
             if m_while C m (mon_data s)
             then Some (s\<lparr>mon_mutex := Condition_wait (mon_mutex s), mon_pcs := (mon_pcs s)[t := PWaiting m]\<rparr>)
             else turn_body C w t m s
         | _ \<Rightarrow> None)
      else None)"

fun turn :: "('d, 'm) code \<Rightarrow> 'm sched \<Rightarrow> ('d, 'm) monitor \<Rightarrow> ('d, 'm) monitor option" where
  "turn C (Call t m) s = turn_call C t m s"
| "turn C (Go t) s = turn_go C None t s"
| "turn C (Wakes t w) s = turn_go C (Some w) t s"

fun turns :: "('d, 'm) code \<Rightarrow> 'm sched list \<Rightarrow> ('d, 'm) monitor \<Rightarrow> ('d, 'm) monitor option" where
  "turns C [] s = Some s"
| "turns C (a # as) s = (case turn C a s of None \<Rightarrow> None | Some s' \<Rightarrow> turns C as s')"

lemma turn_notify_sound: "turn_notify C w n ps = Some qs \<Longrightarrow> notified C n ps qs"
  by (auto simp: turn_notify_def filter_empty_conv split: option.splits notify.splits if_splits
      intro: notified.intros)

lemma turn_body_sound:
  "turn_body C w t m s = Some s' \<Longrightarrow> t < length (mon_pcs s) \<Longrightarrow> mon_pcs s ! t = PLocked m \<Longrightarrow>
   \<not> m_while C m (mon_data s) \<Longrightarrow> mon_step C s s'"
  by (auto simp: turn_body_def split: sum.splits option.splits intro!: mon_run dest: turn_notify_sound)

lemma turn_go_sound: "turn_go C w t s = Some s' \<Longrightarrow> mon_step C s s'"
  by (auto simp: turn_go_def split: if_splits pc.splits intro: mon_lock mon_wait turn_body_sound)

lemma turn_sound: "turn C a s = Some s' \<Longrightarrow> mon_step C s s'"
  by (cases a) (auto split: if_splits pc.splits intro: mon_call turn_go_sound)

lemma turns_steps: "turns C as s = Some s' \<Longrightarrow> (mon_step C)\<^sup>*\<^sup>* s s'"
proof (induction as arbitrary: s)
  case (Cons a as)
  then obtain t where t: "turn C a s = Some t" "turns C as t = Some s'" by (auto split: option.splits)
  with Cons.IH turn_sound [OF t(1)] show ?case by (metis converse_rtranclp_into_rtranclp)
qed simp

lemma turns_reach:
  assumes "reach i (mon_step C) s" "turns C as s = Some s'"
  shows "reach i (mon_step C) s'"
  using turns_steps [OF assms(2)]
proof (induction rule: rtranclp_induct)
  case base
  show ?case by (rule assms(1))
next
  case (step y z)
  show ?case by (rule reach_step [OF step.IH]) (rule step.hyps(2))
qed

section \<open>Mutual exclusion\<close>

fun is_locked :: "'m pc \<Rightarrow> bool" where
  "is_locked (PLocked m) \<longleftrightarrow> True"
| "is_locked _ \<longleftrightarrow> False"

text \<open>At most one thread is between lock and unlock, and \<open>holder\<close> names it.\<close>

definition lock_ok :: "('d, 'm) monitor \<Rightarrow> bool" where
  "lock_ok s \<longleftrightarrow> (\<forall>t < length (mon_pcs s). is_locked (mon_pcs s ! t) \<longleftrightarrow> mx_owner (mon_mutex s) = Some t) \<and>
     (\<forall>t. mx_owner (mon_mutex s) = Some t \<longrightarrow> t < length (mon_pcs s)) \<and>
     holder (mon_mutex s) = (case mx_owner (mon_mutex s) of None \<Rightarrow> 0 | Some t \<Rightarrow> tid_of t)"

lemma notified_length: "notified C n ps qs \<Longrightarrow> length qs = length ps"
  by (induction rule: notified.induct) simp_all

lemma wake_locked [simp]: "is_locked (wake p) = is_locked p"
  by (cases p) simp_all

lemma notified_locked: "notified C n ps qs \<Longrightarrow> t < length ps \<Longrightarrow> is_locked (qs ! t) = is_locked (ps ! t)"
  by (induction rule: notified.induct) (auto simp: nth_list_update)

lemma lock_ok_step: "mon_step C s s' \<Longrightarrow> lock_ok s \<Longrightarrow> lock_ok s'"
proof (induction rule: mon_step.induct)
  case (mon_run t s m d n ps)
  note len = notified_length [OF mon_run.hyps(5)]
  have "mx_owner (mon_mutex s) = Some t"
    using mon_run.prems mon_run.hyps(1,2) unfolding lock_ok_def by (metis is_locked.simps(1))
  moreover have "is_locked (ps ! u) = is_locked (mon_pcs s ! u)" if "u < length (mon_pcs s)" for u
    using notified_locked [OF mon_run.hyps(5) that] .
  ultimately show ?case
    using mon_run.prems len unfolding lock_ok_def
    by (auto simp: nth_list_update MutexLock_unlock_def unassignHolder_def)
qed (auto simp: lock_ok_def nth_list_update MutexLock_lock_def assignHolder_def Condition_wait_def
    unassignHolder_def split: if_splits)

lemma lock_ok_new [simp]: "lock_ok (monitor_new d n)"
  by (simp add: lock_ok_def monitor_new_def MutexLock_new_def)

lemma lock_ok_assert:
  "lock_ok s \<Longrightarrow> t < length (mon_pcs s) \<Longrightarrow> mon_pcs s ! t = PLocked m \<Longrightarrow> assertLocked t (mon_mutex s) = Inr ()"
  unfolding lock_ok_def assertLocked_def isLockedByThisThread_def assertR_def
  by (metis is_locked.simps(1) option.simps(5))

section \<open>The contract of a class\<close>

text \<open>A new object with any number of threads, none of which has called a method yet.\<close>

definition mon_init :: "('d \<Rightarrow> bool) \<Rightarrow> ('d, 'm) monitor \<Rightarrow> bool" where
  "mon_init d0 s \<longleftrightarrow> (\<exists>d n. d0 d \<and> s = monitor_new d n)"

locale monitor_laws =
  fixes C :: "('d, 'm) code"
    and d0 :: "'d \<Rightarrow> bool"
    and dinv :: "'d \<Rightarrow> bool"
  assumes start: "d0 d \<Longrightarrow> dinv d"
    and body_inv: "dinv d \<Longrightarrow> \<not> m_while C m d \<Longrightarrow> m_body C m d = Inr (d', n) \<Longrightarrow> dinv d'"
begin

lemma step_dinv: "mon_step C s s' \<Longrightarrow> dinv (mon_data s) \<Longrightarrow> dinv (mon_data s')"
  by (induction rule: mon_step.induct) (auto intro: body_inv)

lemma reach_ok:
  assumes "reach (mon_init d0) (mon_step C) s"
  shows "dinv (mon_data s) \<and> lock_ok s"
  using assms
proof (induction rule: reach.induct)
  case (reach_init s)
  then show ?case by (auto simp: mon_init_def start) (simp add: monitor_new_def start)
next
  case (reach_step s t)
  then show ?case using step_dinv lock_ok_step by blast
qed

end

section \<open>No lost wake-up\<close>

fun awake_on :: "('d, 'm) code \<Rightarrow> nat \<Rightarrow> 'm pc \<Rightarrow> bool" where
  "awake_on C c (PWoken m) \<longleftrightarrow> m_cond C m = Some c"
| "awake_on C c (PLocked m) \<longleftrightarrow> m_cond C m = Some c"
| "awake_on C c _ \<longleftrightarrow> False"

definition sleepers :: "('d, 'm) code \<Rightarrow> nat \<Rightarrow> ('d, 'm) monitor \<Rightarrow> nat" where
  "sleepers C c s = length (filter (waits_on C c) (mon_pcs s))"

definition awake :: "('d, 'm) code \<Rightarrow> nat \<Rightarrow> ('d, 'm) monitor \<Rightarrow> nat" where
  "awake C c s = length (filter (awake_on C c) (mon_pcs s))"

lemma length_filter_update:
  "i < length xs \<Longrightarrow> length (filter P (xs[i := v])) + of_bool (P (xs ! i)) = length (filter P xs) + of_bool (P v)"
proof (induction xs arbitrary: i)
  case (Cons x xs)
  then show ?case by (cases i) auto
qed simp

lemma not_waits_wake [simp]: "\<not> waits_on C c (wake p)"
  by (cases p) simp_all

lemma awake_not_waits: "awake_on C c p \<Longrightarrow> \<not> waits_on C c' p"
  by (cases p) simp_all

lemma waits_not_awake: "waits_on C c' p \<Longrightarrow> \<not> awake_on C c p"
  by (cases p) simp_all

lemma awake_wake: "waits_on C c' p \<Longrightarrow> awake_on C c (wake p) \<longleftrightarrow> c = c'"
  by (cases p) auto

text \<open>What a notification does to the two counts: the one it wakes moves from one to the other.\<close>

lemma notify_counts:
  assumes "notified C n ps qs"
  shows "length (filter (waits_on C c) qs) \<le> length (filter (waits_on C c) ps)"
    and "length (filter (awake_on C c) ps) \<le> length (filter (awake_on C c) qs)"
    and "n = Some (Notify c) \<Longrightarrow> length (filter (waits_on C c) qs) \<noteq> 0 \<Longrightarrow>
      length (filter (awake_on C c) qs) = length (filter (awake_on C c) ps) + 1"
    and "n = Some (NotifyAll c) \<Longrightarrow> length (filter (waits_on C c) qs) = 0"
proof -
  note w = not_waits_wake awake_not_waits awake_wake
  have all: "length (filter (waits_on C c) (map f ps)) \<le> length (filter (waits_on C c) ps)"
    if "\<And>p. waits_on C c (f p) \<Longrightarrow> waits_on C c p" for f and ps :: "'b pc list"
    using that by (induction ps) (auto simp: le_Suc_eq)
  have all2: "length (filter (awake_on C c) ps) \<le> length (filter (awake_on C c) (map f ps))"
    if "\<And>p. awake_on C c p \<Longrightarrow> awake_on C c (f p)" for f and ps :: "'b pc list"
    using that by (induction ps) (auto simp: le_Suc_eq)
  have one: "length (filter (waits_on C c) (ps[i := wake (ps ! i)])) \<le> length (filter (waits_on C c) ps)"
    "length (filter (awake_on C c) (ps[i := wake (ps ! i)])) = length (filter (awake_on C c) ps) + of_bool (c = c')"
    if "i < length ps" "waits_on C c' (ps ! i)" for i c'
    using length_filter_update [OF that(1), of "waits_on C c" "wake (ps ! i)"]
      length_filter_update [OF that(1), of "awake_on C c" "wake (ps ! i)"]
      waits_not_awake [OF that(2), of c] awake_wake [OF that(2), of c] by auto
  show "length (filter (waits_on C c) qs) \<le> length (filter (waits_on C c) ps)"
    using assms
  proof cases
    case (n_all c')
    show ?thesis unfolding n_all(2) by (rule all) (auto split: if_splits)
  qed (use one in auto)
  show "length (filter (awake_on C c) ps) \<le> length (filter (awake_on C c) qs)"
    using assms
  proof cases
    case (n_all c')
    show ?thesis unfolding n_all(2) by (rule all2) (auto dest: awake_not_waits split: if_splits)
  qed (use one in auto)
  show "n = Some (Notify c) \<Longrightarrow> length (filter (waits_on C c) qs) \<noteq> 0 \<Longrightarrow>
      length (filter (awake_on C c) qs) = length (filter (awake_on C c) ps) + 1"
    using assms one by cases (auto simp: filter_empty_conv)
  show "n = Some (NotifyAll c) \<Longrightarrow> length (filter (waits_on C c) qs) = 0"
    using assms w by cases (auto simp: filter_empty_conv)
qed

text \<open>A condition that is notified once for each unit of \<open>stock\<close> a body adds: a method of the condition
  waits only for lack of stock and uses up one unit when it runs.\<close>

locale signalling = monitor_laws C d0 dinv
  for C :: "('d, 'm) code" and d0 dinv +
  fixes c :: nat
    and stock :: "'d \<Rightarrow> nat"
  assumes while_stock: "dinv d \<Longrightarrow> m_cond C m = Some c \<Longrightarrow> m_while C m d \<Longrightarrow> stock d = 0"
    and body_stock: "dinv d \<Longrightarrow> \<not> m_while C m d \<Longrightarrow> m_body C m d = Inr (d', n) \<Longrightarrow>
      stock d' = 0 \<or> n = Some (NotifyAll c) \<or>
      stock d' + of_bool (m_cond C m = Some c) \<le> stock d + of_bool (n = Some (Notify c))"
begin

text \<open>While somebody sleeps, every unit of stock has a thread that is awake for it.\<close>

definition served :: "('d, 'm) monitor \<Rightarrow> bool" where
  "served s \<longleftrightarrow> sleepers C c s \<noteq> 0 \<longrightarrow> stock (mon_data s) \<le> awake C c s"

lemma served_new: "served (monitor_new d n)"
  by (simp add: served_def sleepers_def monitor_new_def)

lemma served_move:
  assumes "served s" "t < length (mon_pcs s)" "mon_data s' = mon_data s" "mon_pcs s' = (mon_pcs s)[t := q]"
    and "waits_on C c q \<Longrightarrow> waits_on C c (mon_pcs s ! t)" "awake_on C c (mon_pcs s ! t) \<Longrightarrow> awake_on C c q"
  shows "served s'"
  using assms length_filter_update [OF assms(2), of "waits_on C c" q] length_filter_update [OF assms(2), of "awake_on C c" q]
  unfolding served_def sleepers_def awake_def by (auto simp: of_bool_def split: if_splits)

lemma served_run:
  assumes s: "served s" "dinv (mon_data s)" and t: "t < length (mon_pcs s)" "mon_pcs s ! t = PLocked m"
    and b: "\<not> m_while C m (mon_data s)" "m_body C m (mon_data s) = Inr (d, n)" and n: "notified C n (mon_pcs s) ps"
  shows "served \<lparr>mon_mutex = mx, mon_data = d, mon_pcs = ps[t := POut]\<rparr>"
proof -
  have t': "t < length ps" using t(1) notified_length [OF n] by simp
  have pt: "ps ! t = PLocked m" using n t by cases (auto simp: nth_list_update)
  note u = length_filter_update [OF t', of "waits_on C c" POut] length_filter_update [OF t', of "awake_on C c" POut]
  note k = notify_counts [OF n, of c]
  show ?thesis
  proof (cases "stock d = 0 \<or> length (filter (waits_on C c) ps) = 0")
    case True
    then show ?thesis using u pt by (auto simp: served_def sleepers_def)
  next
    case False
    then have "stock d + of_bool (m_cond C m = Some c) \<le> stock (mon_data s) + of_bool (n = Some (Notify c))"
      using body_stock [OF s(2) b] k(4) by auto
    moreover have "stock (mon_data s) \<le> length (filter (awake_on C c) (mon_pcs s))"
      using s(1) False k(1) by (cases "filter (waits_on C c) (mon_pcs s)") (simp_all add: served_def sleepers_def awake_def)
    ultimately have "stock d + of_bool (m_cond C m = Some c) \<le> length (filter (awake_on C c) ps)"
      using k(2,3) False by (cases "n = Some (Notify c)") auto
    then show ?thesis using u(2) pt by (simp add: served_def awake_def)
  qed
qed

lemma served_step:
  assumes "mon_step C s s'" "served s" "dinv (mon_data s)"
  shows "served s'"
  using assms
proof (induction rule: mon_step.induct)
  case (mon_call t s m)
  then show ?case by (intro served_move [OF mon_call.prems(1) mon_call.hyps(1), where q = "PEnter m"]) simp_all
next
  case (mon_lock t s m mx)
  then show ?case by (intro served_move [OF mon_lock.prems(1) mon_lock.hyps(1), where q = "PLocked m"]) auto
next
  case (mon_wait t s m)
  show ?case
  proof (cases "m_cond C m = Some c")
    case True
    then show ?thesis using while_stock mon_wait by (simp add: served_def)
  next
    case False
    with mon_wait show ?thesis by (intro served_move [OF mon_wait.prems(1) mon_wait.hyps(1), where q = "PWaiting m"]) simp_all
  qed
next
  case (mon_spurious t s m)
  then show ?case by (intro served_move [OF mon_spurious.prems(1) mon_spurious.hyps(1), where q = "PWoken m"]) simp_all
next
  case (mon_run t s m d n ps)
  show ?case by (rule served_run [OF mon_run.prems mon_run.hyps])
qed

lemma stock_served:
  assumes "reach (mon_init d0) (mon_step C) s"
  shows "sleepers C c s \<noteq> 0 \<Longrightarrow> stock (mon_data s) \<le> awake C c s"
proof -
  have "served s"
    using assms
  proof (induction rule: reach.induct)
    case (reach_init s)
    then show ?case using served_new by (auto simp: mon_init_def)
  next
    case (reach_step s t)
    then show ?case using served_step reach_ok by blast
  qed
  then show "sleepers C c s \<noteq> 0 \<Longrightarrow> stock (mon_data s) \<le> awake C c s" by (simp add: served_def)
qed

end

section \<open>Release of all waiters\<close>

text \<open>A condition that no method waits on once \<open>released\<close> holds, and that is broadcast by the body that
  makes it hold.\<close>

locale broadcast = monitor_laws C d0 dinv
  for C :: "('d, 'm) code" and d0 dinv +
  fixes c :: nat
    and released :: "'d \<Rightarrow> bool"
  assumes while_released: "dinv d \<Longrightarrow> m_cond C m = Some c \<Longrightarrow> m_while C m d \<Longrightarrow> \<not> released d"
    and body_released: "dinv d \<Longrightarrow> \<not> m_while C m d \<Longrightarrow> m_body C m d = Inr (d', n) \<Longrightarrow> released d' \<Longrightarrow>
      released d \<or> n = Some (NotifyAll c)"
begin

lemma released_step:
  assumes "mon_step C s s'" "released (mon_data s) \<Longrightarrow> sleepers C c s = 0" "dinv (mon_data s)" "released (mon_data s')"
  shows "sleepers C c s' = 0"
  using assms
proof (induction rule: mon_step.induct)
  case (mon_wait t s m)
  then show ?case using while_released length_filter_update [OF mon_wait.hyps(1), of "waits_on C c" "PWaiting m"]
    by (auto simp: sleepers_def)
next
  case (mon_run t s m d n ps)
  have "length (filter (waits_on C c) ps) = 0"
    using body_released [OF mon_run.prems(2) mon_run.hyps(3,4)] mon_run.prems notify_counts(1,4) [OF mon_run.hyps(5), of c]
    by (auto simp: sleepers_def)
  then show ?case
    using length_filter_update [of t ps "waits_on C c" POut] mon_run.hyps(1) notified_length [OF mon_run.hyps(5)]
    by (simp add: sleepers_def)
next
  case (mon_call t s m)
  then show ?case using length_filter_update [OF mon_call.hyps(1), of "waits_on C c" "PEnter m"] by (simp add: sleepers_def)
next
  case (mon_lock t s m mx)
  then show ?case using length_filter_update [OF mon_lock.hyps(1), of "waits_on C c" "PLocked m"] by (auto simp: sleepers_def)
next
  case (mon_spurious t s m)
  then show ?case using length_filter_update [OF mon_spurious.hyps(1), of "waits_on C c" "PWoken m"] by (simp add: sleepers_def)
qed

lemma nobody_sleeps:
  assumes "reach (mon_init d0) (mon_step C) s" "released (mon_data s)"
  shows "sleepers C c s = 0"
  using assms
proof (induction rule: reach.induct)
  case (reach_init s)
  then show ?case by (auto simp: mon_init_def monitor_new_def sleepers_def)
next
  case (reach_step s t)
  then show ?case using released_step [of s t] reach_ok by blast
qed

end

end
