(* ===== verification/BlockingQueues.thy ===== *)
theory BlockingQueues
  imports Monitor
begin

text \<open>
  \<^verbatim>\<open>BlockingQueue\<close>, \<^verbatim>\<open>BoundedBlockingQueue\<close> and \<^verbatim>\<open>CountDownLatch\<close> (\<^verbatim>\<open>src/base/BlockingQueue.h\<close>,
  \<^verbatim>\<open>src/base/BoundedBlockingQueue.h\<close>, \<^verbatim>\<open>src/base/CountDownLatch.cc\<close>) as monitors (theory \<open>Monitor\<close>): any number of threads call
  their methods, in any interleaving.

  \<^verbatim>\<open>boost::circular_buffer\<close> is a parameter: a record of the operations the bounded queue uses, and
  \<open>cb_contract\<close> states their documentation over the list of the elements. The fields \<open>qd_put\<close> and
  \<open>qd_taken\<close> are not in the code: they record what went in and what came out.
\<close>

section \<open>Queues\<close>

record ('b, 'a) circular_ops =
  cb_full :: "'b \<Rightarrow> bool"
  cb_empty :: "'b \<Rightarrow> bool"
  cb_size :: "'b \<Rightarrow> nat"
  cb_capacity :: "'b \<Rightarrow> nat"
  cb_push_back :: "'a \<Rightarrow> 'b \<Rightarrow> 'b"
  cb_front :: "'b \<Rightarrow> 'a"
  cb_pop_front :: "'b \<Rightarrow> 'b"

definition cb_contract :: "('b, 'a) circular_ops \<Rightarrow> ('b \<Rightarrow> 'a list) \<Rightarrow> nat \<Rightarrow> bool" where
  "cb_contract ops els cap \<longleftrightarrow>
     (\<forall>b. (cb_full ops b \<longleftrightarrow> length (els b) = cap) \<and> (cb_empty ops b \<longleftrightarrow> els b = []) \<and>
          cb_size ops b = length (els b) \<and> cb_capacity ops b = cap \<and>
          (els b \<noteq> [] \<longrightarrow> cb_front ops b = hd (els b) \<and> els (cb_pop_front ops b) = tl (els b)) \<and>
          (\<forall>x. length (els b) < cap \<longrightarrow> els (cb_push_back ops x b) = els b @ [x]))"

record ('b, 'a) queue_data =
  qd_queue :: 'b
  qd_put :: "'a list"
  qd_taken :: "'a list"

datatype 'a q_method = QPut 'a | QTake | QSize | QEmpty | QFull | QCapacity

definition notEmpty :: nat where "notEmpty = 0"
definition notFull :: nat where "notFull = 1"

section \<open>BoundedBlockingQueue\<close>

definition bbq_size :: "('b, 'a) circular_ops \<Rightarrow> ('b, 'a) queue_data \<Rightarrow> nat" where
  "bbq_size ops d = cb_size ops (qd_queue d)"

definition bbq_empty :: "('b, 'a) circular_ops \<Rightarrow> ('b, 'a) queue_data \<Rightarrow> bool" where
  "bbq_empty ops d = cb_empty ops (qd_queue d)"

definition bbq_full :: "('b, 'a) circular_ops \<Rightarrow> ('b, 'a) queue_data \<Rightarrow> bool" where
  "bbq_full ops d = cb_full ops (qd_queue d)"

definition bbq_capacity :: "('b, 'a) circular_ops \<Rightarrow> ('b, 'a) queue_data \<Rightarrow> nat" where
  "bbq_capacity ops d = cb_capacity ops (qd_queue d)"

text \<open>The bodies behind the \<^verbatim>\<open>while\<close> loops.\<close>

definition bbq_put :: "('b, 'a) circular_ops \<Rightarrow> 'a \<Rightarrow> ('b, 'a) queue_data \<Rightarrow> (('b, 'a) queue_data \<times> notify option) res" where
  "bbq_put ops x d =
     bindR (assertR (\<not> cb_full ops (qd_queue d)) ''not queue_.full()'') (\<lambda>_.
     Inr (d\<lparr>qd_queue := cb_push_back ops x (qd_queue d), qd_put := qd_put d @ [x]\<rparr>, Some (Notify notEmpty)))"

definition bbq_take :: "('b, 'a) circular_ops \<Rightarrow> ('b, 'a) queue_data \<Rightarrow> (('b, 'a) queue_data \<times> notify option) res" where
  "bbq_take ops d =
     bindR (assertR (\<not> cb_empty ops (qd_queue d)) ''not queue_.empty()'') (\<lambda>_.
     let front = cb_front ops (qd_queue d) in
     Inr (d\<lparr>qd_queue := cb_pop_front ops (qd_queue d), qd_taken := qd_taken d @ [front]\<rparr>, Some (Notify notFull)))"

fun bbq_while :: "('b, 'a) circular_ops \<Rightarrow> 'a q_method \<Rightarrow> ('b, 'a) queue_data \<Rightarrow> bool" where
  "bbq_while ops (QPut x) d \<longleftrightarrow> cb_full ops (qd_queue d)"
| "bbq_while ops QTake d \<longleftrightarrow> cb_empty ops (qd_queue d)"
| "bbq_while ops _ d \<longleftrightarrow> False"

fun bbq_cond :: "'a q_method \<Rightarrow> nat option" where
  "bbq_cond (QPut x) = Some notFull"
| "bbq_cond QTake = Some notEmpty"
| "bbq_cond _ = None"

fun bbq_body :: "('b, 'a) circular_ops \<Rightarrow> 'a q_method \<Rightarrow> ('b, 'a) queue_data \<Rightarrow> (('b, 'a) queue_data \<times> notify option) res" where
  "bbq_body ops (QPut x) d = bbq_put ops x d"
| "bbq_body ops QTake d = bbq_take ops d"
| "bbq_body ops _ d = Inr (d, None)"

definition bbq_code :: "('b, 'a) circular_ops \<Rightarrow> (('b, 'a) queue_data, 'a q_method) code" where
  "bbq_code ops = \<lparr>m_call = \<lambda>_ _. True, m_while = bbq_while ops, m_cond = bbq_cond, m_body = bbq_body ops\<rparr>"

section \<open>BlockingQueue\<close>

text \<open>Over a \<^verbatim>\<open>std::deque\<close>, which is a list here; there is no bound and no \<^verbatim>\<open>notFull_\<close>.\<close>

definition bq_put :: "'a \<Rightarrow> ('a list, 'a) queue_data \<Rightarrow> (('a list, 'a) queue_data \<times> notify option) res" where
  "bq_put x d = Inr (d\<lparr>qd_queue := qd_queue d @ [x], qd_put := qd_put d @ [x]\<rparr>, Some (Notify notEmpty))"

definition bq_take :: "('a list, 'a) queue_data \<Rightarrow> (('a list, 'a) queue_data \<times> notify option) res" where
  "bq_take d =
     bindR (assertR (qd_queue d \<noteq> []) ''!queue_.empty()'') (\<lambda>_.
     let front = hd (qd_queue d) in Inr (d\<lparr>qd_queue := tl (qd_queue d), qd_taken := qd_taken d @ [front]\<rparr>, None))"

definition bq_size :: "('a list, 'a) queue_data \<Rightarrow> nat" where
  "bq_size d = length (qd_queue d)"

fun bq_while :: "'a q_method \<Rightarrow> ('a list, 'a) queue_data \<Rightarrow> bool" where
  "bq_while QTake d \<longleftrightarrow> qd_queue d = []"
| "bq_while _ d \<longleftrightarrow> False"

fun bq_cond :: "'a q_method \<Rightarrow> nat option" where
  "bq_cond QTake = Some notEmpty"
| "bq_cond _ = None"

fun bq_body :: "'a q_method \<Rightarrow> ('a list, 'a) queue_data \<Rightarrow> (('a list, 'a) queue_data \<times> notify option) res" where
  "bq_body (QPut x) d = bq_put x d"
| "bq_body QTake d = bq_take d"
| "bq_body _ d = Inr (d, None)"

definition bq_code :: "(('a list, 'a) queue_data, 'a q_method) code" where
  "bq_code = \<lparr>m_call = \<lambda>m _. m \<noteq> QEmpty \<and> m \<noteq> QFull \<and> m \<noteq> QCapacity, m_while = bq_while, m_cond = bq_cond, m_body = bq_body\<rparr>"

section \<open>CountDownLatch\<close>

text \<open>\<open>lt_init\<close>, \<open>lt_downs\<close> and \<open>lt_returned\<close> record the initial count, the calls of \<^verbatim>\<open>countDown()\<close> and the returns of
  \<^verbatim>\<open>wait()\<close>. Decrementing the least \<^verbatim>\<open>int\<close> is undefined and is a fault here.\<close>

record latch =
  lt_count :: int
  lt_init :: int
  lt_downs :: nat
  lt_returned :: nat

datatype l_method = LWait | LCountDown

definition CountDownLatch_new :: "int \<Rightarrow> latch" where
  "CountDownLatch_new count = \<lparr>lt_count = count, lt_init = count, lt_downs = 0, lt_returned = 0\<rparr>"

definition latch_countDown :: "latch \<Rightarrow> (latch \<times> notify option) res" where
  "latch_countDown d =
     (if lt_count d = - (2 ^ 31) then Inl (Fatal ''signed overflow'')
      else let d1 = d\<lparr>lt_count := lt_count d - 1, lt_downs := lt_downs d + 1\<rparr>
           in Inr (d1, if lt_count d1 = 0 then Some (NotifyAll 0) else None))"

definition latch_wait :: "latch \<Rightarrow> (latch \<times> notify option) res" where
  "latch_wait d = Inr (d\<lparr>lt_returned := lt_returned d + 1\<rparr>, None)"

definition getCount :: "latch \<Rightarrow> int" where
  "getCount d = lt_count d"

fun latch_while :: "l_method \<Rightarrow> latch \<Rightarrow> bool" where
  "latch_while LWait d \<longleftrightarrow> lt_count d > 0"
| "latch_while LCountDown d \<longleftrightarrow> False"

fun latch_cond :: "l_method \<Rightarrow> nat option" where
  "latch_cond LWait = Some 0"
| "latch_cond LCountDown = None"

fun latch_body :: "l_method \<Rightarrow> latch \<Rightarrow> (latch \<times> notify option) res" where
  "latch_body LWait d = latch_wait d"
| "latch_body LCountDown d = latch_countDown d"

definition latch_code :: "(latch, l_method) code" where
  "latch_code = \<lparr>m_call = \<lambda>_ _. True, m_while = latch_while, m_cond = latch_cond, m_body = latch_body\<rparr>"

section \<open>The contracts\<close>

definition bbq_inv :: "('b, 'a) circular_ops \<Rightarrow> ('b \<Rightarrow> 'a list) \<Rightarrow> nat \<Rightarrow> ('b, 'a) queue_data \<Rightarrow> bool" where
  "bbq_inv ops els cap d \<longleftrightarrow> cb_contract ops els cap \<and> qd_put d = qd_taken d @ els (qd_queue d) \<and> length (els (qd_queue d)) \<le> cap"

definition bbq_new :: "('b, 'a) circular_ops \<Rightarrow> ('b \<Rightarrow> 'a list) \<Rightarrow> nat \<Rightarrow> ('b, 'a) queue_data \<Rightarrow> bool" where
  "bbq_new ops els cap d \<longleftrightarrow> cb_contract ops els cap \<and> els (qd_queue d) = [] \<and> qd_put d = [] \<and> qd_taken d = []"

lemma bbq_code_simps [simp]:
  "m_while (bbq_code ops) = bbq_while ops" "m_cond (bbq_code ops) = bbq_cond" "m_body (bbq_code ops) = bbq_body ops"
  by (simp_all add: bbq_code_def)

text \<open>What the two bodies do to the elements, under the guard of their loops.\<close>

lemma bbq_put_ok:
  assumes "bbq_inv ops els cap d" "\<not> cb_full ops (qd_queue d)"
  shows "\<exists>d'. bbq_put ops x d = Inr (d', Some (Notify notEmpty)) \<and> bbq_inv ops els cap d' \<and>
     els (qd_queue d') = els (qd_queue d) @ [x]"
  using assms by (auto simp: bbq_put_def bbq_inv_def cb_contract_def nat_less_le)

lemma bbq_take_ok:
  assumes "bbq_inv ops els cap d" "\<not> cb_empty ops (qd_queue d)"
  shows "\<exists>d'. bbq_take ops d = Inr (d', Some (Notify notFull)) \<and> bbq_inv ops els cap d' \<and>
     els (qd_queue d) = hd (els (qd_queue d)) # els (qd_queue d')"
  using assms by (auto simp: bbq_take_def bbq_inv_def cb_contract_def)

lemma bbq_while_iff:
  assumes "bbq_inv ops els cap d"
  shows "cb_full ops (qd_queue d) \<longleftrightarrow> length (els (qd_queue d)) = cap" "cb_empty ops (qd_queue d) \<longleftrightarrow> els (qd_queue d) = []"
  using assms by (simp_all add: bbq_inv_def cb_contract_def)

lemma bbq_body_cases:
  assumes i: "bbq_inv ops els cap d" and g: "\<not> bbq_while ops m d" and b: "bbq_body ops m d = Inr (d', n)"
  shows "bbq_inv ops els cap d' \<and>
    ((\<exists>x. m = QPut x \<and> n = Some (Notify notEmpty) \<and> els (qd_queue d') = els (qd_queue d) @ [x]) \<or>
     (m = QTake \<and> n = Some (Notify notFull) \<and> els (qd_queue d) = hd (els (qd_queue d)) # els (qd_queue d')) \<or>
     (bbq_cond m = None \<and> n = None \<and> d' = d))"
proof (cases m)
  case (QPut x)
  then show ?thesis using bbq_put_ok [OF i, of x] g b by auto
next
  case QTake
  then show ?thesis using bbq_take_ok [OF i] g b by auto
qed (use i b in simp_all)

lemma bbq_body_length:
  assumes "bbq_inv ops els cap d" "\<not> bbq_while ops m d" "bbq_body ops m d = Inr (d', n)"
  shows "length (els (qd_queue d')) + of_bool (bbq_cond m = Some notEmpty) = length (els (qd_queue d)) + of_bool (bbq_cond m = Some notFull)"
    "n = Some (Notify notEmpty) \<longleftrightarrow> bbq_cond m = Some notFull" "n = Some (Notify notFull) \<longleftrightarrow> bbq_cond m = Some notEmpty"
    "length (els (qd_queue d')) \<le> cap"
proof -
  have "length (els (qd_queue d)) = Suc (length (els (qd_queue d')))" if "els (qd_queue d) = hd (els (qd_queue d)) # els (qd_queue d')"
    by (subst that) simp
  then show "length (els (qd_queue d')) + of_bool (bbq_cond m = Some notEmpty) = length (els (qd_queue d)) + of_bool (bbq_cond m = Some notFull)"
    "n = Some (Notify notEmpty) \<longleftrightarrow> bbq_cond m = Some notFull" "n = Some (Notify notFull) \<longleftrightarrow> bbq_cond m = Some notEmpty"
    "length (els (qd_queue d')) \<le> cap"
    using bbq_body_cases [OF assms] by (auto simp: notEmpty_def notFull_def bbq_inv_def simp del: bbq_body.simps)
qed

lemma bbq_waits:
  assumes "bbq_inv ops els cap d" "bbq_while ops m d"
  shows "bbq_cond m = Some notEmpty \<Longrightarrow> length (els (qd_queue d)) = 0"
    and "bbq_cond m = Some notFull \<Longrightarrow> cap - length (els (qd_queue d)) = 0"
  using assms(2) bbq_while_iff [OF assms(1)] by (cases m; simp add: notEmpty_def notFull_def)+

text \<open>The two condition variables: elements are what takers wait for, free places what putters wait
  for.\<close>

interpretation bbq_ne: signalling "bbq_code ops" "bbq_new ops els cap" "bbq_inv ops els cap" notEmpty
  "\<lambda>d. length (els (qd_queue d))" for ops els cap
proof
  fix d m d' n
  assume i: "bbq_inv ops els cap d"
  show "m_cond (bbq_code ops) m = Some notEmpty \<Longrightarrow> m_while (bbq_code ops) m d \<Longrightarrow> length (els (qd_queue d)) = 0"
    using bbq_waits(1) [OF i] by simp
  assume b: "\<not> m_while (bbq_code ops) m d" "m_body (bbq_code ops) m d = Inr (d', n)"
  then show "bbq_inv ops els cap d'" using bbq_body_cases [OF i, of m d' n] by simp
  show "length (els (qd_queue d')) = 0 \<or> n = Some (NotifyAll notEmpty) \<or>
     length (els (qd_queue d')) + of_bool (m_cond (bbq_code ops) m = Some notEmpty)
       \<le> length (els (qd_queue d)) + of_bool (n = Some (Notify notEmpty))"
    using bbq_body_length(1,2) [OF i, of m d' n] b by simp
qed (simp add: bbq_new_def bbq_inv_def)

interpretation bbq_nf: signalling "bbq_code ops" "bbq_new ops els cap" "bbq_inv ops els cap" notFull
  "\<lambda>d. cap - length (els (qd_queue d))" for ops els cap
proof
  fix d m d' n
  assume i: "bbq_inv ops els cap d"
  show "m_cond (bbq_code ops) m = Some notFull \<Longrightarrow> m_while (bbq_code ops) m d \<Longrightarrow> cap - length (els (qd_queue d)) = 0"
    using bbq_waits(2) [OF i] by simp
  assume b: "\<not> m_while (bbq_code ops) m d" "m_body (bbq_code ops) m d = Inr (d', n)"
  show "cap - length (els (qd_queue d')) = 0 \<or> n = Some (NotifyAll notFull) \<or>
     cap - length (els (qd_queue d')) + of_bool (m_cond (bbq_code ops) m = Some notFull)
       \<le> cap - length (els (qd_queue d)) + of_bool (n = Some (Notify notFull))"
    using bbq_body_length [OF i, of m d' n] b by (cases "bbq_cond m = Some notFull"; cases "bbq_cond m = Some notEmpty") auto
qed

definition bq_inv :: "('a list, 'a) queue_data \<Rightarrow> bool" where
  "bq_inv d \<longleftrightarrow> qd_put d = qd_taken d @ qd_queue d"

definition bq_new :: "('a list, 'a) queue_data \<Rightarrow> bool" where
  "bq_new d \<longleftrightarrow> qd_queue d = [] \<and> qd_put d = [] \<and> qd_taken d = []"

interpretation bq: signalling bq_code bq_new bq_inv notEmpty "\<lambda>d. length (qd_queue d)"
proof
  fix d :: "('a list, 'a) queue_data" and m d' n
  show "m_cond bq_code m = Some notEmpty \<Longrightarrow> m_while bq_code m d \<Longrightarrow> length (qd_queue d) = 0"
    by (cases m) (simp_all add: bq_code_def)
  assume "bq_inv d" "\<not> m_while bq_code m d" "m_body bq_code m d = Inr (d', n)"
  then show "bq_inv d'"
    "length (qd_queue d') = 0 \<or> n = Some (NotifyAll notEmpty) \<or>
     length (qd_queue d') + of_bool (m_cond bq_code m = Some notEmpty) \<le> length (qd_queue d) + of_bool (n = Some (Notify notEmpty))"
    by (cases m; auto simp: bq_code_def bq_put_def bq_take_def bq_inv_def)+
qed (simp add: bq_new_def bq_inv_def)

text \<open>The latch: once the count is down, nobody sleeps on its condition.\<close>

definition latch_inv :: "latch \<Rightarrow> bool" where
  "latch_inv d \<longleftrightarrow> lt_count d = lt_init d - int (lt_downs d) \<and> (0 < lt_returned d \<longrightarrow> lt_count d \<le> 0)"

interpretation latch: broadcast latch_code "\<lambda>d. \<exists>n. d = CountDownLatch_new n" latch_inv 0 "\<lambda>d. lt_count d \<le> 0"
proof
  fix d d' m n
  show "m_cond latch_code m = Some 0 \<Longrightarrow> m_while latch_code m d \<Longrightarrow> \<not> lt_count d \<le> 0"
    by (cases m) (simp_all add: latch_code_def)
  assume "latch_inv d" "\<not> m_while latch_code m d" "m_body latch_code m d = Inr (d', n)"
  then show "latch_inv d'" "lt_count d' \<le> 0 \<Longrightarrow> lt_count d \<le> 0 \<or> n = Some (NotifyAll 0)"
    by (cases m; auto simp: latch_code_def latch_wait_def latch_countDown_def latch_inv_def Let_def split: if_splits)+
qed (auto simp: CountDownLatch_new_def latch_inv_def)

section \<open>Properties\<close>

text \<open>C24: In every interleaving of any number of threads the bounded queue is first in, first out and
  within its capacity: what was put is what was taken followed by the elements inside. At most
  the recorded holder is inside a method, and no assertion of a body fails.\<close>

theorem bounded_queue_fifo:
  assumes "reach (mon_init (bbq_new ops els cap)) (mon_step (bbq_code ops)) s"
  shows "qd_put (mon_data s) = qd_taken (mon_data s) @ els (qd_queue (mon_data s)) \<and>
     length (els (qd_queue (mon_data s))) \<le> cap \<and> lock_ok s \<and>
     (\<forall>m. \<not> bbq_while ops m (mon_data s) \<longrightarrow> (\<exists>d n. bbq_body ops m (mon_data s) = Inr (d, n)))"
proof -
  have i: "bbq_inv ops els cap (mon_data s)" and l: "lock_ok s" using bbq_ne.reach_ok [OF assms] by simp_all
  have "\<exists>d n. bbq_body ops m (mon_data s) = Inr (d, n)" if "\<not> bbq_while ops m (mon_data s)" for m
    using that bbq_put_ok [OF i] bbq_take_ok [OF i] by (cases m) fastforce+
  with i l show ?thesis by (auto simp: bbq_inv_def)
qed

text \<open>A concrete circular buffer of two elements, for the witnesses: a list and its capacity.\<close>

definition cb_example :: "(nat list, nat) circular_ops" where
  "cb_example = \<lparr>cb_full = \<lambda>b. length b = 2, cb_empty = \<lambda>b. b = [], cb_size = length, cb_capacity = \<lambda>_. 2,
     cb_push_back = \<lambda>x b. b @ [x], cb_front = hd, cb_pop_front = tl\<rparr>"

lemma cb_example_contract [simp]: "cb_contract cb_example id 2"
  by (simp add: cb_contract_def cb_example_def)

definition bbq_example :: "((nat list, nat) queue_data, nat q_method) monitor" where
  "bbq_example = monitor_new \<lparr>qd_queue = [], qd_put = [], qd_taken = []\<rparr> 1"

lemma bbq_example_init: "mon_init (bbq_new cb_example id 2) bbq_example"
  unfolding mon_init_def bbq_example_def
  by (intro exI conjI) (rule_tac [2] refl, simp add: bbq_new_def)

definition bbq_taker_waits :: "((nat list, nat) queue_data, nat q_method) monitor" where
  "bbq_taker_waits = bbq_example\<lparr>mon_pcs := [PWaiting QTake]\<rparr>"

lemma bbq_taker_waits_reach: "reach (mon_init (bbq_new cb_example id 2)) (mon_step (bbq_code cb_example)) bbq_taker_waits"
proof -
  have "turns (bbq_code cb_example) [Call 0 QTake, Go 0, Go 0] bbq_example = Some bbq_taker_waits" by code_simp
  moreover have "reach (mon_init (bbq_new cb_example id 2)) (mon_step (bbq_code cb_example)) bbq_example"
    by (rule reach_init) (rule bbq_example_init)
  ultimately show ?thesis by (metis turns_reach)
qed

theorem bounded_queue_fifo_witness:
  "qd_put (mon_data bbq_taker_waits) = qd_taken (mon_data bbq_taker_waits) @ qd_queue (mon_data bbq_taker_waits) \<and>
   (\<exists>d n. bbq_body cb_example (QPut 7) (mon_data bbq_taker_waits) = Inr (d, n))"
  using bounded_queue_fifo [OF bbq_taker_waits_reach]
  by (simp add: bbq_taker_waits_def bbq_example_def monitor_new_def cb_example_def bbq_put_def)

text \<open>C25: No wake-up of the bounded queue is lost, though each method notifies one waiter only. While a
  taker sleeps on \<^verbatim>\<open>notEmpty_\<close>, the elements are no more than the takers that are awake for them; while a
  putter sleeps on \<^verbatim>\<open>notFull_\<close>, the free places are no more than the putters that are awake. So a thread
  that could go on never sleeps without another one about to run.\<close>

theorem bounded_queue_no_lost_wakeup:
  assumes "reach (mon_init (bbq_new ops els cap)) (mon_step (bbq_code ops)) s"
  shows "(sleepers (bbq_code ops) notEmpty s \<noteq> 0 \<longrightarrow> length (els (qd_queue (mon_data s))) \<le> awake (bbq_code ops) notEmpty s) \<and>
     (sleepers (bbq_code ops) notFull s \<noteq> 0 \<longrightarrow> cap - length (els (qd_queue (mon_data s))) \<le> awake (bbq_code ops) notFull s)"
  using bbq_ne.stock_served [OF assms] bbq_nf.stock_served [OF assms] by simp

theorem bounded_queue_no_lost_wakeup_witness:
  "sleepers (bbq_code cb_example) notEmpty bbq_taker_waits = 1 \<and> length (qd_queue (mon_data bbq_taker_waits)) \<le> 0"
  using bounded_queue_no_lost_wakeup [OF bbq_taker_waits_reach]
  by (simp add: sleepers_def awake_def bbq_taker_waits_def bbq_example_def monitor_new_def)

text \<open>C26: \<^verbatim>\<open>CountDownLatch\<close>. In every interleaving the count is the initial one less the calls of \<^verbatim>\<open>countDown()\<close>,
  no \<^verbatim>\<open>wait()\<close> has returned while it is positive, and once it is not, no thread is left asleep.\<close>

theorem latch_releases:
  assumes "reach (mon_init (\<lambda>d. \<exists>n. d = CountDownLatch_new n)) (mon_step latch_code) s"
  shows "lt_count (mon_data s) = lt_init (mon_data s) - int (lt_downs (mon_data s)) \<and>
     (0 < lt_count (mon_data s) \<longrightarrow> lt_returned (mon_data s) = 0) \<and>
     (lt_count (mon_data s) \<le> 0 \<longrightarrow> sleepers latch_code 0 s = 0)"
  using latch.reach_ok [OF assms] latch.nobody_sleeps [OF assms] by (auto simp: latch_inv_def)

theorem latch_releases_witness:
  "let s = monitor_new (CountDownLatch_new 2) 3 :: (latch, l_method) monitor
   in lt_count (mon_data s) = 2 \<and> lt_returned (mon_data s) = 0"
proof -
  let ?s = "monitor_new (CountDownLatch_new 2) 3 :: (latch, l_method) monitor"
  have "reach (mon_init (\<lambda>d. \<exists>n. d = CountDownLatch_new n)) (mon_step latch_code) ?s"
    by (rule reach_init) (auto simp: mon_init_def)
  from latch_releases [OF this] show ?thesis by (simp add: monitor_new_def CountDownLatch_new_def Let_def)
qed

end
