(* ===== verification/ThreadPool.thy ===== *)
theory ThreadPool
  imports Monitor
begin

text \<open>
  \<^verbatim>\<open>AtomicIntegerT\<close>, \<^verbatim>\<open>CurrentThread\<close>, \<^verbatim>\<open>Thread\<close> and \<^verbatim>\<open>ThreadPool\<close> (\<^verbatim>\<open>src/base/Atomic.h\<close>, \<^verbatim>\<open>src/base/Thread.cc\<close>,
  \<^verbatim>\<open>src/base/ThreadPool.cc\<close>). The pool is a monitor (theory \<open>Monitor\<close>): any number of producers and
  workers in any interleaving. A task is a value; \<open>tp_accepted\<close> and \<open>tp_taken\<close> record the tasks that
  went into the queue and those handed to workers. \<^verbatim>\<open>src/base/CurrentThread.cc\<close> repeats a part of \<^verbatim>\<open>Thread.cc\<close> and is not
  in the library's build.
\<close>

section \<open>AtomicIntegerT\<close>

text \<open>Each operation is one atomic step: its result and the new value.\<close>

definition atomic_get :: "'w::len word \<Rightarrow> 'w word \<times> 'w word" where
  "atomic_get v = (v, if v = 0 then 0 else v)"

definition getAndAdd :: "'w::len word \<Rightarrow> 'w word \<Rightarrow> 'w word \<times> 'w word" where
  "getAndAdd x v = (v, v + x)"

definition addAndGet :: "'w::len word \<Rightarrow> 'w word \<Rightarrow> 'w word \<times> 'w word" where
  "addAndGet x v = (case getAndAdd x v of (r, v') \<Rightarrow> (r + x, v'))"

definition incrementAndGet :: "'w::len word \<Rightarrow> 'w word \<times> 'w word" where
  "incrementAndGet v = addAndGet 1 v"

definition decrementAndGet :: "'w::len word \<Rightarrow> 'w word \<times> 'w word" where
  "decrementAndGet v = addAndGet (- 1) v"

definition atomic_add :: "'w::len word \<Rightarrow> 'w word \<Rightarrow> 'w word" where
  "atomic_add x v = snd (getAndAdd x v)"

definition atomic_increment :: "'w::len word \<Rightarrow> 'w word" where
  "atomic_increment v = snd (incrementAndGet v)"

definition atomic_decrement :: "'w::len word \<Rightarrow> 'w word" where
  "atomic_decrement v = snd (decrementAndGet v)"

definition getAndSet :: "'w::len word \<Rightarrow> 'w word \<Rightarrow> 'w word \<times> 'w word" where
  "getAndSet newValue v = (v, newValue)"

lemma addAndGet_new: "fst (addAndGet x v) = snd (addAndGet x v)" "snd (addAndGet x v) = v + x"
  by (simp_all add: addAndGet_def getAndAdd_def)

section \<open>CurrentThread\<close>

record thread_local =
  t_cachedTid :: int
  t_tidString :: string
  t_threadName :: string

definition thread_local_init :: thread_local where
  "thread_local_init = \<lparr>t_cachedTid = 0, t_tidString = [], t_threadName = ''unknown''\<rparr>"

definition cacheTid :: "int \<Rightarrow> thread_local \<Rightarrow> thread_local res" where
  "cacheTid gettid tls =
     (if t_cachedTid tls = 0 then
        let out = printf_d 5 gettid @ '' '' in
        bindR (assertR (length out = 6) ''n == 6'') (\<lambda>_.
        Inr (tls\<lparr>t_cachedTid := gettid, t_tidString := snprintf_buf 32 out\<rparr>))
      else Inr tls)"

definition CurrentThread_tid :: "int \<Rightarrow> thread_local \<Rightarrow> (int \<times> thread_local) res" where
  "CurrentThread_tid gettid tls =
     (if t_cachedTid tls = 0 then bindR (cacheTid gettid tls) (\<lambda>tls. Inr (t_cachedTid tls, tls)) else Inr (t_cachedTid tls, tls))"

definition isMainThread :: "int \<Rightarrow> int \<Rightarrow> thread_local \<Rightarrow> (bool \<times> thread_local) res" where
  "isMainThread gettid getpid tls = bindR (CurrentThread_tid gettid tls) (\<lambda>(tid, tls). Inr (tid = getpid, tls))"

text \<open>\<^verbatim>\<open>sleepUsec\<close>: the seconds and nanoseconds handed to \<^verbatim>\<open>nanosleep\<close>.\<close>

definition sleepUsec :: "int \<Rightarrow> int \<times> int" where
  "sleepUsec usec = (usec sdiv 1000000, (usec smod 1000000) * 1000)"

text \<open>After \<^verbatim>\<open>fork()\<close> the child reads its thread id again.\<close>

definition afterFork :: "int \<Rightarrow> thread_local \<Rightarrow> thread_local res" where
  "afterFork gettid tls =
     bindR (CurrentThread_tid gettid (tls\<lparr>t_cachedTid := 0, t_threadName := ''main''\<rparr>)) (\<lambda>(_, tls). Inr tls)"

definition ThreadNameInitializer :: "int \<Rightarrow> thread_local \<Rightarrow> thread_local res" where
  "ThreadNameInitializer gettid tls = bindR (CurrentThread_tid gettid (tls\<lparr>t_threadName := ''main''\<rparr>)) (\<lambda>(_, tls). Inr tls)"

section \<open>Thread\<close>

record Thread =
  th_started :: bool
  th_joined :: bool
  th_tid :: int
  th_name :: string

text \<open>How the function of a thread ends: it returns, or throws one of the three kinds the code
  tells apart.\<close>

datatype ended = Returns | ThrowsException string | ThrowsStd string | ThrowsOther

definition Thread_new :: "string \<Rightarrow> 32 word \<Rightarrow> Thread \<times> 32 word" where
  "Thread_new n numCreated = (\<lparr>th_started = False, th_joined = False, th_tid = 0, th_name = n\<rparr>, atomic_increment numCreated)"

text \<open>The destructor: whether it detaches the thread.\<close>

definition Thread_dtor :: "Thread \<Rightarrow> bool" where
  "Thread_dtor th \<longleftrightarrow> th_started th \<and> \<not> th_joined th"

definition Thread_start :: "int \<Rightarrow> Thread \<Rightarrow> Thread res" where
  "Thread_start pthread_create th =
     bindR (assertR (\<not> th_started th) ''!started_'') (\<lambda>_.
     if pthread_create \<noteq> 0 then Inl (Fatal ''Failed in pthread_create'') else Inr (th\<lparr>th_started := True\<rparr>))"

definition Thread_join :: "Thread \<Rightarrow> Thread res" where
  "Thread_join th =
     bindR (assertR (th_started th) ''started_'') (\<lambda>_.
     bindR (assertR (\<not> th_joined th) ''!joined_'') (\<lambda>_. Inr (th\<lparr>th_joined := True\<rparr>)))"

text \<open>\<^verbatim>\<open>ThreadData::runInThread\<close> in the new thread; the \<^verbatim>\<open>Thread\<close> object may be gone by then.\<close>

definition runInThread :: "int \<Rightarrow> string \<Rightarrow> ended \<Rightarrow> Thread option \<Rightarrow> thread_local \<Rightarrow> (Thread option \<times> thread_local) res" where
  "runInThread gettid name func wkTid tls =
     bindR (CurrentThread_tid gettid tls) (\<lambda>(tid, tls).
     let wkTid = map_option (\<lambda>th. th\<lparr>th_tid := tid\<rparr>) wkTid in
     case func of
       Returns \<Rightarrow> Inr (wkTid, tls\<lparr>t_threadName := ''finished''\<rparr>)
     | ThrowsException what \<Rightarrow> Inl (Fatal what)
     | ThrowsStd what \<Rightarrow> Inl (Fatal what)
     | ThrowsOther \<Rightarrow> Inl (Fatal ''unknown exception caught in Thread''))"

section \<open>ThreadPool\<close>

record 'a ThreadPool =
  tp_name :: string
  tp_threads :: "Thread list"
  tp_queue :: "'a list"
  tp_maxQueueSize :: nat
  tp_running :: bool
  tp_accepted :: "'a list"
  tp_taken :: "'a list"

definition ThreadPool_new :: "string \<Rightarrow> 'a ThreadPool" where
  "ThreadPool_new name = \<lparr>tp_name = name, tp_threads = [], tp_queue = [], tp_maxQueueSize = 0, tp_running = False,
     tp_accepted = [], tp_taken = []\<rparr>"

definition setMaxQueueSize :: "int \<Rightarrow> 'a ThreadPool \<Rightarrow> 'a ThreadPool" where
  "setMaxQueueSize maxSize d = d\<lparr>tp_maxQueueSize := int_to_size maxSize\<rparr>"

fun start_threads :: "(nat \<Rightarrow> int) \<Rightarrow> nat \<Rightarrow> nat \<Rightarrow> 'a ThreadPool \<Rightarrow> 'a ThreadPool res" where
  "start_threads create i 0 d = Inr d"
| "start_threads create i (Suc k) d =
     (let th = fst (Thread_new (tp_name d @ snprintf_buf 32 (show_int (int i))) 0) in
      bindR (Thread_start (create i) th) (\<lambda>th.
      start_threads create (i + 1) k (d\<lparr>tp_threads := tp_threads d @ [th]\<rparr>)))"

definition ThreadPool_start :: "(nat \<Rightarrow> int) \<Rightarrow> int \<Rightarrow> 'a ThreadPool \<Rightarrow> 'a ThreadPool res" where
  "ThreadPool_start create numThreads d =
     bindR (assertR (tp_threads d = []) ''threads_.empty()'') (\<lambda>_.
     start_threads create 0 (nat numThreads) (d\<lparr>tp_running := True\<rparr>))"

definition tp_full :: "'a ThreadPool \<Rightarrow> bool" where
  "tp_full d \<longleftrightarrow> tp_maxQueueSize d > 0 \<and> length (tp_queue d) \<ge> tp_maxQueueSize d"

definition isFull :: "nat \<Rightarrow> MutexLock \<Rightarrow> 'a ThreadPool \<Rightarrow> bool res" where
  "isFull t mx d = bindR (assertLocked t mx) (\<lambda>_. Inr (tp_full d))"

datatype 'a tp_method = TRun 'a | TTake | TStop

definition tp_notEmpty :: nat where "tp_notEmpty = 0"
definition tp_notFull :: nat where "tp_notFull = 1"

text \<open>\<^verbatim>\<open>run()\<close>: without threads the caller runs the task itself; otherwise it goes through the queue.\<close>

definition runs_inline :: "'a ThreadPool \<Rightarrow> bool" where
  "runs_inline d \<longleftrightarrow> tp_threads d = []"

definition tp_run :: "'a \<Rightarrow> 'a ThreadPool \<Rightarrow> ('a ThreadPool \<times> notify option) res" where
  "tp_run task d =
     bindR (assertR (\<not> tp_full d) ''!isFull()'') (\<lambda>_.
     Inr (d\<lparr>tp_queue := tp_queue d @ [task], tp_accepted := tp_accepted d @ [task]\<rparr>, Some (Notify tp_notEmpty)))"

text \<open>\<^verbatim>\<open>take()\<close>: an empty task when the queue is empty, which happens after \<^verbatim>\<open>stop()\<close> only.\<close>

definition tp_take :: "'a ThreadPool \<Rightarrow> ('a ThreadPool \<times> notify option) res" where
  "tp_take d =
     (case tp_queue d of
        [] \<Rightarrow> Inr (d, None)
      | task # rest \<Rightarrow> Inr (d\<lparr>tp_queue := rest, tp_taken := tp_taken d @ [task]\<rparr>,
          if tp_maxQueueSize d > 0 then Some (Notify tp_notFull) else None))"

text \<open>The locked part of \<^verbatim>\<open>stop()\<close>; then it joins the threads.\<close>

definition tp_stop :: "'a ThreadPool \<Rightarrow> ('a ThreadPool \<times> notify option) res" where
  "tp_stop d = Inr (d\<lparr>tp_running := False\<rparr>, Some (NotifyAll tp_notEmpty))"

definition stop_joins :: "'a ThreadPool \<Rightarrow> 'a ThreadPool res" where
  "stop_joins d = bindR (foldR (\<lambda>th ths. bindR (Thread_join th) (\<lambda>th. Inr (ths @ [th]))) (tp_threads d) []) (\<lambda>ths.
     Inr (d\<lparr>tp_threads := ths\<rparr>))"

definition ThreadPool_dtor :: "'a ThreadPool \<Rightarrow> 'a ThreadPool res" where
  "ThreadPool_dtor d = (if tp_running d then bindR (tp_stop d) (\<lambda>(d, _). stop_joins d) else Inr d)"

fun tp_while :: "'a tp_method \<Rightarrow> 'a ThreadPool \<Rightarrow> bool" where
  "tp_while (TRun task) d \<longleftrightarrow> tp_full d"
| "tp_while TTake d \<longleftrightarrow> tp_queue d = [] \<and> tp_running d"
| "tp_while TStop d \<longleftrightarrow> False"

fun tp_cond :: "'a tp_method \<Rightarrow> nat option" where
  "tp_cond (TRun task) = Some tp_notFull"
| "tp_cond TTake = Some tp_notEmpty"
| "tp_cond TStop = None"

fun tp_body :: "'a tp_method \<Rightarrow> 'a ThreadPool \<Rightarrow> ('a ThreadPool \<times> notify option) res" where
  "tp_body (TRun task) d = tp_run task d"
| "tp_body TTake d = tp_take d"
| "tp_body TStop d = tp_stop d"

text \<open>Workers call \<^verbatim>\<open>take()\<close> in the loop \<^verbatim>\<open>while (running_)\<close> of \<^verbatim>\<open>ThreadPool::runInThread\<close>.\<close>

fun tp_call :: "'a tp_method \<Rightarrow> 'a ThreadPool \<Rightarrow> bool" where
  "tp_call (TRun task) d \<longleftrightarrow> \<not> runs_inline d"
| "tp_call TTake d \<longleftrightarrow> tp_running d"
| "tp_call TStop d \<longleftrightarrow> True"

definition tp_code :: "('a ThreadPool, 'a tp_method) code" where
  "tp_code = \<lparr>m_call = tp_call, m_while = tp_while, m_cond = tp_cond, m_body = tp_body\<rparr>"

section \<open>Threads\<close>

text \<open>\<^verbatim>\<open>ThreadPool::runInThread\<close>, the loop of a worker: for every iteration the value of \<^verbatim>\<open>running_\<close>, what \<^verbatim>\<open>take()\<close>
  returned (\<open>None\<close> for an empty task) and how the task ends. The result is how the worker
  ends and the tasks it ran.\<close>

datatype worker_end = WorkerDone | WorkerAborts string | WorkerRethrows | WorkerGoesOn

fun ThreadPool_runInThread :: "(bool \<times> ('a \<times> ended) option) list \<Rightarrow> worker_end \<times> 'a list" where
  "ThreadPool_runInThread [] = (WorkerGoesOn, [])"
| "ThreadPool_runInThread ((running, task) # rounds) =
     (if \<not> running then (WorkerDone, [])
      else case task of
        None \<Rightarrow> ThreadPool_runInThread rounds
      | Some (t, ended) \<Rightarrow>
          (case ended of
             Returns \<Rightarrow> (let (e, ts) = ThreadPool_runInThread rounds in (e, t # ts))
           | ThrowsException what \<Rightarrow> (WorkerAborts what, [t])
           | ThrowsStd what \<Rightarrow> (WorkerAborts what, [t])
           | ThrowsOther \<Rightarrow> (WorkerRethrows, [t])))"

lemma length_show_nat_iff: "length (show_nat n) \<le> 5 \<longleftrightarrow> n < 10 ^ 5"
  using length_show_nat_le [of n 5] length_show_nat_ge [of 5 n] by (meson not_less zero_less_numeral)

lemma length_tid_string:
  assumes "0 < gettid"
  shows "length (printf_d 5 gettid @ '' '') = 6 \<longleftrightarrow> gettid < 100000"
proof -
  have "length (printf_d 5 gettid @ '' '') = 6 \<longleftrightarrow> length (show_nat (nat gettid)) \<le> 5"
    using assms by (simp add: printf_d_def show_int_def max_def)
  also have "\<dots> \<longleftrightarrow> nat gettid < 10 ^ 5" by (rule length_show_nat_iff)
  also have "\<dots> \<longleftrightarrow> gettid < 100000" using assms nat_less_iff [of gettid "10 ^ 5"] by simp
  finally show ?thesis .
qed

section \<open>The pool as a monitor\<close>

definition tp_inv :: "'a ThreadPool \<Rightarrow> bool" where
  "tp_inv d \<longleftrightarrow> tp_accepted d = tp_taken d @ tp_queue d"

definition tp_started :: "'a ThreadPool \<Rightarrow> bool" where
  "tp_started d \<longleftrightarrow> tp_queue d = [] \<and> tp_accepted d = [] \<and> tp_taken d = [] \<and> tp_threads d \<noteq> [] \<and> tp_running d"

lemma tp_code_simps [simp]:
  "m_call tp_code = tp_call" "m_while tp_code = tp_while" "m_cond tp_code = tp_cond" "m_body tp_code = tp_body"
  by (simp_all add: tp_code_def)

lemma tp_body_cases:
  assumes "tp_inv d" "\<not> tp_while m d" "tp_body m d = Inr (d', n)"
  shows "tp_inv d'"
  using assms by (cases m; cases "tp_queue d")
    (auto simp: tp_inv_def tp_run_def tp_take_def tp_stop_def)

interpretation pool_ne: signalling tp_code tp_started tp_inv tp_notEmpty "\<lambda>d. if tp_running d then length (tp_queue d) else 0"
proof
  fix d d' :: "'a ThreadPool" and m n
  show "m_cond tp_code m = Some tp_notEmpty \<Longrightarrow> m_while tp_code m d \<Longrightarrow> (if tp_running d then length (tp_queue d) else 0) = 0"
    by (cases m) (auto simp: tp_notEmpty_def tp_notFull_def)
  assume a: "tp_inv d" "\<not> m_while tp_code m d" "m_body tp_code m d = Inr (d', n)"
  then show "tp_inv d'" using tp_body_cases [of d m d' n] by simp
  show "(if tp_running d' then length (tp_queue d') else 0) = 0 \<or> n = Some (NotifyAll tp_notEmpty) \<or>
     (if tp_running d' then length (tp_queue d') else 0) + of_bool (m_cond tp_code m = Some tp_notEmpty)
       \<le> (if tp_running d then length (tp_queue d) else 0) + of_bool (n = Some (Notify tp_notEmpty))"
    using a(2,3) by (cases m; cases "tp_queue d")
      (auto simp: tp_run_def tp_take_def tp_stop_def tp_notEmpty_def tp_notFull_def)
qed (simp add: tp_started_def tp_inv_def)

interpretation pool_nf: signalling tp_code tp_started tp_inv tp_notFull "\<lambda>d. tp_maxQueueSize d - length (tp_queue d)"
proof
  fix d d' :: "'a ThreadPool" and m n
  show "m_cond tp_code m = Some tp_notFull \<Longrightarrow> m_while tp_code m d \<Longrightarrow> tp_maxQueueSize d - length (tp_queue d) = 0"
    by (cases m) (auto simp: tp_notEmpty_def tp_notFull_def tp_full_def)
  assume a: "tp_inv d" "\<not> m_while tp_code m d" "m_body tp_code m d = Inr (d', n)"
  show "tp_maxQueueSize d' - length (tp_queue d') = 0 \<or> n = Some (NotifyAll tp_notFull) \<or>
     tp_maxQueueSize d' - length (tp_queue d') + of_bool (m_cond tp_code m = Some tp_notFull)
       \<le> tp_maxQueueSize d - length (tp_queue d) + of_bool (n = Some (Notify tp_notFull))"
    using a(2,3) by (cases m; cases "tp_queue d")
      (auto simp: tp_run_def tp_take_def tp_stop_def tp_notEmpty_def tp_notFull_def tp_full_def split: if_splits)
qed

interpretation pool_stop: broadcast tp_code tp_started tp_inv tp_notEmpty "\<lambda>d. \<not> tp_running d"
proof
  fix d d' :: "'a ThreadPool" and m n
  show "m_cond tp_code m = Some tp_notEmpty \<Longrightarrow> m_while tp_code m d \<Longrightarrow> \<not> \<not> tp_running d"
    by (cases m) (auto simp: tp_notEmpty_def tp_notFull_def)
  assume "\<not> m_while tp_code m d" "m_body tp_code m d = Inr (d', n)" "\<not> tp_running d'"
  then show "\<not> tp_running d \<or> n = Some (NotifyAll tp_notEmpty)"
    by (cases m; cases "tp_queue d") (auto simp: tp_run_def tp_take_def tp_stop_def)
qed

section \<open>A pool that is stopped\<close>

text \<open>\<open>stranded\<close>: the pool is stopped, its queue is full and every worker has left \<^verbatim>\<open>take()\<close>.\<close>

fun pc_method :: "'m pc \<Rightarrow> 'm option" where
  "pc_method POut = None"
| "pc_method (PEnter m) = Some m"
| "pc_method (PLocked m) = Some m"
| "pc_method (PWaiting m) = Some m"
| "pc_method (PWoken m) = Some m"

definition stranded :: "('a ThreadPool, 'a tp_method) monitor \<Rightarrow> bool" where
  "stranded s \<longleftrightarrow> \<not> tp_running (mon_data s) \<and> tp_full (mon_data s) \<and> Some TTake \<notin> pc_method ` set (mon_pcs s)"

fun in_run :: "'a tp_method pc \<Rightarrow> bool" where
  "in_run p \<longleftrightarrow> (case pc_method p of Some (TRun task) \<Rightarrow> True | _ \<Rightarrow> False)"

lemma pc_method_wake [simp]: "pc_method (wake p) = pc_method p"
  by (cases p) simp_all

lemma notified_methods: "notified C n ps qs \<Longrightarrow> map pc_method qs = map pc_method ps"
proof (induction rule: notified.induct)
  case (n_one i ps c)
  then show ?case by (auto simp: map_update list_eq_iff_nth_eq nth_list_update)
next
  case (n_all c ps)
  show ?case by simp
qed simp_all

lemma stranded_run:
  assumes "stranded s" "t < length (mon_pcs s)" "mon_pcs s ! t = PLocked m" "\<not> tp_while m (mon_data s)"
  shows "m = TStop"
proof -
  have "Some m \<in> pc_method ` set (mon_pcs s)" using assms(2,3) by (metis imageI nth_mem pc_method.simps(3))
  then have "m \<noteq> TTake" using assms(1) by (auto simp: stranded_def)
  moreover have "m \<noteq> TRun task" for task using assms(1,4) by (auto simp: stranded_def)
  ultimately show ?thesis by (cases m) auto
qed

lemma stranded_step:
  assumes "mon_step tp_code s s'" "stranded s"
  shows "stranded s' \<and> tp_accepted (mon_data s') = tp_accepted (mon_data s) \<and> length (mon_pcs s') = length (mon_pcs s) \<and>
     (\<forall>t < length (mon_pcs s). in_run (mon_pcs s ! t) \<longrightarrow> in_run (mon_pcs s' ! t))"
proof -
  have upd: "Some TTake \<notin> pc_method ` set ((mon_pcs s)[t := p])" if "pc_method p \<noteq> Some TTake" for t p
    using assms(2) that set_update_subset_insert [of "mon_pcs s" t p] by (auto simp: stranded_def image_iff)
  have member: "mon_pcs s ! t = p \<Longrightarrow> t < length (mon_pcs s) \<Longrightarrow> pc_method p \<noteq> Some TTake" for t p
    using assms(2) nth_mem [of t "mon_pcs s"] by (auto simp: stranded_def image_iff)
  show ?thesis
    using assms(1)
  proof cases
    case (mon_call t m)
    then have "pc_method (PEnter m) \<noteq> Some TTake" using assms(2) by (auto simp: stranded_def)
    from upd [OF this, of t] mon_call assms(2) show ?thesis by (auto simp: stranded_def nth_list_update)
  next
    case (mon_lock t m mx)
    then have "pc_method (PLocked m) \<noteq> Some TTake" using member [of t] by auto
    from upd [OF this, of t] mon_lock assms(2) show ?thesis by (auto simp: stranded_def nth_list_update split: if_splits)
  next
    case (mon_wait t m)
    then have "pc_method (PWaiting m) \<noteq> Some TTake" using member [of t] by auto
    from upd [OF this, of t] mon_wait assms(2) show ?thesis by (auto simp: stranded_def nth_list_update)
  next
    case (mon_spurious t m)
    then have "pc_method (PWoken m) \<noteq> Some TTake" using member [of t] by auto
    from upd [OF this, of t] mon_spurious assms(2) show ?thesis by (auto simp: stranded_def nth_list_update)
  next
    case (mon_run t m d n ps)
    then have m: "m = TStop" using stranded_run [OF assms(2), of t m] by simp
    have d: "d = (mon_data s)\<lparr>tp_running := False\<rparr>" using mon_run(5) m by (simp add: tp_stop_def)
    have len: "length ps = length (mon_pcs s)" by (rule notified_length [OF mon_run(6)])
    have pm: "pc_method (ps ! u) = pc_method (mon_pcs s ! u)" if "u < length ps" for u
      using notified_methods [OF mon_run(6)] that len by (metis nth_map)
    have "pc_method p \<noteq> Some TTake" if p: "p \<in> set ps" for p
    proof -
      obtain u where "u < length ps" "p = ps ! u" using p by (auto simp: in_set_conv_nth)
      with pm member [of u "mon_pcs s ! u"] len show ?thesis by simp
    qed
    then have "Some TTake \<notin> pc_method ` set (ps[t := POut])"
      using set_update_subset_insert [of ps t POut] by fastforce
    moreover have "\<not> in_run (mon_pcs s ! t)" using mon_run(3) m by simp
    ultimately show ?thesis using assms(2) mon_run(1,2) d len pm by (auto simp: stranded_def tp_full_def nth_list_update)
  qed
qed

text \<open>A worker runs what it takes, each task once and in order: while the pool runs and no task throws
  it takes every round, the first throwing task is the last one, and a worker that saw the pool
  stopped takes nothing more.\<close>

lemma worker_runs_taken:
  assumes "\<forall>(running, task) \<in> set rounds. running \<and> (\<forall>t e. task = Some (t, e) \<longrightarrow> e = Returns)"
  shows "ThreadPool_runInThread (rounds @ rest) =
     (case ThreadPool_runInThread rest of (e, ts) \<Rightarrow> (e, map fst (List.map_filter snd rounds) @ ts))"
  using assms
  by (induction rounds) (auto simp: List.map_filter_simps split: prod.splits option.splits)

lemma worker_ends:
  assumes "\<forall>(running, task) \<in> set rounds. running \<and> (\<forall>t e. task = Some (t, e) \<longrightarrow> e = Returns)"
  shows "ThreadPool_runInThread (rounds @ (False, task) # rest) = (WorkerDone, map fst (List.map_filter snd rounds))"
    and "ThreadPool_runInThread (rounds @ (True, Some (t, ThrowsStd what)) # rest) = (WorkerAborts what, map fst (List.map_filter snd rounds) @ [t])"
    and "ThreadPool_runInThread (rounds @ (True, Some (t, ThrowsOther)) # rest) = (WorkerRethrows, map fst (List.map_filter snd rounds) @ [t])"
  by (simp_all add: worker_runs_taken [OF assms])

section \<open>Properties\<close>

text \<open>C27: In every interleaving of producers, workers and \<^verbatim>\<open>stop()\<close>, the tasks accepted are the tasks taken
  followed by those in the queue, in order: each task is handed out at most once. While the
  pool runs, no task waits for a sleeping worker without another one awake for it, and no
  producer sleeps on a free place; once it is stopped no worker is left asleep.\<close>

theorem threadpool_tasks:
  assumes "reach (mon_init tp_started) (mon_step tp_code) s"
  shows "tp_accepted (mon_data s) = tp_taken (mon_data s) @ tp_queue (mon_data s) \<and> lock_ok s \<and>
     (tp_running (mon_data s) \<and> sleepers tp_code tp_notEmpty s \<noteq> 0 \<longrightarrow>
        length (tp_queue (mon_data s)) \<le> awake tp_code tp_notEmpty s) \<and>
     (sleepers tp_code tp_notFull s \<noteq> 0 \<longrightarrow>
        tp_maxQueueSize (mon_data s) - length (tp_queue (mon_data s)) \<le> awake tp_code tp_notFull s) \<and>
     (\<not> tp_running (mon_data s) \<longrightarrow> sleepers tp_code tp_notEmpty s = 0)"
  using pool_ne.reach_ok [OF assms] pool_ne.stock_served [OF assms] pool_nf.stock_served [OF assms]
    pool_stop.nobody_sleeps [OF assms]
  by (auto simp: tp_inv_def split: if_splits)

definition tp_example :: "(nat ThreadPool, nat tp_method) monitor" where
  "tp_example = monitor_new ((ThreadPool_new ''pool'')\<lparr>tp_maxQueueSize := 1, tp_running := True,
     tp_threads := [\<lparr>th_started = True, th_joined = False, th_tid = 9, th_name = ''pool0''\<rparr>]\<rparr>) 2"

definition tp_stopped :: "(nat ThreadPool, nat tp_method) monitor" where
  "tp_stopped = the (turns tp_code [Call 0 (TRun 5), Go 0, Go 0, Call 0 (TRun 6), Go 0, Go 0, Call 1 TStop, Go 1, Go 1] tp_example)"

lemma tp_example_reach: "reach (mon_init tp_started) (mon_step tp_code) tp_example"
proof (rule reach_init)
  show "mon_init tp_started tp_example"
    unfolding mon_init_def tp_example_def
    by (intro exI conjI) (rule_tac [2] refl, simp add: tp_started_def ThreadPool_new_def)
qed

lemma tp_stopped_run:
  "turns tp_code [Call 0 (TRun 5), Go 0, Go 0, Call 0 (TRun 6), Go 0, Go 0, Call 1 TStop, Go 1, Go 1] tp_example = Some tp_stopped"
  "mon_pcs tp_stopped = [PWaiting (TRun 6), POut]" "tp_queue (mon_data tp_stopped) = [5]" "\<not> tp_running (mon_data tp_stopped)"
  "tp_accepted (mon_data tp_stopped) = [5]" "tp_maxQueueSize (mon_data tp_stopped) = 1"
  by code_simp+

theorem threadpool_tasks_witness:
  "tp_accepted (mon_data tp_stopped) = tp_taken (mon_data tp_stopped) @ [5] \<and> sleepers tp_code tp_notEmpty tp_stopped = 0"
  using threadpool_tasks [OF turns_reach [OF tp_example_reach tp_stopped_run(1)]] tp_stopped_run(3,4) by simp

text \<open>C28: \<^verbatim>\<open>stop()\<close> notifies \<^verbatim>\<open>notEmpty_\<close> but not \<^verbatim>\<open>notFull_\<close>. A producer that waits in \<^verbatim>\<open>run()\<close> for a place when the
  pool is stopped, and the workers are gone, stays in \<^verbatim>\<open>run()\<close> forever: whatever happens then, spurious
  wake-ups included, no \<^verbatim>\<open>run()\<close> returns and no task is accepted.\<close>

theorem threadpool_stop_strands_producers:
  assumes "stranded s" "(mon_step tp_code)\<^sup>*\<^sup>* s s'" "t < length (mon_pcs s)" "in_run (mon_pcs s ! t)"
  shows "in_run (mon_pcs s' ! t) \<and> tp_accepted (mon_data s') = tp_accepted (mon_data s)"
proof -
  have "stranded s' \<and> length (mon_pcs s') = length (mon_pcs s) \<and> in_run (mon_pcs s' ! t) \<and>
      tp_accepted (mon_data s') = tp_accepted (mon_data s)"
    using assms(2)
  proof (induction rule: rtranclp_induct)
    case base
    then show ?case using assms(1,4) by simp
  next
    case (step y z)
    then show ?case using stranded_step [of y z] assms(3) by simp
  qed
  then show ?thesis by simp
qed

theorem threadpool_stop_strands_producers_witness:
  "reach (mon_init tp_started) (mon_step tp_code) tp_stopped \<and> stranded tp_stopped \<and>
   (\<exists>s'. turns tp_code [Call 1 (TRun 7), Go 1, Go 1] tp_stopped = Some s' \<and> in_run (mon_pcs s' ! 0) \<and> tp_accepted (mon_data s') = [5])"
proof -
  have s: "stranded tp_stopped" by (simp add: stranded_def tp_full_def tp_stopped_run)
  have "turns tp_code [Call 1 (TRun 7), Go 1, Go 1] tp_stopped \<noteq> None" by code_simp
  then obtain s' where s': "turns tp_code [Call 1 (TRun 7), Go 1, Go 1] tp_stopped = Some s'" by blast
  from threadpool_stop_strands_producers [OF s turns_steps [OF s'], of 0] s s'
    turns_reach [OF tp_example_reach tp_stopped_run(1)]
  show ?thesis by (simp add: tp_stopped_run)
qed

text \<open>\<^verbatim>\<open>CurrentThread::cacheTid()\<close> prints the thread id with \<^verbatim>\<open>"%5d "\<close> and asserts that six characters come out: it
  succeeds for the ids of at most five digits, and for every larger one, which Linux hands out
  when \<^verbatim>\<open>pid_max\<close> is above its default, the assertion fails.\<close>

theorem cacheTid_five_digits:
  assumes "0 < gettid" "t_cachedTid tls = 0"
  shows "cacheTid gettid tls =
     (if gettid < 100000 then Inr (tls\<lparr>t_cachedTid := gettid, t_tidString := printf_d 5 gettid @ '' ''\<rparr>)
      else Inl (AssertFailed ''n == 6''))"
proof -
  have "snprintf_buf 32 out = out" if "length out = 6" for out using that by (simp add: snprintf_buf_def)
  with length_tid_string [OF assms(1)] assms(2) show ?thesis by (simp add: cacheTid_def Let_def assertR_def)
qed

theorem cacheTid_five_digits_witness:
  "cacheTid 123456 thread_local_init = Inl (AssertFailed ''n == 6'')"
  using cacheTid_five_digits [of 123456 thread_local_init] by (simp add: thread_local_init_def)

end
