(* ===== verification/Sockets.thy ===== *)
theory Sockets
  imports Endian
begin

text \<open>
  Addresses and socket calls (\<^verbatim>\<open>src/net/InetAddress.h\<close>, \<^verbatim>\<open>src/net/InetAddress.cc\<close>, \<^verbatim>\<open>src/net/SocketsOps.cc\<close>, \<^verbatim>\<open>src/net/Socket.cc\<close>).
  What the kernel answers to a system call is an argument: the value returned, errno, and what
  it wrote. The byte order of the host is the parameter \<open>ho\<close> of theory \<open>Endian\<close>. \<open>inet_ntop\<close> and \<open>inet_pton\<close>
  are the C library's conversions of a dotted quad: four decimal numbers up to 255 without leading
  zeros.
\<close>

section \<open>Addresses\<close>

record sockaddr_in =
  sin_family :: nat
  sin_port :: "16 word"
  sin_addr :: "32 word"

definition AF_INET :: nat where "AF_INET = 2"
definition INET_ADDRSTRLEN :: nat where "INET_ADDRSTRLEN = 16"

definition sockaddr_zero :: sockaddr_in where
  "sockaddr_zero = \<lparr>sin_family = 0, sin_port = 0, sin_addr = 0\<rparr>"

fun join :: "char \<Rightarrow> string list \<Rightarrow> string" where
  "join c [] = []"
| "join c [s] = s"
| "join c (s # ss) = s @ c # join c ss"

fun splits :: "char \<Rightarrow> string \<Rightarrow> string list" where
  "splits c [] = [[]]"
| "splits c (x # xs) = (if x = c then [] # splits c xs else (x # hd (splits c xs)) # tl (splits c xs))"

text \<open>The bytes of \<^verbatim>\<open>s_addr\<close> in memory are the four numbers.\<close>

definition inet_ntop :: "byte_order \<Rightarrow> 32 word \<Rightarrow> string" where
  "inet_ntop ho a = join (CHR ''.'') (map (\<lambda>b. show_nat (unat b)) (mem_of ho 4 a))"

definition octet_ok :: "string \<Rightarrow> bool" where
  "octet_ok p \<longleftrightarrow> p \<noteq> [] \<and> list_all is_digit p \<and> length p \<le> 3 \<and> parse_nat p \<le> 255 \<and> (hd p = CHR ''0'' \<longrightarrow> length p = 1)"

definition inet_pton :: "byte_order \<Rightarrow> string \<Rightarrow> 32 word option" where
  "inet_pton ho s =
     (let ps = splits (CHR ''.'') s in
      if length ps = 4 \<and> list_all octet_ok ps then Some (of_mem ho (map (\<lambda>p. word_of_nat (parse_nat p)) ps)) else None)"

definition toIp :: "byte_order \<Rightarrow> nat \<Rightarrow> sockaddr_in \<Rightarrow> string res" where
  "toIp ho sz addr =
     bindR (assertR (sz \<ge> INET_ADDRSTRLEN) ''size >= INET_ADDRSTRLEN'') (\<lambda>_.
     Inr (inet_ntop ho (sin_addr addr)))"

definition toIpPort :: "byte_order \<Rightarrow> nat \<Rightarrow> sockaddr_in \<Rightarrow> string res" where
  "toIpPort ho sz addr =
     bindR (toIp ho INET_ADDRSTRLEN addr) (\<lambda>host.
     let port = networkToHost16 ho (sin_port addr) in
     Inr (snprintf_buf sz (host @ '':'' @ show_nat (unat port))))"

text \<open>\<^verbatim>\<open>fromIpPort\<close>; a text that is no address is reported and leaves \<^verbatim>\<open>sin_addr\<close> alone.\<close>

definition fromIpPort :: "byte_order \<Rightarrow> string \<Rightarrow> 16 word \<Rightarrow> sockaddr_in \<Rightarrow> sockaddr_in" where
  "fromIpPort ho ip port addr =
     (let addr1 = addr\<lparr>sin_family := AF_INET, sin_port := hostToNetwork16 ho port\<rparr> in
      case inet_pton ho ip of None \<Rightarrow> addr1 | Some a \<Rightarrow> addr1\<lparr>sin_addr := a\<rparr>)"

definition kInaddrAny :: "32 word" where "kInaddrAny = 0"
definition kInaddrLoopback :: "32 word" where "kInaddrLoopback = 0x7f000001"

definition InetAddress_port :: "byte_order \<Rightarrow> 16 word \<Rightarrow> bool \<Rightarrow> sockaddr_in" where
  "InetAddress_port ho port loopbackOnly =
     (let ip = if loopbackOnly then kInaddrLoopback else kInaddrAny in
      sockaddr_zero\<lparr>sin_family := AF_INET, sin_addr := hostToNetwork32 ho ip, sin_port := hostToNetwork16 ho port\<rparr>)"

definition InetAddress_ip :: "byte_order \<Rightarrow> string \<Rightarrow> 16 word \<Rightarrow> sockaddr_in" where
  "InetAddress_ip ho ip port = fromIpPort ho ip port sockaddr_zero"

definition InetAddress_toIpPort :: "byte_order \<Rightarrow> sockaddr_in \<Rightarrow> string res" where
  "InetAddress_toIpPort ho addr = toIpPort ho 32 addr"

definition InetAddress_toIp :: "byte_order \<Rightarrow> sockaddr_in \<Rightarrow> string res" where
  "InetAddress_toIp ho addr = toIp ho 32 addr"

definition ipNetEndian :: "sockaddr_in \<Rightarrow> 32 word" where
  "ipNetEndian addr = sin_addr addr"

definition portNetEndian :: "sockaddr_in \<Rightarrow> 16 word" where
  "portNetEndian addr = sin_port addr"

text \<open>\<^verbatim>\<open>resolve\<close>: \<^verbatim>\<open>gethostbyname_r\<close> gives its result and maybe an entry with its type, length and first
  address.\<close>

definition resolve :: "int \<times> (nat \<times> nat \<times> 32 word) option \<Rightarrow> sockaddr_in \<Rightarrow> (bool \<times> sockaddr_in) res" where
  "resolve reply out =
     (case reply of
        (ret, Some (h_addrtype, h_length, h_addr)) \<Rightarrow>
          if ret = 0 then
            bindR (assertR (h_addrtype = AF_INET \<and> h_length = 4) ''he->h_addrtype == AF_INET && he->h_length == sizeof(uint32_t)'') (\<lambda>_.
            Inr (True, out\<lparr>sin_addr := h_addr\<rparr>))
          else Inr (False, out)
      | (ret, None) \<Rightarrow> Inr (False, out))"

section \<open>Socket calls\<close>

definition createNonblockingOrDie :: "int \<Rightarrow> int res" where
  "createNonblockingOrDie sockfd = (if sockfd < 0 then Inl (Fatal ''sockets::createNonblockingOrDie'') else Inr sockfd)"

definition bindOrDie :: "int \<Rightarrow> unit res" where
  "bindOrDie ret = (if ret < 0 then Inl (Fatal ''sockets::bindOrDie'') else Inr ())"

definition listenOrDie :: "int \<Rightarrow> unit res" where
  "listenOrDie ret = (if ret < 0 then Inl (Fatal ''sockets::listenOrDie'') else Inr ())"

datatype errno = EAGAIN | ECONNABORTED | EINTR | EPROTO | EPERM | EMFILE
  | EBADF | EFAULT | EINVAL | ENOBUFS | ENOMEM | ENOTSOCK | EOPNOTSUPP
  | EINPROGRESS | EISCONN | EADDRINUSE | EADDRNOTAVAIL | ECONNREFUSED
  | EACCES | EAFNOSUPPORT | EALREADY | EOTHER int

text \<open>\<^verbatim>\<open>sockets::accept\<close>: the errors it survives keep errno for the caller; every other one ends the process.\<close>

definition accept :: "int \<times> errno \<Rightarrow> (int \<times> errno) res" where
  "accept reply =
     (case reply of (connfd, savedErrno) \<Rightarrow>
        if connfd < 0 then
          (case savedErrno of
             EAGAIN \<Rightarrow> Inr (connfd, savedErrno) | ECONNABORTED \<Rightarrow> Inr (connfd, savedErrno)
           | EINTR \<Rightarrow> Inr (connfd, savedErrno) | EPROTO \<Rightarrow> Inr (connfd, savedErrno)
           | EPERM \<Rightarrow> Inr (connfd, savedErrno) | EMFILE \<Rightarrow> Inr (connfd, savedErrno)
           | EBADF \<Rightarrow> Inl (Fatal ''unexpected error of ::accept'') | EFAULT \<Rightarrow> Inl (Fatal ''unexpected error of ::accept'')
           | EINVAL \<Rightarrow> Inl (Fatal ''unexpected error of ::accept'') | ENOBUFS \<Rightarrow> Inl (Fatal ''unexpected error of ::accept'')
           | ENOMEM \<Rightarrow> Inl (Fatal ''unexpected error of ::accept'') | ENOTSOCK \<Rightarrow> Inl (Fatal ''unexpected error of ::accept'')
           | EOPNOTSUPP \<Rightarrow> Inl (Fatal ''unexpected error of ::accept'')
           | _ \<Rightarrow> Inl (Fatal ''unknown error of ::accept''))
        else Inr (connfd, savedErrno))"

definition getSocketError :: "int \<times> int \<times> int \<Rightarrow> int" where
  "getSocketError reply = (case reply of (ret, optval, errno) \<Rightarrow> if ret < 0 then errno else optval)"

definition getLocalAddr :: "int \<times> sockaddr_in \<Rightarrow> sockaddr_in" where
  "getLocalAddr reply = (case reply of (ret, addr) \<Rightarrow> if ret \<noteq> 0 then sockaddr_zero else addr)"

definition getPeerAddr :: "int \<times> sockaddr_in \<Rightarrow> sockaddr_in" where
  "getPeerAddr reply = (case reply of (ret, addr) \<Rightarrow> if ret < 0 then sockaddr_zero else addr)"

definition isSelfConnect :: "int \<times> sockaddr_in \<Rightarrow> int \<times> sockaddr_in \<Rightarrow> bool" where
  "isSelfConnect sockname peername \<longleftrightarrow>
     (let localaddr = getLocalAddr sockname; peeraddr = getPeerAddr peername in
      sin_port localaddr = sin_port peeraddr \<and> sin_addr localaddr = sin_addr peeraddr)"

section \<open>Socket\<close>

record Socket =
  so_fd :: int
  so_open :: bool
  so_shut_wr :: bool
  so_nodelay :: bool
  so_reuseaddr :: bool
  so_reuseport :: bool
  so_keepalive :: bool
  so_bound :: "sockaddr_in option"
  so_listening :: bool

definition Socket_new :: "int \<Rightarrow> Socket" where
  "Socket_new fd = \<lparr>so_fd = fd, so_open = True, so_shut_wr = False, so_nodelay = False, so_reuseaddr = False,
     so_reuseport = False, so_keepalive = False, so_bound = None, so_listening = False\<rparr>"

definition Socket_dtor :: "Socket \<Rightarrow> Socket" where
  "Socket_dtor s = s\<lparr>so_open := False\<rparr>"

definition bindAddress :: "int \<Rightarrow> sockaddr_in \<Rightarrow> Socket \<Rightarrow> Socket res" where
  "bindAddress ret addr s = bindR (bindOrDie ret) (\<lambda>_. Inr (s\<lparr>so_bound := Some addr\<rparr>))"

definition Socket_listen :: "int \<Rightarrow> Socket \<Rightarrow> Socket res" where
  "Socket_listen ret s = bindR (listenOrDie ret) (\<lambda>_. Inr (s\<lparr>so_listening := True\<rparr>))"

text \<open>\<^verbatim>\<open>Socket::accept\<close>: the peer's address is assigned when a connection was accepted.\<close>

definition Socket_accept :: "int \<times> errno \<times> sockaddr_in \<Rightarrow> sockaddr_in \<Rightarrow> (int \<times> errno \<times> sockaddr_in) res" where
  "Socket_accept reply peeraddr =
     (case reply of (connfd, e, addr) \<Rightarrow>
        bindR (accept (connfd, e)) (\<lambda>(connfd, e). Inr (connfd, e, if connfd \<ge> 0 then addr else peeraddr)))"

definition Socket_shutdownWrite :: "Socket \<Rightarrow> Socket" where
  "Socket_shutdownWrite s = s\<lparr>so_shut_wr := True\<rparr>"

definition Socket_setTcpNoDelay :: "bool \<Rightarrow> Socket \<Rightarrow> Socket" where
  "Socket_setTcpNoDelay on s = s\<lparr>so_nodelay := on\<rparr>"

definition setReuseAddr :: "bool \<Rightarrow> Socket \<Rightarrow> Socket" where
  "setReuseAddr on s = s\<lparr>so_reuseaddr := on\<rparr>"

definition setReusePort :: "int \<Rightarrow> bool \<Rightarrow> Socket \<Rightarrow> Socket" where
  "setReusePort ret on s = (if ret < 0 then s else s\<lparr>so_reuseport := on\<rparr>)"

definition setKeepAlive :: "bool \<Rightarrow> Socket \<Rightarrow> Socket" where
  "setKeepAlive on s = s\<lparr>so_keepalive := on\<rparr>"

section \<open>Text of an address\<close>

lemma splits_nonempty [simp]: "splits c s \<noteq> []"
  by (cases s) simp_all

lemma splits_plain: "c \<notin> set s \<Longrightarrow> splits c s = [s]"
  by (induction s) auto

lemma splits_append: "c \<notin> set s \<Longrightarrow> splits c (s @ c # t) = s # splits c t"
  by (induction s) auto

lemma splits_join: "ss \<noteq> [] \<Longrightarrow> (\<And>s. s \<in> set ss \<Longrightarrow> c \<notin> set s) \<Longrightarrow> splits c (join c ss) = ss"
  by (induction c ss rule: join.induct) (simp_all add: splits_plain splits_append)

lemma hd_show_nat: "hd (show_nat n) = CHR ''0'' \<Longrightarrow> n = 0"
proof (induction n rule: show_nat.induct)
  case (1 n)
  show ?case
  proof (cases "n < 10")
    case True
    have z: "char_of (48 + n) = CHR ''0''" using 1(2) True by (simp add: show_nat.simps)
    have "(of_char (char_of (48 + n :: nat) :: char) :: nat) = 48 + n" using True by (rule of_char_digit)
    then show ?thesis unfolding z by simp
  next
    case False
    then have "hd (show_nat n) = hd (show_nat (n div 10))" by (subst show_nat.simps) simp
    then have "n div 10 = 0" using 1 False by metis
    then show ?thesis using False by (metis div_eq_0_iff zero_neq_numeral)
  qed
qed

lemma show_nat_no_dot: "CHR ''.'' \<notin> set (show_nat n)"
  using set_show_nat [of "CHR ''.''" n] by (auto simp: is_digit_def)

lemma octet_ok_show: "octet_ok (show_nat (unat (b :: byte)))"
proof -
  have u: "unat b < 256" using unsigned_less [of b, where ?'a = nat] by simp
  have "length (show_nat (unat b)) \<le> 3" using u by (intro length_show_nat_le) simp_all
  moreover have "hd (show_nat (unat b)) = CHR ''0'' \<Longrightarrow> length (show_nat (unat b)) = 1"
    using hd_show_nat by (fastforce simp: show_nat.simps)
  ultimately show ?thesis using u set_show_nat by (auto simp: octet_ok_def list_all_iff)
qed

lemma inet_pton_ntop: "inet_pton ho (inet_ntop ho a) = Some a"
proof -
  let ?bs = "mem_of ho 4 a"
  have "?bs \<noteq> []" by (metis length_mem_of list.size(3) zero_neq_numeral)
  then have s: "splits (CHR ''.'') (inet_ntop ho a) = map (\<lambda>b. show_nat (unat b)) ?bs"
    unfolding inet_ntop_def by (intro splits_join) (auto simp: show_nat_no_dot)
  have "of_mem ho ?bs = a" by (cases ho) (simp_all add: of_mem_def mem_of_def of_le_le_bytes_full of_be_be_bytes)
  then show ?thesis unfolding inet_pton_def s by (simp add: Let_def octet_ok_show list_all_iff comp_def)
qed

lemma length_inet_ntop: "length (inet_ntop ho a) \<le> 15"
proof -
  have "length (mem_of ho 4 a) = Suc (Suc (Suc (Suc 0)))" by simp
  then obtain b0 b1 b2 b3 where b: "mem_of ho 4 a = [b0, b1, b2, b3]" unfolding length_Suc_conv by auto
  have "length (show_nat (unat b)) \<le> 3" for b :: byte
    using octet_ok_show [of b] by (simp add: octet_ok_def)
  from this [of b0] this [of b1] this [of b2] this [of b3] show ?thesis by (simp add: inet_ntop_def b)
qed

text \<open>No address is cut off by the buffers of the code.\<close>

lemma toIpPort_text:
  "InetAddress_toIpPort ho addr = Inr (inet_ntop ho (sin_addr addr) @ '':'' @ show_nat (unat (networkToHost16 ho (sin_port addr))))"
proof -
  let ?p = "networkToHost16 ho (sin_port addr)"
  have "unat ?p < 10 ^ 5" using unsigned_less [of ?p, where ?'a = nat] by simp
  then have "length (show_nat (unat ?p)) \<le> 5" by (intro length_show_nat_le) simp_all
  then have "length (inet_ntop ho (sin_addr addr) @ '':'' @ show_nat (unat ?p)) \<le> 31"
    using length_inet_ntop [of ho "sin_addr addr"] by simp
  then show ?thesis by (simp add: InetAddress_toIpPort_def toIpPort_def toIp_def INET_ADDRSTRLEN_def Let_def snprintf_buf_def)
qed

section \<open>Properties\<close>

text \<open>C29: An address survives its text. The address made from what \<^verbatim>\<open>toIp()\<close> prints and from the port is the
  address printed, \<^verbatim>\<open>toIpPort()\<close> prints that text, a colon and the port, whatever the byte order of the host,
  and no buffer cuts it off.\<close>

theorem inet_address_roundtrip:
  "let addr = \<lparr>sin_family = AF_INET, sin_port = hostToNetwork16 ho port, sin_addr = a\<rparr> in
   \<exists>ip. InetAddress_toIp ho addr = Inr ip \<and> InetAddress_ip ho ip port = addr \<and>
     InetAddress_toIpPort ho addr = Inr (ip @ '':'' @ show_nat (unat port)) \<and> length ip \<le> 15"
proof -
  let ?addr = "\<lparr>sin_family = AF_INET, sin_port = hostToNetwork16 ho port, sin_addr = a\<rparr>"
  have "InetAddress_toIp ho ?addr = Inr (inet_ntop ho a)"
    by (simp add: InetAddress_toIp_def toIp_def INET_ADDRSTRLEN_def)
  moreover have "InetAddress_ip ho (inet_ntop ho a) port = ?addr"
    by (simp add: InetAddress_ip_def fromIpPort_def inet_pton_ntop Let_def sockaddr_zero_def)
  moreover have "InetAddress_toIpPort ho ?addr = Inr (inet_ntop ho a @ '':'' @ show_nat (unat port))"
    using toIpPort_text [of ho ?addr] by (simp add: networkToHost_inverse)
  ultimately show ?thesis using length_inet_ntop [of ho a] by (simp add: Let_def)
qed

end
