(* ===== verification/Connector.thy ===== *)
theory Connector
  imports Sockets EventLoop "HOL-Library.Multiset"
begin

text \<open>
  \<^verbatim>\<open>Connector\<close> (\<^verbatim>\<open>src/net/Connector.h\<close>, \<^verbatim>\<open>src/net/Connector.cc\<close>) in its loop thread: the state machine of a
  non-blocking connect with its channel on the loop (theory \<open>PollPoller\<close>) and its retry timer. What the
  kernel answers to \<^verbatim>\<open>socket\<close>, \<^verbatim>\<open>connect\<close> and the queries of the socket is an argument, and so is the address \<open>c\<close> at
  which a new channel is allocated. \<open>co_queue\<close> holds the functors the code queues on the loop and
  \<open>co_timers\<close> the delays of the \<^verbatim>\<open>startInLoop\<close> timers that are pending. \<open>co_created\<close>, \<open>co_closed\<close> and \<open>co_handed\<close>
  record what becomes of the descriptors.
\<close>

section \<open>State\<close>

datatype States = CkDisconnected | CkConnecting | CkConnected

datatype co_task = CStopInLoop | CResetChannel

record Connector =
  co_serverAddr :: sockaddr_in
  co_connect :: bool
  co_state :: States
  co_channel :: "chan option"
  co_retryDelayMs :: int
  co_rx :: Reactor
  co_queue :: "co_task list"
  co_timers :: "int list"
  co_created :: "int list"
  co_closed :: "int list"
  co_handed :: "int list"

definition kMaxRetryDelayMs :: int where "kMaxRetryDelayMs = 30 * 1000"
definition kInitRetryDelayMs :: int where "kInitRetryDelayMs = 500"

definition Connector_new :: "Reactor \<Rightarrow> sockaddr_in \<Rightarrow> Connector" where
  "Connector_new rx serverAddr =
     \<lparr>co_serverAddr = serverAddr, co_connect = False, co_state = CkDisconnected, co_channel = None,
      co_retryDelayMs = kInitRetryDelayMs, co_rx = rx, co_queue = [], co_timers = [],
      co_created = [], co_closed = [], co_handed = []\<rparr>"

definition Connector_dtor :: "Connector \<Rightarrow> unit res" where
  "Connector_dtor s = assertR (co_channel s = None) ''!channel_''"

section \<open>Operations\<close>

definition close_fd :: "int \<Rightarrow> Connector \<Rightarrow> Connector" where
  "close_fd sockfd s = s\<lparr>co_closed := co_closed s @ [sockfd]\<rparr>"

definition retry :: "int \<Rightarrow> Connector \<Rightarrow> Connector" where
  "retry sockfd s =
     (let s1 = (close_fd sockfd s)\<lparr>co_state := CkDisconnected\<rparr> in
      if co_connect s1 then
        s1\<lparr>co_timers := co_timers s1 @ [co_retryDelayMs s1],
           co_retryDelayMs := min (co_retryDelayMs s1 * 2) kMaxRetryDelayMs\<rparr>
      else s1)"

definition connecting :: "chan \<Rightarrow> int \<Rightarrow> Connector \<Rightarrow> Connector res" where
  "connecting c sockfd s =
     (let s1 = s\<lparr>co_state := CkConnecting\<rparr> in
      bindR (assertR (co_channel s1 = None) ''!channel_'') (\<lambda>_.
      let rx = (co_rx s1)\<lparr>heap := (heap (co_rx s1))(c := Channel_new (rx_loop (co_rx s1)) sockfd)\<rparr> in
      bindR (Channel_mask EnableWriting c rx) (\<lambda>rx. Inr (s1\<lparr>co_channel := Some c, co_rx := rx\<rparr>))))"

text \<open>The outcomes of \<^verbatim>\<open>connect(2)\<close>: \<open>None\<close> is success.\<close>

fun connect_proceeds :: "errno option \<Rightarrow> bool" where
  "connect_proceeds None \<longleftrightarrow> True"
| "connect_proceeds (Some EINPROGRESS) \<longleftrightarrow> True"
| "connect_proceeds (Some EINTR) \<longleftrightarrow> True"
| "connect_proceeds (Some EISCONN) \<longleftrightarrow> True"
| "connect_proceeds _ \<longleftrightarrow> False"

fun connect_retries :: "errno option \<Rightarrow> bool" where
  "connect_retries (Some EAGAIN) \<longleftrightarrow> True"
| "connect_retries (Some EADDRINUSE) \<longleftrightarrow> True"
| "connect_retries (Some EADDRNOTAVAIL) \<longleftrightarrow> True"
| "connect_retries (Some ECONNREFUSED) \<longleftrightarrow> True"
| "connect_retries _ \<longleftrightarrow> False"

definition connect :: "chan \<Rightarrow> int \<Rightarrow> errno option \<Rightarrow> Connector \<Rightarrow> Connector res" where
  "connect c sock savedErrno s =
     bindR (createNonblockingOrDie sock) (\<lambda>sockfd.
     let s1 = s\<lparr>co_created := co_created s @ [sockfd]\<rparr> in
     if connect_proceeds savedErrno then connecting c sockfd s1
     else if connect_retries savedErrno then Inr (retry sockfd s1)
     else Inr (close_fd sockfd s1))"

definition startInLoop :: "chan \<Rightarrow> int \<Rightarrow> errno option \<Rightarrow> Connector \<Rightarrow> Connector res" where
  "startInLoop c sock savedErrno s =
     bindR (assertInLoopThread (co_rx s)) (\<lambda>_.
     bindR (assertR (co_state s = CkDisconnected) ''state_ == kDisconnected'') (\<lambda>_.
     if co_connect s then connect c sock savedErrno s else Inr s))"

definition Connector_start :: "chan \<Rightarrow> int \<Rightarrow> errno option \<Rightarrow> Connector \<Rightarrow> Connector res" where
  "Connector_start c sock savedErrno s = startInLoop c sock savedErrno (s\<lparr>co_connect := True\<rparr>)"

definition restart :: "chan \<Rightarrow> int \<Rightarrow> errno option \<Rightarrow> Connector \<Rightarrow> Connector res" where
  "restart c sock savedErrno s =
     bindR (assertInLoopThread (co_rx s)) (\<lambda>_.
     startInLoop c sock savedErrno (s\<lparr>co_state := CkDisconnected, co_retryDelayMs := kInitRetryDelayMs, co_connect := True\<rparr>))"

definition Connector_stop :: "Connector \<Rightarrow> Connector" where
  "Connector_stop s = s\<lparr>co_connect := False, co_queue := co_queue s @ [CStopInLoop]\<rparr>"

text \<open>The descriptor of the channel that is taken off the loop; the channel itself goes later,
  because this may run inside its \<^verbatim>\<open>handleEvent\<close>.\<close>

definition removeAndResetChannel :: "Connector \<Rightarrow> (int \<times> Connector) res" where
  "removeAndResetChannel s =
     (case co_channel s of None \<Rightarrow> Inl OutOfBounds
      | Some c \<Rightarrow>
          bindR (Channel_mask DisableAll c (co_rx s)) (\<lambda>rx.
          bindR (Channel_remove c rx) (\<lambda>rx.
          Inr (ch_fd (heap rx c), s\<lparr>co_rx := rx, co_queue := co_queue s @ [CResetChannel]\<rparr>))))"

definition resetChannel :: "Connector \<Rightarrow> Connector res" where
  "resetChannel s =
     (case co_channel s of None \<Rightarrow> Inr s
      | Some c \<Rightarrow> bindR (Channel_destroy (heap (co_rx s) c)) (\<lambda>_. Inr (s\<lparr>co_channel := None\<rparr>)))"

definition stopInLoop :: "Connector \<Rightarrow> Connector res" where
  "stopInLoop s =
     bindR (assertInLoopThread (co_rx s)) (\<lambda>_.
     if co_state s = CkConnecting then
       bindR (removeAndResetChannel (s\<lparr>co_state := CkDisconnected\<rparr>)) (\<lambda>(sockfd, s1). Inr (retry sockfd s1))
     else Inr s)"

text \<open>\<^verbatim>\<open>handleWrite\<close> with the answers of \<^verbatim>\<open>getSocketError\<close> and \<^verbatim>\<open>isSelfConnect\<close>.\<close>

definition Connector_handleWrite :: "int \<Rightarrow> bool \<Rightarrow> Connector \<Rightarrow> Connector res" where
  "Connector_handleWrite err selfConnect s =
     (if co_state s = CkConnecting then
        bindR (removeAndResetChannel s) (\<lambda>(sockfd, s1).
        if err \<noteq> 0 then Inr (retry sockfd s1)
        else if selfConnect then Inr (retry sockfd s1)
        else let s2 = s1\<lparr>co_state := CkConnected\<rparr> in
             if co_connect s2 then Inr (s2\<lparr>co_handed := co_handed s2 @ [sockfd]\<rparr>) else Inr (close_fd sockfd s2))
      else bindR (assertR (co_state s = CkDisconnected) ''state_ == kDisconnected'') (\<lambda>_. Inr s))"

definition Connector_handleError :: "Connector \<Rightarrow> Connector res" where
  "Connector_handleError s =
     (if co_state s = CkConnecting
      then bindR (removeAndResetChannel s) (\<lambda>(sockfd, s1). Inr (retry sockfd s1)) else Inr s)"

section \<open>Steps\<close>

text \<open>One step of the loop thread, as far as it returns. A new channel is at an address nobody uses,
  with a descriptor that is not registered; the rest of the loop may change the reactor but not
  the channel of a connect in progress.\<close>

definition new_channel_ok :: "chan \<Rightarrow> int \<Rightarrow> Connector \<Rightarrow> bool" where
  "new_channel_ok c sock s \<longleftrightarrow>
     (let rx = (co_rx s)\<lparr>heap := (heap (co_rx s))(c := Channel_new (rx_loop (co_rx s)) sock)\<rparr> in
      0 \<le> sock \<longrightarrow> poller_inv rx \<and> fresh rx c \<and> on_loop rx c \<and> c \<notin> set (rx_active rx))"

inductive co_step :: "Connector \<Rightarrow> Connector \<Rightarrow> bool" where
  co_start: "new_channel_ok c sock s \<Longrightarrow> Connector_start c sock e s = Inr s' \<Longrightarrow> co_step s s'"
| co_restart: "co_state s \<noteq> CkConnecting \<Longrightarrow> new_channel_ok c sock s \<Longrightarrow> restart c sock e s = Inr s' \<Longrightarrow> co_step s s'"
| co_stop: "co_step s (Connector_stop s)"
| co_timer: "co_timers s = d # ds \<Longrightarrow> new_channel_ok c sock s \<Longrightarrow>
    startInLoop c sock e (s\<lparr>co_timers := ds\<rparr>) = Inr s' \<Longrightarrow> co_step s s'"
| co_run_stop: "co_queue s = CStopInLoop # q \<Longrightarrow> stopInLoop (s\<lparr>co_queue := q\<rparr>) = Inr s' \<Longrightarrow> co_step s s'"
| co_run_reset: "co_queue s = CResetChannel # q \<Longrightarrow> resetChannel (s\<lparr>co_queue := q\<rparr>) = Inr s' \<Longrightarrow> co_step s s'"
| co_write: "co_channel s \<noteq> None \<Longrightarrow> Connector_handleWrite err self s = Inr s' \<Longrightarrow> co_step s s'"
| co_error: "co_channel s \<noteq> None \<Longrightarrow> Connector_handleError s = Inr s' \<Longrightarrow> co_step s s'"
| co_others: "poller_inv rx \<Longrightarrow>
    (\<And>c. co_state s = CkConnecting \<Longrightarrow> co_channel s = Some c \<Longrightarrow> rx_ready rx c \<and> ch_fd (heap rx c) = ch_fd (heap (co_rx s) c)) \<Longrightarrow>
    co_step s (s\<lparr>co_rx := rx\<rparr>)"

section \<open>Invariant\<close>

definition in_progress :: "Connector \<Rightarrow> int list" where
  "in_progress s =
     (if co_state s = CkConnecting then (case co_channel s of None \<Rightarrow> [] | Some c \<Rightarrow> [ch_fd (heap (co_rx s) c)]) else [])"

definition backoff :: "nat \<Rightarrow> int" where
  "backoff n = min (500 * 2 ^ n) 30000"

text \<open>At most one reset of the channel is pending, and until it has run the channel is there and no
  connect is in progress.\<close>

definition reset_ok :: "Connector \<Rightarrow> bool" where
  "reset_ok s \<longleftrightarrow> count_list (co_queue s) CResetChannel \<le> 1 \<and>
     (CResetChannel \<in> set (co_queue s) \<longrightarrow> co_channel s \<noteq> None \<and> co_state s \<noteq> CkConnecting)"

definition co_inv :: "Connector \<Rightarrow> bool" where
  "co_inv s \<longleftrightarrow> poller_inv (co_rx s) \<and>
     (co_state s = CkConnecting \<longrightarrow> (\<exists>c. co_channel s = Some c \<and> rx_ready (co_rx s) c)) \<and>
     mset (co_created s) = mset (co_closed s) + mset (co_handed s) + mset (in_progress s) \<and>
     co_retryDelayMs s \<in> range backoff \<and> set (co_timers s) \<subseteq> range backoff \<and> reset_ok s"

lemma co_frame [simp]:
  "in_progress (s\<lparr>co_connect := b\<rparr>) = in_progress s" "new_channel_ok c sock (s\<lparr>co_connect := b\<rparr>) = new_channel_ok c sock s"
  "in_progress (s\<lparr>co_timers := ts\<rparr>) = in_progress s" "new_channel_ok c sock (s\<lparr>co_timers := ts\<rparr>) = new_channel_ok c sock s"
  "in_progress (s\<lparr>co_queue := q\<rparr>) = in_progress s"
  "new_channel_ok c sock (s\<lparr>co_state := x, co_retryDelayMs := r\<rparr>) = new_channel_ok c sock s"
  by (simp_all add: in_progress_def new_channel_ok_def Let_def split: option.split)

lemma backoff_0: "backoff 0 = kInitRetryDelayMs"
  by (simp add: backoff_def kInitRetryDelayMs_def)

lemma backoff_Suc: "backoff (Suc n) = min (backoff n * 2) kMaxRetryDelayMs"
  by (simp add: backoff_def kMaxRetryDelayMs_def min_def)

lemma backoff_bounds: "500 \<le> backoff n \<and> backoff n \<le> 30000"
  by (simp add: backoff_def)

lemma retry_inv:
  assumes "poller_inv (co_rx s)" "mset (co_created s) = mset (co_closed s) + mset (co_handed s) + {#fd#}"
    "co_retryDelayMs s \<in> range backoff" "set (co_timers s) \<subseteq> range backoff" "reset_ok (s\<lparr>co_state := CkDisconnected\<rparr>)"
  shows "co_inv (retry fd s)"
proof -
  obtain k where k: "co_retryDelayMs s = backoff k" using assms(3) by blast
  have "min (co_retryDelayMs s * 2) kMaxRetryDelayMs \<in> range backoff"
    unfolding k backoff_Suc [symmetric] by simp
  then show ?thesis using assms by (simp add: co_inv_def retry_def close_fd_def Let_def in_progress_def reset_ok_def)
qed

lemma connecting_ok:
  assumes n: "new_channel_ok c fd s" "0 \<le> fd" and ch: "co_channel s = None"
  obtains rx where "connecting c fd s = Inr (s\<lparr>co_state := CkConnecting, co_channel := Some c, co_rx := rx\<rparr>)"
    "poller_inv rx" "rx_ready rx c" "ch_fd (heap rx c) = fd"
proof -
  define rx0 where "rx0 = (co_rx s)\<lparr>heap := (heap (co_rx s))(c := Channel_new (rx_loop (co_rx s)) fd)\<rparr>"
  have rx0: "poller_inv rx0" "fresh rx0 c" "on_loop rx0 c" "c \<notin> set (rx_active rx0)"
    using n unfolding new_channel_ok_def Let_def rx0_def by simp_all
  obtain rx where rx: "Channel_mask EnableWriting c rx0 = Inr rx" "poller_inv rx" "registered rx c" "on_loop rx c"
    "ch_fd (heap rx c) = ch_fd (heap rx0 c)" "PollPoller.PollPoller.more rx = PollPoller.PollPoller.more rx0"
    using Channel_mask_fresh [OF rx0(1,3,2), of EnableWriting] by blast
  show ?thesis
  proof (rule that [of rx])
    show "connecting c fd s = Inr (s\<lparr>co_state := CkConnecting, co_channel := Some c, co_rx := rx\<rparr>)"
      using rx(1) ch by (simp add: connecting_def Let_def rx0_def)
    show "rx_ready rx c" using rx(3,4) rx0(4) reactor_fields [OF rx(6)] by (simp add: rx_ready_def)
    show "ch_fd (heap rx c) = fd" using rx(5) by (simp add: rx0_def Channel_new_def)
  qed (rule rx(2))
qed

lemma connecting_inv:
  assumes i: "co_inv s" "co_state s \<noteq> CkConnecting" and n: "new_channel_ok c fd s" "0 \<le> fd"
    and r: "connecting c fd (s\<lparr>co_created := co_created s @ [fd]\<rparr>) = Inr s'"
  shows "co_inv s'"
proof -
  let ?s = "s\<lparr>co_created := co_created s @ [fd]\<rparr>"
  have ch: "co_channel ?s = None" using r by (auto simp: connecting_def Let_def split: if_splits)
  have n': "new_channel_ok c fd ?s" using n(1) by (simp add: new_channel_ok_def Let_def)
  obtain rx where rx: "connecting c fd ?s = Inr (?s\<lparr>co_state := CkConnecting, co_channel := Some c, co_rx := rx\<rparr>)"
    "poller_inv rx" "rx_ready rx c" "ch_fd (heap rx c) = fd"
    by (rule connecting_ok [OF n' n(2) ch])
  then have "s' = ?s\<lparr>co_state := CkConnecting, co_channel := Some c, co_rx := rx\<rparr>" using r by simp
  then show ?thesis using i rx ch by (auto simp: co_inv_def in_progress_def reset_ok_def)
qed

lemma startInLoop_inv:
  assumes i: "co_inv s" and n: "new_channel_ok c sock s" and r: "startInLoop c sock e s = Inr s'"
  shows "co_inv s'"
proof (cases "co_connect s")
  case False
  then show ?thesis using i r by (auto simp: startInLoop_def bindR_eq_Inr split: if_splits)
next
  case True
  have st: "co_state s = CkDisconnected" and cn: "connect c sock e s = Inr s'"
    using r True by (auto simp: startInLoop_def bindR_eq_Inr split: if_splits)
  have pos: "0 \<le> sock" using cn by (auto simp: connect_def createNonblockingOrDie_def split: if_splits)
  let ?s1 = "s\<lparr>co_created := co_created s @ [sock]\<rparr>"
  have body: "(if connect_proceeds e then connecting c sock ?s1 else if connect_retries e then Inr (retry sock ?s1)
      else Inr (close_fd sock ?s1)) = Inr s'"
    using cn pos by (simp add: connect_def createNonblockingOrDie_def Let_def)
  consider "connect_proceeds e" | "\<not> connect_proceeds e" "connect_retries e" | "\<not> connect_proceeds e" "\<not> connect_retries e"
    by blast
  then show ?thesis
  proof cases
    case 1
    with body show ?thesis using connecting_inv [OF i _ n pos] st by simp
  next
    case 2
    then have s': "s' = retry sock ?s1" using body by simp
    show ?thesis unfolding s' by (rule retry_inv) (use i st in \<open>simp_all add: co_inv_def in_progress_def reset_ok_def\<close>)
  next
    case 3
    then have s': "s' = close_fd sock ?s1" using body by simp
    show ?thesis unfolding s' using i st by (simp add: co_inv_def in_progress_def close_fd_def reset_ok_def)
  qed
qed

text \<open>Taking the channel off the loop leaves the descriptor without an owner.\<close>

lemma removeAndResetChannel_inv:
  assumes i: "co_inv s" "co_state s = CkConnecting" and r: "removeAndResetChannel (s\<lparr>co_state := x\<rparr>) = Inr (fd, s1)"
  shows "poller_inv (co_rx s1) \<and> mset (co_created s1) = mset (co_closed s1) + mset (co_handed s1) + {#fd#} \<and>
     co_retryDelayMs s1 = co_retryDelayMs s \<and> co_timers s1 = co_timers s \<and> co_state s1 = x \<and> co_connect s1 = co_connect s \<and>
     co_queue s1 = co_queue s @ [CResetChannel] \<and> CResetChannel \<notin> set (co_queue s) \<and> co_channel s1 \<noteq> None"
proof -
  obtain c where c: "co_channel s = Some c" "rx_ready (co_rx s) c" and p: "poller_inv (co_rx s)"
    using i by (auto simp: co_inv_def)
  obtain rx where rx: "Channel_mask DisableAll c (co_rx s) = Inr rx" "poller_inv rx" "rx_ready rx c" "heap rx = heap (masked DisableAll c (co_rx s))"
    by (rule rx_mask_ready [OF p c(2), of DisableAll])
  have idle: "isNoneEvent (heap rx c)" "pfd_fd (entry_of rx c) < 0"
    using rx_disableAll_idle [OF p c(2) rx(1)] by (simp_all add: rx_idle_def)
  have cond: "registered rx c" "on_loop rx c" "rx_eventHandling rx \<longrightarrow> rx_current rx = Some c \<or> c \<notin> set (rx_active rx)"
    using rx(3) by (simp_all add: rx_ready_def)
  obtain rx' where rx': "Channel_remove c rx = Inr rx'" "poller_inv rx'" "\<exists>k. heap rx' c = (heap rx c)\<lparr>ch_index := k\<rparr>"
    using Channel_remove_ok [OF rx(2) cond(2,1) idle cond(3)] by blast
  then have "ch_fd (heap rx' c) = ch_fd (heap (co_rx s) c)" using rx(4) by auto
  with r c(1) rx(1) rx'(1,2) i show ?thesis
    by (auto simp: removeAndResetChannel_def co_inv_def in_progress_def reset_ok_def)
qed

lemma one_reset: "CResetChannel \<notin> set q \<Longrightarrow> count_list (q @ [CResetChannel]) CResetChannel \<le> 1"
  by (simp add: count_list_0_iff)

lemma retry_after_remove:
  assumes "co_inv s" "co_state s = CkConnecting" "removeAndResetChannel (s\<lparr>co_state := x\<rparr>) = Inr (fd, s1)"
  shows "co_inv (retry fd s1)"
proof -
  note R = removeAndResetChannel_inv [OF assms]
  show ?thesis
    by (rule retry_inv) (use R one_reset [of "co_queue s"] assms(1) in \<open>simp_all add: co_inv_def reset_ok_def\<close>)
qed

lemma handleWrite_inv:
  assumes i: "co_inv s" and r: "Connector_handleWrite err self s = Inr s'"
  shows "co_inv s'"
proof (cases "co_state s = CkConnecting")
  case False
  then show ?thesis using i r by (auto simp: Connector_handleWrite_def bindR_eq_Inr split: if_splits)
next
  case True
  have upd: "s\<lparr>co_state := CkConnecting\<rparr> = s" using True by simp
  obtain fd s1 where rm: "removeAndResetChannel s = Inr (fd, s1)"
    using r True by (auto simp: Connector_handleWrite_def bindR_eq_Inr split: if_splits)
  note R = removeAndResetChannel_inv [OF i True, of CkConnecting fd s1, unfolded upd, OF rm]
  show ?thesis
  proof (cases "err \<noteq> 0 \<or> self")
    case bad: True
    then have "s' = retry fd s1" using r True rm by (auto simp: Connector_handleWrite_def split: if_splits)
    then show ?thesis using retry_after_remove [OF i True, of CkConnecting fd s1, unfolded upd, OF rm] by simp
  next
    case good: False
    then have "s' = (if co_connect s1 then s1\<lparr>co_state := CkConnected, co_handed := co_handed s1 @ [fd]\<rparr>
        else close_fd fd (s1\<lparr>co_state := CkConnected\<rparr>))"
      using r True rm by (auto simp: Connector_handleWrite_def Let_def split: if_splits)
    then show ?thesis using R i one_reset [of "co_queue s"] by (simp add: co_inv_def in_progress_def close_fd_def reset_ok_def)
  qed
qed

lemma co_inv_step: "co_step s s' \<Longrightarrow> co_inv s \<Longrightarrow> co_inv s'"
proof (induction rule: co_step.induct)
  case (co_start c sock s e s')
  have "co_inv (s\<lparr>co_connect := True\<rparr>)" "new_channel_ok c sock (s\<lparr>co_connect := True\<rparr>)"
    using co_start by (simp_all add: co_inv_def reset_ok_def)
  then show ?case using startInLoop_inv co_start(2) by (simp add: Connector_start_def)
next
  case (co_restart s c sock e s')
  let ?s = "s\<lparr>co_state := CkDisconnected, co_retryDelayMs := kInitRetryDelayMs, co_connect := True\<rparr>"
  have "kInitRetryDelayMs \<in> range backoff" by (simp flip: backoff_0)
  then have "co_inv ?s" "new_channel_ok c sock ?s"
    using co_restart by (simp_all add: co_inv_def reset_ok_def in_progress_def)
  then show ?case using startInLoop_inv co_restart(3) by (auto simp: restart_def bindR_eq_Inr split: if_splits)
next
  case (co_stop s)
  then show ?case by (simp add: Connector_stop_def co_inv_def reset_ok_def in_progress_def split: option.split)
next
  case (co_timer s d ds c sock e s')
  have "co_inv (s\<lparr>co_timers := ds\<rparr>)" "new_channel_ok c sock (s\<lparr>co_timers := ds\<rparr>)"
    using co_timer by (simp_all add: co_inv_def reset_ok_def)
  then show ?case using startInLoop_inv co_timer(3) by blast
next
  case (co_run_stop s q s')
  let ?s = "s\<lparr>co_queue := q\<rparr>"
  have i: "co_inv ?s" using co_run_stop(1,3) by (simp add: co_inv_def reset_ok_def)
  show ?case
  proof (cases "co_state ?s = CkConnecting")
    case True
    then obtain fd s1 where "removeAndResetChannel (?s\<lparr>co_state := CkDisconnected\<rparr>) = Inr (fd, s1)" "s' = retry fd s1"
      using co_run_stop(2) by (auto simp: stopInLoop_def bindR_eq_Inr split: if_splits)
    then show ?thesis using retry_after_remove [OF i True] by blast
  next
    case False
    then show ?thesis using i co_run_stop(2) by (auto simp: stopInLoop_def bindR_eq_Inr split: if_splits)
  qed
next
  case (co_run_reset s q s')
  then have "co_state s \<noteq> CkConnecting" "CResetChannel \<notin> set q" "s' = s\<lparr>co_queue := q, co_channel := None\<rparr>"
    by (auto simp: co_inv_def reset_ok_def resetChannel_def bindR_eq_Inr count_list_0_iff split: option.splits)
  with co_run_reset(3) show ?case by (simp add: co_inv_def in_progress_def reset_ok_def count_list_0_iff)
next
  case (co_write s err self s')
  then show ?case using handleWrite_inv by blast
next
  case (co_error s s')
  show ?case
  proof (cases "co_state s = CkConnecting")
    case True
    then have upd: "s\<lparr>co_state := CkConnecting\<rparr> = s" by simp
    obtain fd s1 where "removeAndResetChannel s = Inr (fd, s1)" "s' = retry fd s1"
      using co_error(2) True by (auto simp: Connector_handleError_def bindR_eq_Inr split: if_splits)
    then show ?thesis using retry_after_remove [OF co_error(3) True, of CkConnecting fd s1] upd by simp
  next
    case False
    then show ?thesis using co_error by (simp add: Connector_handleError_def)
  qed
next
  case (co_others rx s)
  then show ?case by (auto simp: co_inv_def in_progress_def reset_ok_def)
qed

interpretation connector: transition_system "\<lambda>s. \<exists>rx addr. poller_inv rx \<and> s = Connector_new rx addr" co_step co_inv
proof
  fix s
  assume "\<exists>rx addr. poller_inv rx \<and> s = Connector_new rx addr"
  then show "co_inv s"
    by (auto simp: Connector_new_def co_inv_def in_progress_def reset_ok_def simp flip: backoff_0)
qed (rule co_inv_step)

section \<open>Properties\<close>


definition connector_example :: Connector where
  "connector_example = Connector_new rx_example sockaddr_zero"

lemma connector_example_fresh [simp]: "new_channel_ok 0 7 connector_example"
  using rx_example_ok by (simp add: new_channel_ok_def connector_example_def Connector_new_def Let_def
      rx_example_def fun_upd_def poller_inv_def poller_struct_def registered_def on_loop_def isInLoopThread_def fresh_def Channel_new_def)

lemma connector_example_refused:
  "Connector_start 0 7 (Some ECONNREFUSED) connector_example =
     Inr (connector_example\<lparr>co_connect := True, co_created := [7], co_closed := [7], co_timers := [500], co_retryDelayMs := 1000\<rparr>)"
  by (simp add: Connector_start_def startInLoop_def connect_def createNonblockingOrDie_def retry_def close_fd_def
      connector_example_def Connector_new_def assertInLoopThread_def isInLoopThread_def rx_example_def Let_def
      kInitRetryDelayMs_def kMaxRetryDelayMs_def)


text \<open>The state is not checked on a start. A retry leaves a timer behind and the state at
  \<^verbatim>\<open>kDisconnected\<close>; when the user starts again meanwhile and that connect is under way, the timer fails the
  assertion of \<^verbatim>\<open>startInLoop()\<close>.\<close>

theorem retry_timer_after_start_aborts:
  assumes "co_state s = CkDisconnected" "co_channel s = None" "isInLoopThread (co_rx s)" "new_channel_ok c sock s" "0 \<le> sock"
  shows "\<exists>s'. Connector_start c sock (Some EINPROGRESS) s = Inr s' \<and> co_timers s' = co_timers s \<and>
     (\<forall>c2 sock2 e ts. startInLoop c2 sock2 e (s'\<lparr>co_timers := ts\<rparr>) = Inl (AssertFailed ''state_ == kDisconnected''))"
proof -
  let ?s = "s\<lparr>co_connect := True, co_created := co_created s @ [sock]\<rparr>"
  have n: "new_channel_ok c sock ?s" "co_channel ?s = None" using assms(2,4) by (simp_all add: new_channel_ok_def Let_def)
  obtain rx where rx: "connecting c sock ?s = Inr (?s\<lparr>co_state := CkConnecting, co_channel := Some c, co_rx := rx\<rparr>)"
    "rx_ready rx c"
    by (rule connecting_ok [OF n(1) assms(5) n(2)])
  have "Connector_start c sock (Some EINPROGRESS) s = Inr (?s\<lparr>co_state := CkConnecting, co_channel := Some c, co_rx := rx\<rparr>)"
    using rx(1) assms(1,3,5)
    by (simp add: Connector_start_def startInLoop_def connect_def createNonblockingOrDie_def assertInLoopThread_def Let_def)
  moreover have "isInLoopThread rx" using rx(2) by (simp add: rx_ready_def on_loop_def)
  ultimately show ?thesis by (auto simp: startInLoop_def assertInLoopThread_def assertR_def)
qed

theorem retry_timer_after_start_aborts_witness:
  "\<exists>s s'. Connector_start 0 7 (Some ECONNREFUSED) connector_example = Inr s \<and> co_timers s = [500] \<and>
     Connector_start 0 7 (Some EINPROGRESS) s = Inr s' \<and>
     startInLoop 1 8 None (s'\<lparr>co_timers := []\<rparr>) = Inl (AssertFailed ''state_ == kDisconnected'')"
proof -
  define s where "s = connector_example\<lparr>co_connect := True, co_created := [7], co_closed := [7], co_timers := [500], co_retryDelayMs := 1000\<rparr>"
  have n: "new_channel_ok 0 7 s" using connector_example_fresh by (simp add: s_def new_channel_ok_def Let_def)
  have "co_state s = CkDisconnected" "co_channel s = None" "isInLoopThread (co_rx s)"
    by (simp_all add: s_def connector_example_def Connector_new_def isInLoopThread_def rx_example_def)
  from retry_timer_after_start_aborts [OF this n] connector_example_refused [folded s_def] show ?thesis
    by (auto simp: s_def)
qed

end
