(* ===== verification/Server.thy ===== *)
theory Server
  imports ThreadPool Connector
begin

text \<open>
  \<^verbatim>\<open>EventLoopThread\<close>, \<^verbatim>\<open>EventLoopThreadPool\<close>, \<^verbatim>\<open>Acceptor\<close>, \<^verbatim>\<open>TcpServer\<close> and \<^verbatim>\<open>TcpClient\<close> (\<^verbatim>\<open>src/net/EventLoopThread.cc\<close>,
  \<^verbatim>\<open>src/net/EventLoopThreadPool.cc\<close>, \<^verbatim>\<open>src/net/Acceptor.cc\<close>, \<^verbatim>\<open>src/net/TcpServer.cc\<close>, \<^verbatim>\<open>src/net/TcpClient.cc\<close>).

  A loop is a number. The server and the client keep connections as handles (identity, name,
  loop); the calls they make on a connection, directly or through its loop, are recorded in
  order as \<open>conn_task\<close>s. What a connection does with them is theory \<open>TcpConnection\<close>.
\<close>

section \<open>EventLoopThread\<close>

record EventLoopThread =
  elt_loop :: "nat option"
  elt_exiting :: bool
  elt_thread :: Thread
  elt_quit :: bool

definition EventLoopThread_new :: EventLoopThread where
  "EventLoopThread_new = \<lparr>elt_loop = None, elt_exiting = False, elt_thread = fst (Thread_new [] 0), elt_quit = False\<rparr>"

text \<open>The two critical sections on the lock of the thread: \<^verbatim>\<open>startLoop()\<close> waits for the loop, and \<^verbatim>\<open>threadFunc()\<close>
  publishes it.\<close>

datatype elt_method = EAwait | EPublish nat

fun elt_while :: "elt_method \<Rightarrow> EventLoopThread \<Rightarrow> bool" where
  "elt_while EAwait s \<longleftrightarrow> elt_loop s = None"
| "elt_while (EPublish l) s \<longleftrightarrow> False"

fun elt_body :: "elt_method \<Rightarrow> EventLoopThread \<Rightarrow> (EventLoopThread \<times> notify option) res" where
  "elt_body EAwait s = Inr (s, None)"
| "elt_body (EPublish l) s = Inr (s\<lparr>elt_loop := Some l\<rparr>, Some (Notify 0))"

text \<open>\<^verbatim>\<open>startLoop()\<close> as its caller sees it, with the loop the new thread publishes.\<close>

definition startLoop :: "int \<Rightarrow> nat \<Rightarrow> EventLoopThread \<Rightarrow> (nat \<times> EventLoopThread) res" where
  "startLoop pthread_create l s =
     bindR (assertR (\<not> th_started (elt_thread s)) ''!thread_.started()'') (\<lambda>_.
     bindR (Thread_start pthread_create (elt_thread s)) (\<lambda>th.
     bindR (elt_body (EPublish l) (s\<lparr>elt_thread := th\<rparr>)) (\<lambda>(s1, _).
     case elt_loop s1 of None \<Rightarrow> Inl OutOfBounds | Some l \<Rightarrow> Inr (l, s1))))"

text \<open>The end of \<^verbatim>\<open>threadFunc()\<close>, and the destructor.\<close>

definition threadFunc_end :: "EventLoopThread \<Rightarrow> EventLoopThread" where
  "threadFunc_end s = s\<lparr>elt_loop := None\<rparr>"

definition EventLoopThread_dtor :: "EventLoopThread \<Rightarrow> EventLoopThread res" where
  "EventLoopThread_dtor s =
     (let s1 = s\<lparr>elt_exiting := True\<rparr> in
      if elt_loop s1 \<noteq> None then
        bindR (Thread_join (elt_thread s1)) (\<lambda>th. Inr (s1\<lparr>elt_quit := True, elt_thread := th\<rparr>))
      else Inr s1)"

section \<open>EventLoopThreadPool\<close>

record EventLoopThreadPool =
  ep_baseLoop :: nat
  ep_started :: bool
  ep_numThreads :: int
  ep_next :: int
  ep_threads :: "EventLoopThread list"
  ep_loops :: "nat list"
  ep_inited :: "nat list"

definition EventLoopThreadPool_new :: "nat \<Rightarrow> EventLoopThreadPool" where
  "EventLoopThreadPool_new baseLoop = \<lparr>ep_baseLoop = baseLoop, ep_started = False, ep_numThreads = 0, ep_next = 0,
     ep_threads = [], ep_loops = [], ep_inited = []\<rparr>"

definition ep_setThreadNum :: "int \<Rightarrow> EventLoopThreadPool \<Rightarrow> EventLoopThreadPool" where
  "ep_setThreadNum numThreads p = p\<lparr>ep_numThreads := numThreads\<rparr>"

text \<open>\<open>spawn i\<close> is what \<^verbatim>\<open>pthread_create\<close> answers for the \<open>i\<close>-th thread and the loop it publishes; \<open>ep_inited\<close> are the
  loops the init callback was called with, by their thread or, without threads, here.\<close>

fun ep_spawn :: "(nat \<Rightarrow> int \<times> nat) \<Rightarrow> bool \<Rightarrow> nat \<Rightarrow> nat \<Rightarrow> EventLoopThreadPool \<Rightarrow> EventLoopThreadPool res" where
  "ep_spawn spawn cb i 0 p = Inr p"
| "ep_spawn spawn cb i (Suc k) p =
     (let (ret, l) = spawn i in
      bindR (startLoop ret l EventLoopThread_new) (\<lambda>(loop, t).
      ep_spawn spawn cb (i + 1) k
        (p\<lparr>ep_threads := ep_threads p @ [t], ep_loops := ep_loops p @ [loop],
           ep_inited := (if cb then ep_inited p @ [loop] else ep_inited p)\<rparr>)))"

definition EventLoopThreadPool_start :: "bool \<Rightarrow> (nat \<Rightarrow> int \<times> nat) \<Rightarrow> bool \<Rightarrow> EventLoopThreadPool \<Rightarrow> EventLoopThreadPool res" where
  "EventLoopThreadPool_start inLoop spawn cb p =
     bindR (assertR (\<not> ep_started p) ''!started_'') (\<lambda>_.
     bindR (if inLoop then Inr () else Inl (Fatal ''EventLoop::abortNotInLoopThread'')) (\<lambda>_.
     bindR (ep_spawn spawn cb 0 (nat (ep_numThreads p)) (p\<lparr>ep_started := True\<rparr>)) (\<lambda>p1.
     Inr (if ep_numThreads p1 = 0 \<and> cb then p1\<lparr>ep_inited := ep_inited p1 @ [ep_baseLoop p1]\<rparr> else p1))))"

definition getNextLoop :: "EventLoopThreadPool \<Rightarrow> (nat \<times> EventLoopThreadPool) res" where
  "getNextLoop p =
     (if ep_loops p \<noteq> [] then
        if 0 \<le> ep_next p \<and> nat (ep_next p) < length (ep_loops p) then
          let loop = ep_loops p ! nat (ep_next p); next1 = ep_next p + 1 in
          Inr (loop, p\<lparr>ep_next := (if int_to_size next1 \<ge> length (ep_loops p) then 0 else next1)\<rparr>)
        else Inl OutOfBounds
      else Inr (ep_baseLoop p, p))"

section \<open>Acceptor\<close>

record Acceptor =
  ac_socket :: Socket
  ac_channel :: chan
  ac_listenning :: bool
  ac_idleFd :: int
  ac_rx :: Reactor
  ac_dropped :: nat

definition Acceptor_new :: "int \<Rightarrow> int \<Rightarrow> int \<Rightarrow> int \<Rightarrow> chan \<Rightarrow> Reactor \<Rightarrow> sockaddr_in \<Rightarrow> bool \<Rightarrow> Acceptor res" where
  "Acceptor_new sock idle reuse_ret bind_ret c rx listenAddr reuseport =
     bindR (createNonblockingOrDie sock) (\<lambda>fd.
     bindR (assertR (idle \<ge> 0) ''idleFd_ >= 0'') (\<lambda>_.
     bindR (bindAddress bind_ret listenAddr (setReusePort reuse_ret reuseport (setReuseAddr True (Socket_new fd)))) (\<lambda>so.
     Inr \<lparr>ac_socket = so, ac_channel = c, ac_listenning = False, ac_idleFd = idle,
          ac_rx = rx\<lparr>heap := (heap rx)(c := Channel_new (rx_loop rx) fd)\<rparr>, ac_dropped = 0\<rparr>)))"

definition Acceptor_dtor :: "Acceptor \<Rightarrow> Acceptor res" where
  "Acceptor_dtor a =
     bindR (Channel_mask DisableAll (ac_channel a) (ac_rx a)) (\<lambda>rx.
     bindR (Channel_remove (ac_channel a) rx) (\<lambda>rx. Inr (a\<lparr>ac_rx := rx, ac_idleFd := - 1\<rparr>)))"

definition Acceptor_listen :: "int \<Rightarrow> Acceptor \<Rightarrow> Acceptor res" where
  "Acceptor_listen ret a =
     bindR (assertInLoopThread (ac_rx a)) (\<lambda>_.
     bindR (Socket_listen ret (ac_socket a)) (\<lambda>so.
     bindR (Channel_mask EnableReading (ac_channel a) (ac_rx a)) (\<lambda>rx.
     Inr (a\<lparr>ac_listenning := True, ac_socket := so, ac_rx := rx\<rparr>))))"

datatype accepted = NewConnection int sockaddr_in | ClosedAtOnce int | NoConnection

text \<open>\<^verbatim>\<open>handleRead()\<close>. When the process is out of descriptors, the spare one makes room to accept and drop
  the connection; \<open>reopened\<close> is the new spare.\<close>

definition Acceptor_handleRead :: "bool \<Rightarrow> int \<times> errno \<times> sockaddr_in \<Rightarrow> int \<Rightarrow> Acceptor \<Rightarrow> (accepted \<times> Acceptor) res" where
  "Acceptor_handleRead hasCallback reply reopened a =
     bindR (assertInLoopThread (ac_rx a)) (\<lambda>_.
     bindR (Socket_accept reply sockaddr_zero) (\<lambda>(connfd, e, peerAddr).
     if connfd \<ge> 0 then
       if hasCallback then Inr (NewConnection connfd peerAddr, a) else Inr (ClosedAtOnce connfd, a)
     else if e = EMFILE then Inr (NoConnection, a\<lparr>ac_idleFd := reopened, ac_dropped := ac_dropped a + 1\<rparr>)
     else Inr (NoConnection, a)))"

section \<open>TcpServer\<close>

record conn =
  cn_id :: nat
  cn_name :: string
  cn_loop :: nat

datatype conn_task = RunEstablished conn | QueueDestroyed conn | RunDestroyed conn

record TcpServer =
  sv_hostport :: string
  sv_name :: string
  sv_pool :: EventLoopThreadPool
  sv_started :: "32 word"
  sv_listens :: nat
  sv_nextConnId :: int
  sv_connections :: "string \<rightharpoonup> conn"
  sv_tasks :: "conn_task list"

definition TcpServer_new :: "nat \<Rightarrow> string \<Rightarrow> string \<Rightarrow> TcpServer" where
  "TcpServer_new loop hostport nameArg =
     \<lparr>sv_hostport = hostport, sv_name = nameArg, sv_pool = EventLoopThreadPool_new loop, sv_started = 0, sv_listens = 0,
      sv_nextConnId = 1, sv_connections = (\<lambda>_. None), sv_tasks = []\<rparr>"

definition setThreadNum :: "int \<Rightarrow> TcpServer \<Rightarrow> TcpServer res" where
  "setThreadNum numThreads s =
     bindR (assertR (0 \<le> numThreads) ''0 <= numThreads'') (\<lambda>_. Inr (s\<lparr>sv_pool := ep_setThreadNum numThreads (sv_pool s)\<rparr>))"

definition TcpServer_start :: "bool \<Rightarrow> (nat \<Rightarrow> int \<times> nat) \<Rightarrow> bool \<Rightarrow> TcpServer \<Rightarrow> TcpServer res" where
  "TcpServer_start inLoop spawn cb s =
     (let (old, st) = getAndSet 1 (sv_started s); s1 = s\<lparr>sv_started := st\<rparr> in
      if old = 0 then
        bindR (EventLoopThreadPool_start inLoop spawn cb (sv_pool s1)) (\<lambda>p.
        bindR (assertR (sv_listens s1 = 0) ''!acceptor_->listenning()'') (\<lambda>_.
        Inr (s1\<lparr>sv_pool := p, sv_listens := sv_listens s1 + 1\<rparr>)))
      else Inr s1)"

text \<open>The name of a connection: \<^verbatim>\<open>":%s#%d"\<close> in a buffer of 32 characters behind the name of the server.\<close>

definition connName :: "string \<Rightarrow> string \<Rightarrow> int \<Rightarrow> string" where
  "connName name hostport connId = name @ snprintf_buf 32 ('':'' @ hostport @ ''#'' @ show_int connId)"

definition TcpServer_newConnection :: "nat \<Rightarrow> TcpServer \<Rightarrow> TcpServer res" where
  "TcpServer_newConnection ptr s =
     bindR (getNextLoop (sv_pool s)) (\<lambda>(ioLoop, pool).
     let nm = connName (sv_name s) (sv_hostport s) (sv_nextConnId s);
         conn = \<lparr>cn_id = ptr, cn_name = nm, cn_loop = ioLoop\<rparr> in
     Inr (s\<lparr>sv_pool := pool, sv_nextConnId := sv_nextConnId s + 1, sv_connections := (sv_connections s)(nm \<mapsto> conn),
            sv_tasks := sv_tasks s @ [RunEstablished conn]\<rparr>))"

definition removeConnectionInLoop :: "conn \<Rightarrow> TcpServer \<Rightarrow> TcpServer res" where
  "removeConnectionInLoop conn s =
     (let n = (if sv_connections s (cn_name conn) = None then 0 else 1 :: nat);
          s1 = s\<lparr>sv_connections := (sv_connections s)(cn_name conn := None)\<rparr> in
      bindR (assertR (n = 1) ''n == 1'') (\<lambda>_. Inr (s1\<lparr>sv_tasks := sv_tasks s1 @ [QueueDestroyed conn]\<rparr>)))"

text \<open>The destructor, over the connections in the order of the map.\<close>

definition TcpServer_dtor :: "bool \<Rightarrow> conn list \<Rightarrow> TcpServer \<Rightarrow> TcpServer res" where
  "TcpServer_dtor inLoop conns s =
     bindR (if inLoop then Inr () else Inl (Fatal ''EventLoop::abortNotInLoopThread'')) (\<lambda>_.
     Inr (s\<lparr>sv_tasks := sv_tasks s @ map RunDestroyed conns\<rparr>))"

section \<open>TcpClient\<close>

datatype client_call = ConnectorStart | ConnectorStop | ConnectorRestart | ConnShutdown conn | ConnEstablished conn
  | ConnQueueDestroyed conn | ConnSetCloseCallback conn

record TcpClient =
  cl_name :: string
  cl_retry :: bool
  cl_connect :: bool
  cl_nextConnId :: int
  cl_connection :: "conn option"
  cl_loop :: nat
  cl_calls :: "client_call list"

definition TcpClient_new :: "nat \<Rightarrow> string \<Rightarrow> TcpClient" where
  "TcpClient_new loop name = \<lparr>cl_name = name, cl_retry = False, cl_connect = True, cl_nextConnId = 1, cl_connection = None,
     cl_loop = loop, cl_calls = []\<rparr>"

definition cl_emit :: "client_call \<Rightarrow> TcpClient \<Rightarrow> TcpClient" where
  "cl_emit x s = s\<lparr>cl_calls := cl_calls s @ [x]\<rparr>"

definition TcpClient_dtor :: "TcpClient \<Rightarrow> TcpClient" where
  "TcpClient_dtor s =
     (case cl_connection s of Some conn \<Rightarrow> cl_emit (ConnSetCloseCallback conn) s | None \<Rightarrow> cl_emit ConnectorStop s)"

definition TcpClient_connect :: "TcpClient \<Rightarrow> TcpClient" where
  "TcpClient_connect s = cl_emit ConnectorStart (s\<lparr>cl_connect := True\<rparr>)"

definition TcpClient_disconnect :: "TcpClient \<Rightarrow> TcpClient" where
  "TcpClient_disconnect s =
     (let s1 = s\<lparr>cl_connect := False\<rparr> in
      case cl_connection s1 of None \<Rightarrow> s1 | Some conn \<Rightarrow> cl_emit (ConnShutdown conn) s1)"

definition TcpClient_stop :: "TcpClient \<Rightarrow> TcpClient" where
  "TcpClient_stop s = cl_emit ConnectorStop (s\<lparr>cl_connect := False\<rparr>)"

definition enableRetry :: "TcpClient \<Rightarrow> TcpClient" where
  "enableRetry s = s\<lparr>cl_retry := True\<rparr>"

definition TcpClient_newConnection :: "nat \<Rightarrow> string \<Rightarrow> TcpClient \<Rightarrow> TcpClient" where
  "TcpClient_newConnection ptr peer s =
     (let conn = \<lparr>cn_id = ptr, cn_name = connName (cl_name s) peer (cl_nextConnId s), cn_loop = cl_loop s\<rparr> in
      cl_emit (ConnEstablished conn) (s\<lparr>cl_nextConnId := cl_nextConnId s + 1, cl_connection := Some conn\<rparr>))"

definition TcpClient_removeConnection :: "conn \<Rightarrow> TcpClient \<Rightarrow> TcpClient res" where
  "TcpClient_removeConnection conn s =
     bindR (assertR (cl_loop s = cn_loop conn) ''loop_ == conn->getLoop()'') (\<lambda>_.
     bindR (assertR (cl_connection s = Some conn) ''connection_ == conn'') (\<lambda>_.
     let s1 = cl_emit (ConnQueueDestroyed conn) (s\<lparr>cl_connection := None\<rparr>) in
     Inr (if cl_retry s1 \<and> cl_connect s1 then cl_emit ConnectorRestart s1 else s1)))"

section \<open>Round robin\<close>

fun next_loops :: "nat \<Rightarrow> EventLoopThreadPool \<Rightarrow> (nat list \<times> EventLoopThreadPool) res" where
  "next_loops 0 p = Inr ([], p)"
| "next_loops (Suc k) p = bindR (getNextLoop p) (\<lambda>(l, p1). bindR (next_loops k p1) (\<lambda>(ls, p2). Inr (l # ls, p2)))"

lemma getNextLoop_ok:
  assumes "ep_loops p = ls" "ls \<noteq> []" "length ls < 2 ^ 31" "ep_next p = int j" "j < length ls"
  shows "getNextLoop p = Inr (ls ! j, p\<lparr>ep_next := int (Suc j mod length ls)\<rparr>)"
proof -
  have "int_to_size (int j + 1) = Suc j"
    using assms(3,5) by (subst int_to_size_nonneg) (simp_all add: SIZE_MOD_def nat_add_distrib)
  then have "(if int_to_size (int j + 1) \<ge> length ls then 0 else int j + 1) = int (Suc j mod length ls)"
    using assms(5) by (cases "Suc j = length ls") auto
  then show ?thesis using assms by (simp add: getNextLoop_def Let_def)
qed

lemma next_loops_ok:
  assumes "ep_loops p = ls" "ls \<noteq> []" "length ls < 2 ^ 31" "ep_next p = int j" "j < length ls"
  shows "next_loops k p = Inr (map (\<lambda>i. ls ! ((j + i) mod length ls)) [0..<k], p\<lparr>ep_next := int ((j + k) mod length ls)\<rparr>)"
  using assms
proof (induction k arbitrary: p j)
  case 0
  then show ?case by simp
next
  case (Suc k)
  let ?n = "length ls"
  let ?p = "p\<lparr>ep_next := int (Suc j mod ?n)\<rparr>"
  have IH: "next_loops k ?p = Inr (map (\<lambda>i. ls ! ((Suc j mod ?n + i) mod ?n)) [0..<k], ?p\<lparr>ep_next := int ((Suc j mod ?n + k) mod ?n)\<rparr>)"
    using Suc.prems by (intro Suc.IH) simp_all
  have m: "(Suc j mod ?n + i) mod ?n = (j + Suc i) mod ?n" for i by (simp add: mod_add_left_eq)
  have "map (\<lambda>i. ls ! ((j + i) mod ?n)) [0..<Suc k] = ls ! j # map (\<lambda>i. ls ! ((j + Suc i) mod ?n)) [0..<k]"
    using Suc.prems(5) by (simp add: upt_conv_Cons map_Suc_upt [symmetric] comp_def del: upt_Suc)
  then show ?case using getNextLoop_ok [OF Suc.prems] IH m by simp
qed

section \<open>Names of connections\<close>

lemma char_digits: "char_of (48 :: nat) = CHR ''0''" "char_of (49 :: nat) = CHR ''1''"
  by code_simp+

lemma connName_whole:
  assumes "length hostport \<le> 21" "0 \<le> i" "i < 10 ^ 8"
  shows "connName name hostport i = name @ '':'' @ hostport @ ''#'' @ show_nat (nat i)"
proof -
  have "nat i < 10 ^ 8" using assms(2,3) by simp
  then have "length (show_nat (nat i)) \<le> 8" by (intro length_show_nat_le) simp_all
  then show ?thesis using assms by (simp add: connName_def show_int_def snprintf_buf_def)
qed

lemma connName_inj:
  assumes "length hostport \<le> 21" "0 \<le> i" "i < 10 ^ 8" "0 \<le> j" "j < 10 ^ 8" "connName name hostport i = connName name hostport j"
  shows "i = j"
proof -
  have "show_nat (nat i) = show_nat (nat j)" using assms by (simp add: connName_whole)
  then show ?thesis using assms(2,4) by (simp add: show_nat_inject)
qed

text \<open>The buffer of the name holds eight digits behind the longest address: from the hundred
  millionth connection on, names repeat.\<close>

lemma connName_collision:
  assumes "length hostport = 21" "10 ^ 7 \<le> i" "i < 10 ^ 8"
  shows "connName name hostport i = connName name hostport (10 * i)"
proof -
  have n: "nat i < 10 ^ 8" "10 ^ 7 \<le> nat i" "nat (10 * i) = 10 * nat i" using assms(2,3) by simp_all
  have l: "length (show_nat (nat i)) = 8"
    using length_show_nat_le [OF n(1)] length_show_nat_ge [OF n(2)] by simp
  have "show_nat (10 * nat i) = show_nat (nat i) @ ''0''"
    using n(2) by (subst show_nat.simps) (auto simp: char_digits)
  then show ?thesis
    using assms l n(3) by (simp add: connName_def snprintf_buf_def show_int_def)
qed

section \<open>The table of connections\<close>

text \<open>The server with its live connections: those it created and that have not been removed yet. A
  connection is removed through its close callback, once.\<close>

inductive sv_step :: "TcpServer \<times> conn list \<Rightarrow> TcpServer \<times> conn list \<Rightarrow> bool" where
  sv_new: "TcpServer_newConnection ptr s = Inr s' \<Longrightarrow> sv_tasks s' = sv_tasks s @ [RunEstablished c] \<Longrightarrow>
    sv_step (s, live) (s', c # live)"
| sv_remove: "c \<in> set live \<Longrightarrow> removeConnectionInLoop c s = Inr s' \<Longrightarrow> sv_step (s, live) (s', remove1 c live)"

definition sv_init :: "TcpServer \<times> conn list \<Rightarrow> bool" where
  "sv_init x \<longleftrightarrow> (case x of (s, live) \<Rightarrow> sv_nextConnId s = 1 \<and> sv_connections s = (\<lambda>_. None) \<and> length (sv_hostport s) \<le> 21 \<and> live = [])"

definition sv_inv :: "TcpServer \<times> conn list \<Rightarrow> bool" where
  "sv_inv x \<longleftrightarrow> (case x of (s, live) \<Rightarrow> 1 \<le> sv_nextConnId s \<and> length (sv_hostport s) \<le> 21 \<and>
     (sv_nextConnId s \<le> 10 ^ 8 \<longrightarrow>
        sv_connections s = map_of (map (\<lambda>c. (cn_name c, c)) live) \<and> distinct (map cn_name live) \<and>
        (\<forall>c \<in> set live. \<exists>i. 1 \<le> i \<and> i < sv_nextConnId s \<and> cn_name c = connName (sv_name s) (sv_hostport s) i)))"

lemma map_of_remove1:
  "distinct (map cn_name live) \<Longrightarrow> c \<in> set live \<Longrightarrow>
   map_of (map (\<lambda>c. (cn_name c, c)) (remove1 c live)) = (map_of (map (\<lambda>c. (cn_name c, c)) live))(cn_name c := None)"
proof (induction live)
  case (Cons d live)
  show ?case
  proof (cases "c = d")
    case True
    have "map_of (map (\<lambda>c. (cn_name c, c)) live) (cn_name d) = None"
      using Cons.prems(1) by (auto simp: map_of_eq_None_iff image_iff)
    then show ?thesis using True by (auto simp: fun_eq_iff)
  next
    case False
    then have c: "c \<in> set live" using Cons.prems(2) by simp
    then have "cn_name c \<noteq> cn_name d" using Cons.prems(1) by (metis distinct.simps(2) image_eqI list.set_map list.simps(9))
    moreover have "distinct (map cn_name live)" using Cons.prems(1) by simp
    note Cons.IH [OF this c]
    ultimately show ?thesis using False by (auto simp: fun_eq_iff)
  qed
qed simp

lemma map_of_live: "distinct (map cn_name live) \<Longrightarrow> c \<in> set live \<Longrightarrow> map_of (map (\<lambda>c. (cn_name c, c)) live) (cn_name c) = Some c"
  by (rule map_of_is_SomeI) (auto simp: comp_def)

lemma sv_inv_new:
  assumes i: "sv_inv (s, live)" and n: "TcpServer_newConnection ptr s = Inr s'" "sv_tasks s' = sv_tasks s @ [RunEstablished c]"
  shows "sv_inv (s', c # live)"
proof -
  let ?nm = "connName (sv_name s) (sv_hostport s) (sv_nextConnId s)"
  obtain l pool where s': "s' = s\<lparr>sv_pool := pool, sv_nextConnId := sv_nextConnId s + 1,
      sv_connections := (sv_connections s)(?nm \<mapsto> \<lparr>cn_id = ptr, cn_name = ?nm, cn_loop = l\<rparr>),
      sv_tasks := sv_tasks s @ [RunEstablished \<lparr>cn_id = ptr, cn_name = ?nm, cn_loop = l\<rparr>]\<rparr>"
    using n(1) by (auto simp: TcpServer_newConnection_def bindR_eq_Inr Let_def)
  have c: "c = \<lparr>cn_id = ptr, cn_name = ?nm, cn_loop = l\<rparr>" using n(2) s' by simp
  have b: "1 \<le> sv_nextConnId s" "length (sv_hostport s) \<le> 21" using i by (simp_all add: sv_inv_def)
  have "?nm \<notin> set (map cn_name live)" if le: "sv_nextConnId s + 1 \<le> 10 ^ 8"
  proof
    assume "?nm \<in> set (map cn_name live)"
    then obtain d where d: "d \<in> set live" "cn_name d = ?nm" by auto
    then obtain j where "1 \<le> j" "j < sv_nextConnId s" "?nm = connName (sv_name s) (sv_hostport s) j"
      using i le by (auto simp: sv_inv_def)
    then show False using connName_inj [OF b(2), of "sv_nextConnId s" j] b(1) le by simp
  qed
  moreover have "\<exists>k \<ge> 1. k < sv_nextConnId s + 1 \<and> ?nm = connName (sv_name s) (sv_hostport s) k"
    using b(1) by (intro exI [of _ "sv_nextConnId s"]) simp
  moreover have "\<exists>k. 1 \<le> k \<and> k < sv_nextConnId s + 1 \<and> cn_name d = connName (sv_name s) (sv_hostport s) k"
    if "sv_nextConnId s + 1 \<le> 10 ^ 8" "d \<in> set live" for d
    using i that by (fastforce simp: sv_inv_def)
  ultimately show ?thesis using i unfolding sv_inv_def s' c by (auto simp: fun_eq_iff)
qed

lemma removeConnection_ok:
  assumes "sv_inv (s, live)" "sv_nextConnId s \<le> 10 ^ 8" "c \<in> set live"
  shows "removeConnectionInLoop c s = Inr (s\<lparr>sv_connections := (sv_connections s)(cn_name c := None),
     sv_tasks := sv_tasks s @ [QueueDestroyed c]\<rparr>)"
  using assms map_of_live [of live c] by (simp add: sv_inv_def removeConnectionInLoop_def Let_def)

lemma sv_inv_step: "sv_inv x \<Longrightarrow> sv_step x y \<Longrightarrow> sv_inv y"
proof (erule sv_step.cases)
  fix ptr s s' c live
  assume "sv_inv x" "x = (s, live)" "y = (s', c # live)" "TcpServer_newConnection ptr s = Inr s'"
    "sv_tasks s' = sv_tasks s @ [RunEstablished c]"
  then show ?thesis using sv_inv_new by blast
next
  fix c s s' and live :: "conn list"
  assume a: "sv_inv x" "x = (s, live)" "y = (s', remove1 c live)" "c \<in> set live" "removeConnectionInLoop c s = Inr s'"
  have s': "s' = s\<lparr>sv_connections := (sv_connections s)(cn_name c := None), sv_tasks := sv_tasks s @ [QueueDestroyed c]\<rparr>"
    using a(5) by (auto simp: removeConnectionInLoop_def Let_def split: if_splits)
  have "distinct (map cn_name (remove1 c live))" if "distinct (map cn_name live)"
    using that by (metis distinct_map distinct_remove1 inj_on_subset set_remove1_subset)
  then show ?thesis
    using a(1,2) map_of_remove1 [of live c] a(4) set_remove1_subset [of c live] unfolding a(3) s' by (auto simp: sv_inv_def)
qed

interpretation server: transition_system sv_init sv_step sv_inv
  by unfold_locales (auto simp: sv_init_def sv_inv_def [of "(_, [])"] intro: sv_inv_step)

section \<open>Properties\<close>

text \<open>\<^verbatim>\<open>getNextLoop()\<close> is a round robin: from the start, call \<open>i\<close> (counted from 0) returns loop \<open>i mod n\<close> of the \<open>n\<close> loops,
  for ever, and the index never leaves the vector; without loops it is always the base loop.\<close>

theorem round_robin:
  assumes "ep_next p = 0" "length (ep_loops p) < 2 ^ 31"
  shows "\<exists>p'. next_loops k p = Inr
     (if ep_loops p = [] then replicate k (ep_baseLoop p) else map (\<lambda>i. ep_loops p ! (i mod length (ep_loops p))) [0..<k], p')"
proof (cases "ep_loops p = []")
  case True
  then have "next_loops k p = Inr (replicate k (ep_baseLoop p), p)" by (induction k) (simp_all add: getNextLoop_def)
  then show ?thesis using True by simp
next
  case False
  then show ?thesis using next_loops_ok [of p "ep_loops p" 0 k] assms by simp
qed

theorem round_robin_witness:
  "\<exists>p'. next_loops 5 ((EventLoopThreadPool_new 1)\<lparr>ep_loops := [4, 5]\<rparr>) = Inr ([4, 5, 4, 5, 4], p')"
proof -
  let ?p = "(EventLoopThreadPool_new 1)\<lparr>ep_loops := [4, 5]\<rparr>"
  have l: "map (\<lambda>i. [4, 5 :: nat] ! (i mod length [4, 5 :: nat])) [0..<5] = [4, 5, 4, 5, 4]" by code_simp
  have "ep_loops ?p = [4, 5]" "ep_next ?p = 0" by (simp_all add: EventLoopThreadPool_new_def)
  with round_robin [of ?p 5] l show ?thesis by simp
qed

text \<open>While fewer than a hundred million connections have been made, the table of the server holds
  exactly the live connections, each under its own name and no two under one name; so the removal
  of a live connection finds it and its assertion holds.\<close>

theorem server_table:
  assumes "reach sv_init sv_step (s, live)" "sv_nextConnId s \<le> 10 ^ 8"
  shows "(\<forall>k c. sv_connections s k = Some c \<longleftrightarrow> c \<in> set live \<and> cn_name c = k) \<and> distinct (map cn_name live) \<and>
     (\<forall>c \<in> set live. \<exists>s'. removeConnectionInLoop c s = Inr s' \<and> sv_connections s' (cn_name c) = None)"
proof -
  have i: "sv_inv (s, live)" by (rule server.reach_inv [OF assms(1)])
  then have m: "sv_connections s = map_of (map (\<lambda>c. (cn_name c, c)) live)" "distinct (map cn_name live)"
    using assms(2) by (simp_all add: sv_inv_def)
  have "sv_connections s k = Some c \<longleftrightarrow> c \<in> set live \<and> cn_name c = k" for k c
    using m map_of_live [of live c] by (auto simp: m(1) dest: map_of_SomeD)
  then show ?thesis using m(2) removeConnection_ok [OF i assms(2)] by auto
qed

definition server_example :: TcpServer where
  "server_example = TcpServer_new 1 ''127.0.0.1:80'' ''srv''"

theorem server_table_witness:
  "\<exists>s c. TcpServer_newConnection 9 server_example = Inr s \<and> sv_tasks s = [RunEstablished c] \<and>
     cn_name c = ''srv:127.0.0.1:80#1'' \<and> (\<exists>s'. removeConnectionInLoop c s = Inr s')"
proof -
  obtain s where s: "TcpServer_newConnection 9 server_example = Inr s" "sv_nextConnId s = 2"
    "sv_tasks s = [RunEstablished \<lparr>cn_id = 9, cn_name = ''srv:127.0.0.1:80#1'', cn_loop = 1\<rparr>]"
    by (simp add: TcpServer_newConnection_def server_example_def TcpServer_new_def getNextLoop_def EventLoopThreadPool_new_def
        connName_def snprintf_buf_def show_int_def show_nat.simps [of "Suc 0"] Let_def char_digits)
  have "reach sv_init sv_step (server_example, [])"
    by (rule reach_init) (simp add: sv_init_def server_example_def TcpServer_new_def)
  then have "reach sv_init sv_step (s, [\<lparr>cn_id = 9, cn_name = ''srv:127.0.0.1:80#1'', cn_loop = 1\<rparr>])"
    by (rule reach_step) (rule sv_new [OF s(1)], simp add: s(3) server_example_def TcpServer_new_def)
  from server_table [OF this] s show ?thesis by auto
qed

end
