(* ===== verification/ConnDispatch.thy ===== *)
theory ConnDispatch
  imports TcpConnection
begin

text \<open>
  The dispatch of a connection (\<^verbatim>\<open>src/net/Channel.cc\<close>, \<^verbatim>\<open>src/net/TcpConnection.cc\<close>, \<^verbatim>\<open>src/net/EventLoop.cc\<close>): \<^verbatim>\<open>Channel::handleEvent()\<close>
  with the four callbacks the constructor of \<^verbatim>\<open>TcpConnection\<close> sets, as one turn of the \<^verbatim>\<open>for\<close> loop in
  \<^verbatim>\<open>EventLoop::loop()\<close> calls it. The callbacks change the channel they are called from, so the reported events
  are read again between them.
\<close>

section \<open>The callbacks\<close>

text \<open>The constructor binds the members of the connection; the read happens at most once in a
  dispatch, and \<open>readv\<close> is what it finds.\<close>

definition conn_callbacks :: "kwrite \<Rightarrow> user_callbacks \<Rightarrow> (nat list \<Rightarrow> sys_read) \<Rightarrow> TcpConnection callbacks" where
  "conn_callbacks kw u readv =
     \<lparr>cb_read = Some (\<lambda>receiveTime. TcpConnection_handleRead kw u readv), cb_write = Some (handleWrite kw),
      cb_close = Some (handleClose kw u), cb_error = Some (\<lambda>s. Inr (handleError s))\<rparr>"

definition tc_putc :: "Channel \<Rightarrow> TcpConnection \<Rightarrow> TcpConnection" where
  "tc_putc ch s = s\<lparr>tc_rx := heap_upd (tc_channel s) (\<lambda>_. ch) (tc_rx s)\<rparr>"

text \<open>One turn of the loop over the active channels: the channel is the current one while it is
  handled. The connection exists, so \<^verbatim>\<open>tie_.lock()\<close> finds it.\<close>

definition loop_current :: "bool \<Rightarrow> chan option \<Rightarrow> TcpConnection \<Rightarrow> TcpConnection" where
  "loop_current handling c s = s\<lparr>tc_rx := (tc_rx s)\<lparr>rx_eventHandling := handling, rx_current := c\<rparr>\<rparr>"

definition conn_dispatch ::
    "kwrite \<Rightarrow> user_callbacks \<Rightarrow> (nat list \<Rightarrow> sys_read) \<Rightarrow> Timestamp \<Rightarrow> events \<Rightarrow> TcpConnection \<Rightarrow> TcpConnection res" where
  "conn_dispatch kw u readv t revents s =
     (let s0 = tc_putc (set_revents revents (tc_chan s)) s in
      bindR (handleEvent tc_chan tc_putc (\<lambda>_ _. True) (conn_callbacks kw u readv) t
               (loop_current True (Some (tc_channel s)) s0)) (\<lambda>s1.
      Inr (loop_current False None s1)))"

section \<open>What the callbacks leave alone\<close>

text \<open>A member of the connection changes only the mask and the index of its channel, and nothing of
  the loop but the poller.\<close>

definition same_chan :: "TcpConnection \<Rightarrow> TcpConnection \<Rightarrow> bool" where
  "same_chan s s' \<longleftrightarrow> tc_channel s' = tc_channel s \<and> ch_revents (tc_chan s') = ch_revents (tc_chan s) \<and>
     ch_eventHandling (tc_chan s') = ch_eventHandling (tc_chan s) \<and> ch_tied (tc_chan s') = ch_tied (tc_chan s) \<and>
     ch_tie (tc_chan s') = ch_tie (tc_chan s) \<and> PollPoller.PollPoller.more (tc_rx s') = PollPoller.PollPoller.more (tc_rx s)"

lemma same_chan_refl [simp]: "same_chan s s"
  by (simp add: same_chan_def)

lemma same_chan_trans [trans]: "same_chan s t \<Longrightarrow> same_chan t w \<Longrightarrow> same_chan s w"
  by (simp add: same_chan_def)

lemma same_chan_rx [simp]: "tc_rx s' = tc_rx s \<Longrightarrow> tc_channel s' = tc_channel s \<Longrightarrow> same_chan s s'"
  by (simp add: same_chan_def tc_chan_def)

lemma updateChannel_frame:
  assumes "updateChannel c s = Inr s'"
  shows "(\<exists>i. heap s' = (heap s)(c := set_index i (heap s c))) \<and> PollPoller.PollPoller.more s' = PollPoller.PollPoller.more s"
proof (cases "ch_index (heap s c) < 0")
  case False
  with assms have "heap s' = heap s" "PollPoller.PollPoller.more s' = PollPoller.PollPoller.more s"
    by (auto simp: updateChannel_def bindR_eq_Inr Let_def split: option.splits if_splits)
  then show ?thesis by (intro conjI exI [of _ "ch_index (heap s c)"]) (simp_all add: set_index_def)
qed (use assms in \<open>auto simp: updateChannel_def bindR_eq_Inr Let_def split: if_splits\<close>)

lemma tc_mask_same:
  assumes "tc_mask m s = Inr s'"
  shows "same_chan s s'"
proof -
  let ?h = "heap_upd (tc_channel s) (\<lambda>ch. ch\<lparr>ch_events := mask_of m (ch_events ch)\<rparr>) (tc_rx s)"
  obtain rx where rx: "updateChannel (tc_channel s) ?h = Inr rx" "s' = s\<lparr>tc_rx := rx\<rparr>"
    using assms by (auto simp: tc_mask_def Channel_mask_def EventLoop_updateChannel_def bindR_eq_Inr split: if_splits)
  from updateChannel_frame [OF rx(1)] rx(2) show ?thesis
    by (auto simp: same_chan_def tc_chan_def heap_upd_def set_index_def)
qed

lemma send_direct_same: "send_direct kw data s = (s', n, r, b) \<Longrightarrow> same_chan s s'"
  by (rule same_chan_rx) (auto simp: send_direct_def Let_def split: if_splits prod.splits)

lemma sendInLoop_same:
  assumes "sendInLoop kw data s = Inr s'"
  shows "same_chan s s'"
proof -
  obtain s1 n r b where d: "send_direct kw data s = (s1, n, r, b)" by (cases "send_direct kw data s")
  have rest: "same_chan s1 s'" if r: "send_rest x y s1 = Inr s'" for x y
  proof -
    obtain out where o: "(let s2 = (note_highWaterMark y s1)\<lparr>tc_output := out\<rparr> in
        if \<not> isWriting (tc_chan s2) then tc_mask EnableWriting s2 else Inr s2) = Inr s'"
      using r by (auto simp: send_rest_def Let_def bindR_eq_Inr)
    have "same_chan s1 ((note_highWaterMark y s1)\<lparr>tc_output := out\<rparr>)"
      by (rule same_chan_rx) (simp_all add: note_highWaterMark_def Let_def)
    then show ?thesis using o tc_mask_same by (auto simp: Let_def split: if_splits intro: same_chan_trans)
  qed
  have "s' = s \<or> s' = s1 \<or> (\<exists>x y. send_rest x y s1 = Inr s')"
    using assms d by (auto simp: sendInLoop_def bindR_eq_Inr split: if_splits)
  then show ?thesis using same_chan_trans [OF send_direct_same [OF d] rest] send_direct_same [OF d] by auto
qed

lemma shutdownInLoop_same: "shutdownInLoop s = Inr s' \<Longrightarrow> same_chan s s'"
  by (rule same_chan_rx) (auto simp: shutdownInLoop_def bindR_eq_Inr)

lemma do_user_same:
  assumes "do_user kw call s = Inr s'"
  shows "same_chan s s'"
proof (cases call)
  case (USend d)
  then show ?thesis using assms by (auto simp: send_def split: if_splits dest: sendInLoop_same)
next
  case UShutdown
  have "same_chan (s\<lparr>tc_state := kDisconnecting\<rparr>) s'" if "shutdownInLoop (s\<lparr>tc_state := kDisconnecting\<rparr>) = Inr s'"
    using that by (rule shutdownInLoop_same)
  then show ?thesis
    using assms UShutdown by (auto simp: shutdown_def Let_def split: if_splits intro: same_chan_trans [rotated])
qed (use assms in \<open>auto simp: bindR_eq_Inr forceClose_def forceCloseWithDelay_def setTcpNoDelay_def setHighCompleteCallback_def\<close>)

lemma do_users_same: "foldR (do_user kw) calls s = Inr s' \<Longrightarrow> same_chan s s'"
proof (induction calls arbitrary: s)
  case (Cons c cs)
  then show ?case by (auto simp: bindR_eq_Inr dest!: do_user_same intro: same_chan_trans)
qed simp

lemma call_connection_same: "call_connection kw u s = Inr s' \<Longrightarrow> same_chan s s'"
  unfolding call_connection_def Let_def by (rule same_chan_trans [OF same_chan_rx do_users_same]) simp_all

lemma call_message_same: "call_message kw u s = Inr s' \<Longrightarrow> same_chan s s'"
  unfolding call_message_def Let_def by (rule same_chan_trans [OF same_chan_rx do_users_same]) simp_all

lemma handleClose_same:
  assumes "handleClose kw u s = Inr s'"
  shows "same_chan s s'"
proof -
  obtain s1 s2 where s: "tc_mask DisableAll (s\<lparr>tc_state := kDisconnected\<rparr>) = Inr s1" "call_connection kw u s1 = Inr s2"
    "tc_rx s' = tc_rx s2" "tc_channel s' = tc_channel s2"
    using assms by (auto simp: handleClose_def bindR_eq_Inr split: if_splits)
  have "same_chan s (s\<lparr>tc_state := kDisconnected\<rparr>)" by simp
  also have "same_chan (s\<lparr>tc_state := kDisconnected\<rparr>) s1" using s(1) by (rule tc_mask_same)
  also have "same_chan s1 s2" using s(2) by (rule call_connection_same)
  also have "same_chan s2 s'" using s(3,4) by simp
  finally show ?thesis .
qed

lemma TcpConnection_handleRead_same:
  assumes "TcpConnection_handleRead kw u readv s = Inr s'"
  shows "same_chan s s'"
proof -
  obtain b where "call_message kw u (s\<lparr>tc_input := b\<rparr>) = Inr s' \<or> handleClose kw u (s\<lparr>tc_input := b\<rparr>) = Inr s' \<or>
      s' = handleError (s\<lparr>tc_input := b\<rparr>)"
    using assms by (auto simp: TcpConnection_handleRead_def bindR_eq_Inr Let_def split: if_splits)
  then have "same_chan (s\<lparr>tc_input := b\<rparr>) s'" by (auto simp: handleError_def dest: call_message_same handleClose_same)
  with same_chan_trans [of s "s\<lparr>tc_input := b\<rparr>" s'] show ?thesis by simp
qed

lemma handleError_same: "same_chan s (handleError s)"
  by (simp add: handleError_def)

text \<open>So a dispatch runs the callbacks that the events reported at its start ask for.\<close>

lemma tc_getput [simp]: "tc_chan (tc_putc ch s) = ch" "tc_channel (tc_putc ch s) = tc_channel s"
  by (simp_all add: tc_putc_def tc_chan_def heap_upd_def)

lemma same_chan_bind:
  "bindR f g = Inr s' \<Longrightarrow> (\<And>t. f = Inr t \<Longrightarrow> same_chan s t) \<Longrightarrow> (\<And>t. g t = Inr s' \<Longrightarrow> same_chan t s') \<Longrightarrow> same_chan s s'"
  by (cases f) (auto intro: same_chan_trans)

lemma output_drained_same:
  assumes "output_drained s = Inr s'"
  shows "same_chan s s'"
proof -
  define tail where "tail s2 = (let s3 = (if tc_hasWriteComplete s2 then s2\<lparr>tc_queue := tc_queue s2 @ [QWriteComplete]\<rparr> else s2)
       in if tc_state s3 = kDisconnecting then shutdownInLoop s3 else Inr s3)" for s2
  have t: "same_chan s2 s'" if "tail s2 = Inr s'" for s2
  proof -
    let ?s3 = "if tc_hasWriteComplete s2 then s2\<lparr>tc_queue := tc_queue s2 @ [QWriteComplete]\<rparr> else s2"
    have "same_chan s2 ?s3" by simp
    moreover have "shutdownInLoop ?s3 = Inr s' \<or> s' = ?s3"
      using that unfolding tail_def Let_def by (cases "tc_state ?s3 = kDisconnecting") auto
    ultimately show ?thesis using shutdownInLoop_same same_chan_trans by blast
  qed
  have "bindR (tc_mask DisableWriting s) (\<lambda>s1. if readableBytes (tc_output s1) = 0 then bindR (tc_mask DisableWriting s1) tail else Inr s1) = Inr s'"
    using assms unfolding output_drained_def tail_def .
  then show ?thesis by (rule same_chan_bind) (auto intro: tc_mask_same same_chan_bind t split: if_splits)
qed

lemma handleWrite_same:
  assumes "handleWrite kw s = Inr s'"
  shows "same_chan s s'"
proof -
  have "same_chan s s' \<or> (\<exists>t. same_chan s t \<and> output_drained t = Inr s')"
    using assms by (auto simp: handleWrite_def bindR_eq_Inr Let_def split: if_splits prod.splits)
  then show ?thesis using output_drained_same same_chan_trans by blast
qed

section \<open>A dispatch keeps the connection whole\<close>

text \<open>Bookkeeping of the loop and of the channel does not touch the invariant.\<close>

lemma poller_inv_frame:
  assumes "pollfds s' = pollfds s" "channels s' = channels s"
    "\<And>d. ch_fd (heap s' d) = ch_fd (heap s d) \<and> ch_index (heap s' d) = ch_index (heap s d) \<and> ch_events (heap s' d) = ch_events (heap s d)"
  shows "poller_inv s' = poller_inv s" "registered s' c = registered s c" "rx_idle s' c = rx_idle s c"
  using assms
  by (simp_all add: poller_inv_def poller_struct_def registered_def entry_of_def rx_idle_def isNoneEvent_def)

lemma tc_life_putc [simp]:
  "tc_life (tc_putc ((tc_chan s)\<lparr>ch_eventHandling := b\<rparr>) s) = tc_life s" (is "tc_life (tc_putc ?c s) = _")
  "tc_life (tc_putc (set_revents r (tc_chan s)) s) = tc_life s" (is "tc_life (tc_putc ?d s) = _")
proof -
  have *: "tc_life (tc_putc c s) = tc_life s"
    if "ch_fd c = ch_fd (tc_chan s)" "ch_index c = ch_index (tc_chan s)" "ch_events c = ch_events (tc_chan s)" "ch_loop c = ch_loop (tc_chan s)" for c
  proof -
    let ?r = "tc_rx (tc_putc c s)"
    have h: "pollfds ?r = pollfds (tc_rx s)" "channels ?r = channels (tc_rx s)"
      "\<And>d. ch_fd (heap ?r d) = ch_fd (heap (tc_rx s) d) \<and> ch_index (heap ?r d) = ch_index (heap (tc_rx s) d) \<and>
         ch_events (heap ?r d) = ch_events (heap (tc_rx s) d)"
      using that by (simp_all add: tc_putc_def heap_upd_def tc_chan_def)
    have "on_loop ?r (tc_channel s) = on_loop (tc_rx s) (tc_channel s)" "rx_active ?r = rx_active (tc_rx s)"
      "rx_eventHandling ?r = rx_eventHandling (tc_rx s)" "rx_current ?r = rx_current (tc_rx s)"
      using that(4) by (simp_all add: tc_putc_def heap_upd_def tc_chan_def on_loop_def isInLoopThread_def)
    then have "rx_ready ?r (tc_channel s) = rx_ready (tc_rx s) (tc_channel s)"
      by (simp add: rx_ready_def poller_inv_frame(2) [OF h])
    moreover have "isWriting (tc_chan (tc_putc c s)) = isWriting (tc_chan s)" using that(3) by (simp add: isWriting_def)
    ultimately show ?thesis
      using poller_inv_frame(1,3) [OF h] that(3)
      by (simp add: tc_life_def tc_inv_def notices_def tc_getput) (simp add: tc_putc_def)
  qed
  show "tc_life (tc_putc ?c s) = tc_life s" "tc_life (tc_putc ?d s) = tc_life s"
    by (rule *; simp add: set_revents_def)+
qed

lemma loop_current_simps [simp]:
  "tc_chan (loop_current h c s) = tc_chan s" "tc_channel (loop_current h c s) = tc_channel s" "tc_state (loop_current h c s) = tc_state s"
  "tc_input (loop_current h c s) = tc_input s" "tc_log (loop_current h c s) = tc_log s"
  "rx_eventHandling (tc_rx (loop_current h c s)) = h"
  by (simp_all add: loop_current_def tc_chan_def)

lemma tc_putc_simps [simp]:
  "tc_state (tc_putc c s) = tc_state s" "tc_input (tc_putc c s) = tc_input s" "tc_log (tc_putc c s) = tc_log s"
  "rx_eventHandling (tc_rx (tc_putc c s)) = rx_eventHandling (tc_rx s)"
  by (simp_all add: tc_putc_def heap_upd_def)

lemma tc_life_loop_current:
  assumes "tc_life s" "h \<longrightarrow> c = Some (tc_channel s)"
  shows "tc_life (loop_current h c s)"
proof -
  let ?r = "(tc_rx s)\<lparr>rx_eventHandling := h, rx_current := c\<rparr>"
  have "poller_inv ?r = poller_inv (tc_rx s)" "registered ?r (tc_channel s) = registered (tc_rx s) (tc_channel s)"
    "rx_idle ?r (tc_channel s) = rx_idle (tc_rx s) (tc_channel s)"
    by (rule poller_inv_frame; simp)+
  then show ?thesis
    using assms
    by (simp add: tc_life_def tc_inv_def notices_def rx_ready_def on_loop_def isInLoopThread_def loop_current_def tc_chan_def)
qed

text \<open>A read that the input buffer can take (see theory \<open>Buffer\<close>).\<close>

definition read_ok :: "(nat list \<Rightarrow> sys_read) \<Rightarrow> Buffer \<Rightarrow> bool" where
  "read_ok readv b \<longleftrightarrow>
     (case readv (readFd_iov b) of ReadErr e \<Rightarrow> True
      | ReadOk bs \<Rightarrow> length bs \<le> sum_list (readFd_iov b) \<and> length (buf_data b) + extrabuf_size \<le> MAX_SIZE \<and>
          (length bs \<le> writableBytes b \<or> readerIndex b < length bs - writableBytes b + kCheapPrepend))"

definition end_of_stream :: "(nat list \<Rightarrow> sys_read) \<Rightarrow> Buffer \<Rightarrow> bool" where
  "end_of_stream readv b \<longleftrightarrow> readv (readFd_iov b) = ReadOk []"

lemma readFd_read_ok:
  assumes "buf_inv (tc_input s)" "read_ok readv (tc_input s)"
  shows "\<exists>n e b. readFd readv (tc_input s) = Inr (n, e, b) \<and> (n = 0 \<longleftrightarrow> end_of_stream readv (tc_input s))"
proof (cases "readv (readFd_iov (tc_input s))")
  case (ReadErr e)
  then show ?thesis by (simp add: readFd_error end_of_stream_def)
next
  case (ReadOk bs)
  then show ?thesis
    using readFd_ok [where readv = readv, OF assms(1) ReadOk] assms(2) by (auto simp: read_ok_def end_of_stream_def)
qed

lemma handleRead_ok:
  assumes l: "tc_life s" and k: "kw_contract kw" "user_ok kw u" and live: "tc_state s \<noteq> kDisconnected" and r: "read_ok readv (tc_input s)"
  shows "\<exists>s'. TcpConnection_handleRead kw u readv s = Inr s' \<and> tc_life s' \<and>
     (tc_state s' = kDisconnected \<longleftrightarrow> end_of_stream readv (tc_input s))"
proof -
  have i: "tc_inv s" using l by (simp add: tc_life_def)
  obtain n e b where b: "readFd readv (tc_input s) = Inr (n, e, b)" "n = 0 \<longleftrightarrow> end_of_stream readv (tc_input s)"
    using readFd_read_ok [OF tc_invD(1) [OF i] r] by blast
  have c: "length bs \<le> sum_list (readFd_iov (tc_input s))" if "readv (readFd_iov (tc_input s)) = ReadOk bs" for bs
    using r that by (simp add: read_ok_def)
  have "buf_inv b" by (rule readFd_inv [OF tc_invD(1) [OF i] b(1) c])
  then have i1: "tc_inv (s\<lparr>tc_input := b\<rparr>)" using i by (simp add: tc_inv_def tc_chan_def)
  have run: "TcpConnection_handleRead kw u readv s = (if n > 0 then call_message kw u (s\<lparr>tc_input := b\<rparr>)
      else if n = 0 then handleClose kw u (s\<lparr>tc_input := b\<rparr>) else Inr (handleError (s\<lparr>tc_input := b\<rparr>)))"
    using b(1) by (simp add: TcpConnection_handleRead_def tc_invD(6) [OF i] Let_def)
  obtain s' where s': "TcpConnection_handleRead kw u readv s = Inr s'" "tc_state s' = kDisconnected \<longleftrightarrow> n = 0"
    using run call_message_ok [OF i1 k] handleClose_ok [OF i1 _ k] live
    by (cases "n > 0"; cases "n = 0") (auto simp: handleError_def)
  then show ?thesis using tc_life_read [OF l k live c s'(1)] b(2) by blast
qed

text \<open>A connection between two turns of its loop: established and tied, its channel not busy.\<close>

definition conn_rest :: "TcpConnection \<Rightarrow> bool" where
  "conn_rest s \<longleftrightarrow> tc_life s \<and> ch_tied (tc_chan s) \<and> ch_tie (tc_chan s) \<noteq> None \<and> \<not> ch_eventHandling (tc_chan s) \<and>
     \<not> rx_eventHandling (tc_rx s)"

lemma conn_callbacks_revents: "f \<in> set (dispatched (conn_callbacks kw u readv) t r) \<Longrightarrow> keeps_revents tc_chan f"
  using handleClose_same [of kw u] handleWrite_same [of kw] TcpConnection_handleRead_same [of kw u readv] handleError_same
  by (fastforce simp: dispatched_def conn_callbacks_def call_cb_def keeps_revents_def same_chan_def split: if_splits)

text \<open>The callbacks one after another, on the connection marked as the current one.\<close>

definition conn_run :: "kwrite \<Rightarrow> user_callbacks \<Rightarrow> (nat list \<Rightarrow> sys_read) \<Rightarrow> events \<Rightarrow> TcpConnection \<Rightarrow> TcpConnection res" where
  "conn_run kw u readv r s =
     bindR (if bit r 4 \<and> \<not> bit r 0 then handleClose kw u s else Inr s) (\<lambda>s1.
     bindR (if bit r 3 \<or> bit r 5 then Inr (handleError s1) else Inr s1) (\<lambda>s2.
     bindR (if bit r 0 \<or> bit r 1 \<or> bit r 13 then TcpConnection_handleRead kw u readv s2 else Inr s2) (\<lambda>s3.
     if bit r 2 then handleWrite kw s3 else Inr s3)))"

lemma conn_run_same:
  assumes "conn_run kw u readv r s = Inr s'"
  shows "same_chan s s'"
proof -
  have 1: "same_chan a b" if "(if c then handleClose kw u a else Inr a) = Inr b" for a b c
    using that handleClose_same by (auto split: if_splits)
  have 2: "same_chan a b" if "(if c then Inr (handleError a) else Inr a) = Inr b" for a b c
    using that handleError_same by (auto split: if_splits)
  have 3: "same_chan a b" if "(if c then TcpConnection_handleRead kw u readv a else Inr a) = Inr b" for a b c
    using that TcpConnection_handleRead_same by (auto split: if_splits)
  have 4: "same_chan a b" if "(if c then handleWrite kw a else Inr a) = Inr b" for a b c
    using that handleWrite_same by (auto split: if_splits)
  show ?thesis
    using assms unfolding conn_run_def by (elim same_chan_bind) (simp_all only: 1 2 3 4)
qed

lemma conn_dispatch_run:
  assumes "conn_rest s"
  shows "conn_dispatch kw u readv t r s =
     bindR (conn_run kw u readv r
        (tc_putc ((tc_chan s)\<lparr>ch_revents := r, ch_eventHandling := True\<rparr>) (loop_current True (Some (tc_channel s)) (tc_putc (set_revents r (tc_chan s)) s))))
       (\<lambda>s1. Inr (loop_current False None (tc_putc ((tc_chan s1)\<lparr>ch_eventHandling := False\<rparr>) s1)))"
proof -
  let ?cbs = "conn_callbacks kw u readv"
  let ?s0 = "loop_current True (Some (tc_channel s)) (tc_putc (set_revents r (tc_chan s)) s)"
  have c: "tc_chan ?s0 = (tc_chan s)\<lparr>ch_revents := r\<rparr>" by (simp add: set_revents_def)
  have one: "foldR (\<lambda>f. f) (if b then [f] else []) = (\<lambda>x. if b then f x else Inr x)" for b and f :: "TcpConnection \<Rightarrow> TcpConnection res"
  proof (rule ext)
    show "foldR (\<lambda>f. f) (if b then [f] else []) x = (if b then f x else Inr x)" for x by (cases "f x") auto
  qed
  obtain obj where "ch_tie (tc_chan s) = Some obj" "ch_tied (tc_chan s)" using assms by (auto simp: conn_rest_def)
  then have "handleEvent tc_chan tc_putc (\<lambda>_ _. True) ?cbs t ?s0 = handleEventWithGuard tc_chan tc_putc ?cbs t ?s0"
    by (simp add: handleEvent_def set_revents_def)
  also have "\<dots> = bindR (foldR (\<lambda>f. f) (dispatched ?cbs t r) (tc_putc ((tc_chan s)\<lparr>ch_revents := r, ch_eventHandling := True\<rparr>) ?s0))
       (\<lambda>s. Inr (tc_putc ((tc_chan s)\<lparr>ch_eventHandling := False\<rparr>) s))"
    using handleEventWithGuard_dispatched [of tc_chan tc_putc ?cbs t ?s0] conn_callbacks_revents by (simp add: set_revents_def)
  also have "foldR (\<lambda>f. f) (dispatched ?cbs t r) x = conn_run kw u readv r x" for x
    unfolding dispatched_def conn_run_def foldR_append bindR_assoc one by (simp add: conn_callbacks_def call_cb_def)
  finally show ?thesis by (simp add: conn_dispatch_def bindR_assoc)
qed

text \<open>The events that close the connection, and those that a connection must not be told together: a
  hang-up without data, and urgent data or a half-close.\<close>

definition hangs_up :: "events \<Rightarrow> bool" where
  "hangs_up r \<longleftrightarrow> bit r 4 \<and> \<not> bit r 0"

definition asks_read :: "events \<Rightarrow> bool" where
  "asks_read r \<longleftrightarrow> bit r 0 \<or> bit r 1 \<or> bit r 13"

definition closing :: "events \<Rightarrow> (nat list \<Rightarrow> sys_read) \<Rightarrow> TcpConnection \<Rightarrow> bool" where
  "closing r readv s \<longleftrightarrow> hangs_up r \<or> asks_read r \<and> end_of_stream readv (tc_input s)"

lemma handleError_life:
  "tc_life s \<Longrightarrow> \<exists>s'. (if b then Inr (handleError s) else Inr s :: TcpConnection res) = Inr s' \<and> tc_life s' \<and> tc_state s' = tc_state s \<and> tc_input s' = tc_input s"
  by (simp add: handleError_def tc_life_def notices_def)

lemma handleWrite_life:
  assumes "tc_life s" "kw_contract kw"
  shows "\<exists>s'. (if b then handleWrite kw s else Inr s) = Inr s' \<and> tc_life s' \<and> tc_state s' = tc_state s"
  using handleWrite_ok [of s kw] assms by (auto simp: tc_life_def notices_def)

lemma conn_run_ok:
  assumes l: "tc_life s" and live: "tc_state s \<noteq> kDisconnected" and k: "kw_contract kw" "user_ok kw u"
    and r: "\<not> (hangs_up r \<and> asks_read r)" "asks_read r \<longrightarrow> read_ok readv (tc_input s)"
  shows "\<exists>s'. conn_run kw u readv r s = Inr s' \<and> tc_life s' \<and> (tc_state s' = kDisconnected \<longleftrightarrow> closing r readv s)"
proof -
  have i: "tc_inv s" using l by (simp add: tc_life_def)
  obtain s1 where s1: "(if hangs_up r then handleClose kw u s else Inr s) = Inr s1" "tc_life s1"
    "tc_state s1 = kDisconnected \<longleftrightarrow> hangs_up r" "\<not> hangs_up r \<longrightarrow> s1 = s"
    using handleClose_ok [OF i live k] tc_life_close [OF l live k] l live by (cases "hangs_up r") auto
  obtain s2 where s2: "(if bit r 3 \<or> bit r 5 then Inr (handleError s1) else Inr s1 :: TcpConnection res) = Inr s2" "tc_life s2"
    "tc_state s2 = tc_state s1" "tc_input s2 = tc_input s1"
    using handleError_life [OF s1(2)] by blast
  obtain s3 where s3: "(if asks_read r then TcpConnection_handleRead kw u readv s2 else Inr s2) = Inr s3" "tc_life s3"
    "tc_state s3 = kDisconnected \<longleftrightarrow> closing r readv s"
  proof (cases "asks_read r")
    case True
    then have "read_ok readv (tc_input s2)" "tc_input s2 = tc_input s" "tc_state s2 \<noteq> kDisconnected"
      using r s1(3,4) s2(3,4) live by auto
    with handleRead_ok [OF s2(2) k, of readv] True r(1) that show ?thesis by (auto simp: closing_def)
  next
    case False
    then show ?thesis using that s2(2,3) s1(3) by (simp add: closing_def)
  qed
  obtain s4 where "(if bit r 2 then handleWrite kw s3 else Inr s3) = Inr s4" "tc_life s4" "tc_state s4 = tc_state s3"
    using handleWrite_life [OF s3(2) k(1)] by blast
  moreover have "conn_run kw u readv r s = (if bit r 2 then handleWrite kw s3 else Inr s3)"
    by (simp only: conn_run_def s1(1) [unfolded hangs_up_def] s2(1) s3(1) [unfolded asks_read_def] bindR.simps)
  ultimately show ?thesis using s3(3) by simp
qed

lemma conn_dispatch_ok:
  assumes c: "conn_rest s" and live: "tc_state s \<noteq> kDisconnected" and k: "kw_contract kw" "user_ok kw u"
    and r: "\<not> (hangs_up r \<and> asks_read r)" "asks_read r \<longrightarrow> read_ok readv (tc_input s)"
  shows "\<exists>s'. conn_dispatch kw u readv t r s = Inr s' \<and> conn_rest s' \<and> (tc_state s' = kDisconnected \<longleftrightarrow> closing r readv s)"
proof -
  let ?cur = "loop_current True (Some (tc_channel s)) (tc_putc (set_revents r (tc_chan s)) s)"
  let ?busy = "tc_putc ((tc_chan ?cur)\<lparr>ch_eventHandling := True\<rparr>) ?cur"
  have l: "tc_life s" using c by (simp add: conn_rest_def)
  then have "tc_life ?cur" by (intro tc_life_loop_current) simp_all
  then have l1: "tc_life ?busy" using tc_life_putc(1) [of True ?cur] by blast
  have "read_ok readv (tc_input ?busy) = read_ok readv (tc_input s)" "closing r readv ?busy = closing r readv s"
    by (simp_all add: closing_def)
  with conn_run_ok [OF l1 _ k r(1), of readv] live r(2) obtain s1 where s1: "conn_run kw u readv r ?busy = Inr s1" "tc_life s1"
    "tc_state s1 = kDisconnected \<longleftrightarrow> closing r readv s"
    by auto
  have sc: "ch_tied (tc_chan s1) = ch_tied (tc_chan s)" "ch_tie (tc_chan s1) = ch_tie (tc_chan s)"
    using conn_run_same [OF s1(1)] by (simp_all add: same_chan_def set_revents_def)
  let ?done = "loop_current False None (tc_putc ((tc_chan s1)\<lparr>ch_eventHandling := False\<rparr>) s1)"
  have "conn_dispatch kw u readv t r s = Inr ?done"
    using s1(1) unfolding conn_dispatch_run [OF c] by (simp add: set_revents_def)
  moreover have "conn_rest ?done"
    using s1(2) sc c unfolding conn_rest_def by (auto intro!: tc_life_loop_current)
  ultimately show ?thesis using s1(3) by simp
qed

lemma connectEstablished_rest:
  assumes new: "s0 = TcpConnection_new nm c fd wc hw rx"
    and r: "poller_inv (tc_rx s0)" "fresh (tc_rx s0) c" "on_loop (tc_rx s0) c" "\<not> rx_eventHandling (tc_rx s0)"
    and k: "kw_contract kw" "user_ok kw u"
  shows "\<exists>s. connectEstablished kw u s0 = Inr s \<and> conn_rest s \<and> tc_state s \<noteq> kDisconnected"
proof -
  obtain s where s: "connectEstablished kw u s0 = Inr s" "tc_life s" "tc_state s \<noteq> kDisconnected"
    using connectEstablished_ok [OF assms] by blast
  define s1 where "s1 = s0\<lparr>tc_state := kConnected, tc_rx := heap_upd (tc_channel s0) (Channel_tie (tc_channel s0)) (tc_rx s0)\<rparr>"
  have "bindR (tc_mask EnableReading s1) (call_connection kw u) = Inr s"
    using s(1) by (auto simp: connectEstablished_def bindR_eq_Inr s1_def Let_def split: if_splits)
  then have "same_chan s1 s" using tc_mask_same call_connection_same by (rule same_chan_bind)
  moreover have "ch_tied (tc_chan s1)" "ch_tie (tc_chan s1) \<noteq> None" "\<not> ch_eventHandling (tc_chan s1)" "\<not> rx_eventHandling (tc_rx s1)"
    using r(4) by (simp_all add: s1_def new TcpConnection_new_def tc_chan_def heap_upd_def Channel_tie_def Channel_new_def)
  ultimately have "conn_rest s" using s(2) reactor_fields [of "tc_rx s" "tc_rx s1"] by (simp add: conn_rest_def same_chan_def)
  with s show ?thesis by blast
qed

text \<open>The excluded events: the hang-up has closed the connection when the read finds its end.\<close>

lemma readFd_end: "buf_inv b \<Longrightarrow> readv (readFd_iov b) = ReadOk [] \<Longrightarrow> \<exists>b'. readFd readv b = Inr (0, None, b')"
  by (auto simp: readFd_def mem_write_def hasWritten_def buf_inv_def Let_def bindR_eq_Inr)

lemma handleRead_closed:
  assumes "tc_inv s" "tc_state s = kDisconnected" "\<And>iov. readv iov = ReadOk []"
  shows "TcpConnection_handleRead kw u readv s = Inl (AssertFailed ''state_ == kConnected || state_ == kDisconnecting'')"
proof -
  obtain b where "readFd readv (tc_input s) = Inr (0, None, b)" using readFd_end [where readv = readv, OF tc_invD(1) [OF assms(1)] assms(3)] by blast
  then show ?thesis using assms(2) by (simp add: TcpConnection_handleRead_def handleClose_def tc_invD(6) [OF assms(1)])
qed

lemma conn_dispatch_aborts:
  assumes c: "conn_rest s" and live: "tc_state s \<noteq> kDisconnected" and k: "kw_contract kw" "user_ok kw u"
    and r: "hangs_up r" "asks_read r" "\<And>iov. readv iov = ReadOk []"
  shows "conn_dispatch kw u readv t r s = Inl (AssertFailed ''state_ == kConnected || state_ == kDisconnecting'')"
proof -
  let ?cur = "loop_current True (Some (tc_channel s)) (tc_putc (set_revents r (tc_chan s)) s)"
  let ?busy = "tc_putc ((tc_chan ?cur)\<lparr>ch_eventHandling := True\<rparr>) ?cur"
  have "tc_life ?cur" using c by (intro tc_life_loop_current) (simp_all add: conn_rest_def)
  then have l: "tc_life ?busy" using tc_life_putc(1) [of True ?cur] by blast
  have i: "tc_inv ?busy" using l unfolding tc_life_def by (rule conjunct1)
  have st: "tc_state ?busy \<noteq> kDisconnected" using live by simp
  obtain s1 where s1: "handleClose kw u ?busy = Inr s1" "tc_life s1" "tc_state s1 = kDisconnected"
    using handleClose_ok [OF i st k] tc_life_close [OF l st k] by blast
  obtain s2 where s2: "(if bit r 3 \<or> bit r 5 then Inr (handleError s1) else Inr s1 :: TcpConnection res) = Inr s2" "tc_life s2"
    "tc_state s2 = tc_state s1"
    using handleError_life [OF s1(2)] by blast
  have rd: "TcpConnection_handleRead kw u readv s2 = Inl (AssertFailed ''state_ == kConnected || state_ == kDisconnecting'')"
    using handleRead_closed [of s2] s2(2,3) s1(3) r(3) by (simp add: tc_life_def)
  have b: "bit r 4" "\<not> bit r 0" "bit r 1 \<or> bit r 13" using r(1,2) unfolding hangs_up_def asks_read_def by blast+
  have "conn_run kw u readv r ?busy = Inl (AssertFailed ''state_ == kConnected || state_ == kDisconnecting'')"
    by (simp only: conn_run_def b simp_thms if_True s1(1) bindR.simps s2(1) rd)
  then show ?thesis unfolding conn_dispatch_run [OF c] by (simp add: set_revents_def)
qed

section \<open>What the owner of a connection relies on\<close>

text \<open>A connection just constructed, on a descriptor its poller does not know; the notices of a whole life; and how
  often the close callback was called.\<close>

definition new_ok :: "TcpConnection \<Rightarrow> bool" where
  "new_ok s \<longleftrightarrow> (\<exists>nm c fd wc hw rx. s = TcpConnection_new nm c fd wc hw rx \<and> poller_inv (tc_rx s) \<and> fresh (tc_rx s) c \<and>
     on_loop (tc_rx s) c \<and> \<not> rx_eventHandling (tc_rx s))"

definition whole_life :: "conn_log list" where
  "whole_life = [LConnection True, LConnection False, LClose]"

definition close_calls :: "TcpConnection \<Rightarrow> nat" where
  "close_calls s = count_list (tc_log s) LClose"

lemma new_ok_name: "new_ok (TcpConnection_new nm ch fd wc hw rx) \<Longrightarrow> new_ok (TcpConnection_new nm' ch fd wc hw rx)"
  unfolding new_ok_def by (auto simp: TcpConnection_new_def)

lemma new_ok_established:
  assumes "new_ok s" "kw_contract kw" "user_ok kw u"
  shows "\<exists>s'. connectEstablished kw u s = Inr s' \<and> conn_rest s' \<and> tc_state s' \<noteq> kDisconnected \<and> tc_state s' \<noteq> kConnecting"
proof -
  obtain nm c fd wc hw rx where s: "s = TcpConnection_new nm c fd wc hw rx" "poller_inv (tc_rx s)" "fresh (tc_rx s) c"
    "on_loop (tc_rx s) c" "\<not> rx_eventHandling (tc_rx s)"
    using assms(1) unfolding new_ok_def by blast
  from connectEstablished_rest [OF s assms(2,3)] show ?thesis
    using tc_invD(5) by (auto simp: conn_rest_def tc_life_def)
qed

lemma connectDestroyed_rest:
  assumes "conn_rest s" "tc_state s = kDisconnected"
  shows "\<exists>s'. connectDestroyed kw u s = Inr s' \<and> Channel_destroy (tc_chan s') = Inr () \<and> notices s' = whole_life"
proof -
  have l: "tc_life s" "tc_inv s" using assms(1) by (simp_all add: conn_rest_def tc_life_def)
  have r: "rx_ready (tc_rx s) (tc_channel s)" "rx_idle (tc_rx s) (tc_channel s)" "poller_inv (tc_rx s)"
    using tc_invD(3,4,10) [OF l(2)] assms(2) by simp_all
  obtain rx k where rx: "Channel_remove (tc_channel s) (tc_rx s) = Inr rx"
    "heap rx (tc_channel s) = (heap (tc_rx s) (tc_channel s))\<lparr>ch_index := k\<rparr>"
    using Channel_remove_ok [of "tc_rx s" "tc_channel s"] r unfolding rx_ready_def rx_idle_def by blast
  have "connectDestroyed kw u s = Inr (s\<lparr>tc_rx := rx\<rparr>)"
    using assms(2) rx(1) by (simp add: connectDestroyed_def tc_invD(6) [OF l(2)])
  moreover have "\<not> ch_eventHandling (tc_chan (s\<lparr>tc_rx := rx\<rparr>))" using rx(2) assms(1) by (simp add: tc_chan_def conn_rest_def)
  moreover have "notices (s\<lparr>tc_rx := rx\<rparr>) = whole_life"
    using l(1) assms(2) by (simp add: tc_life_def notices_def whole_life_def)
  ultimately show ?thesis by (simp add: Channel_destroy_def)
qed

lemma close_calls_life: "tc_life s \<Longrightarrow> close_calls s = (if tc_state s = kDisconnected then 1 else 0)"
proof -
  assume l: "tc_life s"
  have "count_list (filter P xs) x = (if P x then count_list xs x else 0)" for P xs and x :: conn_log
    by (induction xs) auto
  from this [of "\<lambda>x. x \<noteq> LMessage \<and> x \<noteq> LError" "tc_log s" LClose]
  have "close_calls s = count_list (notices s) LClose" by (simp add: close_calls_def notices_def)
  then show ?thesis using l by (simp add: tc_life_def)
qed

lemma conn_rest_same:
  assumes "conn_rest s" "tc_life s'" "same_chan s s'"
  shows "conn_rest s'"
  using assms reactor_fields [of "tc_rx s'" "tc_rx s"] by (simp add: conn_rest_def same_chan_def)

lemma do_users_rest:
  assumes c: "conn_rest s" and k: "kw_contract kw" "ucalls_ok kw calls s"
  shows "\<exists>s'. foldR (do_user kw) calls s = Inr s' \<and> conn_rest s' \<and> (tc_state s' = kDisconnected \<longleftrightarrow> tc_state s = kDisconnected)"
proof -
  have l: "tc_life s" using c by (simp add: conn_rest_def)
  then obtain s' where s': "foldR (do_user kw) calls s = Inr s'" "tc_inv s'" "tc_log s' = tc_log s"
    "tc_state s' = kDisconnected \<longleftrightarrow> tc_state s = kDisconnected"
    using do_users_ok [of s kw calls] k by (auto simp: tc_life_def)
  have "tc_life s'" by (rule tc_life_frame [OF l s'(2) _ s'(4)]) (simp add: notices_def s'(3))
  from conn_rest_same [OF c this do_users_same [OF s'(1)]] s' show ?thesis by blast
qed

lemma delayed_close_rest:
  assumes c: "conn_rest s" and k: "kw_contract kw" "user_ok kw u"
  shows "\<exists>s'. delayed_close kw u True s = Inr s' \<and> conn_rest s' \<and> tc_state s' = kDisconnected"
proof (cases "tc_state s = kDisconnected")
  case True
  then show ?thesis
    using c tc_invD(6) [of s] by (simp add: delayed_close_def WeakCallback_call_def forceCloseInLoop_def conn_rest_def tc_life_def)
next
  case False
  have l: "tc_life s" "tc_inv s" using c by (simp_all add: conn_rest_def tc_life_def)
  obtain s' where s': "handleClose kw u s = Inr s'" "tc_state s' = kDisconnected" using handleClose_ok [OF l(2) False k] by blast
  have "conn_rest s'" by (rule conn_rest_same [OF c tc_life_close [OF l(1) False k s'(1)] handleClose_same [OF s'(1)]])
  moreover have "tc_state s = kConnected \<or> tc_state s = kDisconnecting" using False tc_invD(5) [OF l(2)] by (cases "tc_state s") auto
  ultimately show ?thesis
    using s' tc_invD(6) [OF l(2)] by (simp add: delayed_close_def WeakCallback_call_def forceCloseInLoop_def)
qed

text \<open>The contract: a new connection can be established, an event or a call leaves it at rest and perhaps closed, the close
  callback is called exactly when it becomes closed, and a closed connection can be destroyed.\<close>

locale connection_contract =
  fixes new rest closed :: "'s \<Rightarrow> bool"
    and establish destroy :: "'s \<Rightarrow> 's res"
    and closes :: "'s \<Rightarrow> nat"
  assumes establish_ok: "new s \<Longrightarrow> \<exists>s'. establish s = Inr s' \<and> rest s' \<and> \<not> closed s'"
    and destroy_ok: "rest s \<Longrightarrow> closed s \<Longrightarrow> \<exists>s'. destroy s = Inr s'"
    and closes_closed: "rest s \<Longrightarrow> closes s = (if closed s then 1 else 0)"
begin

lemma closes_grows:
  assumes "rest s" "rest s'" "closed s \<Longrightarrow> closed s'"
  shows "closes s < closes s' \<longleftrightarrow> \<not> closed s \<and> closed s'"
  using assms by (auto simp: closes_closed)

lemma whole_cycle:
  assumes "new s" "\<And>t. rest t \<Longrightarrow> \<not> closed t \<Longrightarrow> \<exists>t'. close t = Inr t' \<and> rest t' \<and> closed t'"
  shows "\<exists>s'. bindR (bindR (establish s) close) destroy = Inr s'"
proof -
  obtain t where t: "establish s = Inr t" "rest t" "\<not> closed t" using establish_ok [OF assms(1)] by blast
  moreover obtain t' where "close t = Inr t'" "rest t'" "closed t'" using assms(2) [OF t(2,3)] by blast
  ultimately show ?thesis using destroy_ok by simp
qed

end

interpretation owned: connection_contract "\<lambda>s. kw_contract kw \<and> user_ok kw u \<and> new_ok s" conn_rest "\<lambda>s. tc_state s = kDisconnected"
  "connectEstablished kw u" "connectDestroyed kw u" close_calls for kw u
  by unfold_locales (use new_ok_established connectDestroyed_rest close_calls_life in \<open>fastforce simp: conn_rest_def\<close>)+

lemma new_ok_example: "new_ok (TcpConnection_new nm 0 7 False False rx_example)"
proof -
  have rx: "tc_rx (TcpConnection_new nm 0 7 False False rx_example) = rx_example" by (simp add: TcpConnection_new_def)
  show ?thesis unfolding new_ok_def rx by (intro exI conjI, rule refl) (use rx_example_ok in simp_all)
qed

section \<open>Properties\<close>



end
