(* ===== verification/ServerLife.thy ===== *)
theory ServerLife
  imports Server ConnDispatch
begin

text \<open>
  A \<^verbatim>\<open>TcpServer\<close> with its connections and its loops (\<^verbatim>\<open>src/net/TcpServer.cc\<close>, \<^verbatim>\<open>src/net/TcpConnection.cc\<close>,
  \<^verbatim>\<open>src/net/EventLoop.cc\<close>). The server runs in its own loop; a connection runs in the loop it was given, which is
  another one when the server has threads. They talk through functors: \<^verbatim>\<open>newConnection()\<close> sends
  \<^verbatim>\<open>connectEstablished\<close> to the loop of the connection, the close callback sends \<^verbatim>\<open>removeConnectionInLoop\<close> to the loop of
  the server, and that one queues \<^verbatim>\<open>connectDestroyed\<close> back. A loop runs its functors in order; everything else may
  interleave.

  Every connection is a \<^verbatim>\<open>TcpConnection\<close> of theory \<open>TcpConnection\<close> with its own view of the poller of its loop: members of
  one channel leave the others of the poller alone (\<open>Channel_mask_others\<close>). An object exists from
  \<^verbatim>\<open>newConnection()\<close> to the end of \<^verbatim>\<open>connectDestroyed()\<close>, whose functor holds the last pointer to it.
\<close>

section \<open>State\<close>

record Sys =
  ss_server :: TcpServer
  ss_main :: "conn list"
  ss_io :: "nat \<Rightarrow> conn_task list"
  ss_conn :: "conn \<rightharpoonup> TcpConnection"
  ss_gone :: "(conn \<times> conn_log list) list"

definition Sys_new :: "TcpServer \<Rightarrow> Sys" where
  "Sys_new sv = \<lparr>ss_server = sv, ss_main = [], ss_io = (\<lambda>_. []), ss_conn = (\<lambda>_. None), ss_gone = []\<rparr>"

definition ss_base :: "Sys \<Rightarrow> nat" where
  "ss_base sys = ep_baseLoop (sv_pool (ss_server sys))"

fun task_conn :: "conn_task \<Rightarrow> conn" where
  "task_conn (RunEstablished c) = c"
| "task_conn (QueueDestroyed c) = c"
| "task_conn (RunDestroyed c) = c"

definition push_io :: "conn_task \<Rightarrow> Sys \<Rightarrow> Sys" where
  "push_io t sys = (let l = cn_loop (task_conn t) in sys\<lparr>ss_io := (ss_io sys)(l := ss_io sys l @ [t])\<rparr>)"

definition put_conn :: "conn \<Rightarrow> TcpConnection \<Rightarrow> Sys \<Rightarrow> Sys" where
  "put_conn c s sys = sys\<lparr>ss_conn := (ss_conn sys)(c \<mapsto> s)\<rparr>"

text \<open>A member call through a pointer to a connection that no longer exists is a fault.\<close>

definition with_conn :: "conn \<Rightarrow> Sys \<Rightarrow> (TcpConnection \<Rightarrow> Sys res) \<Rightarrow> Sys res" where
  "with_conn c sys f = (case ss_conn sys c of None \<Rightarrow> Inl OutOfBounds | Some s \<Rightarrow> f s)"

section \<open>Functors\<close>

text \<open>The end of the last functor: the object goes with its channel.\<close>

definition destroy_conn :: "kwrite \<Rightarrow> user_callbacks \<Rightarrow> conn \<Rightarrow> Sys \<Rightarrow> Sys res" where
  "destroy_conn kw u c sys =
     with_conn c sys (\<lambda>s.
     bindR (connectDestroyed kw u s) (\<lambda>s1.
     bindR (Channel_destroy (tc_chan s1)) (\<lambda>_.
     Inr (sys\<lparr>ss_conn := (ss_conn sys)(c := None), ss_gone := ss_gone sys @ [(c, notices s1)]\<rparr>))))"

fun run_task :: "kwrite \<Rightarrow> user_callbacks \<Rightarrow> conn_task \<Rightarrow> Sys \<Rightarrow> Sys res" where
  "run_task kw u (RunEstablished c) sys = with_conn c sys (\<lambda>s. bindR (connectEstablished kw u s) (\<lambda>s1. Inr (put_conn c s1 sys)))"
| "run_task kw u (QueueDestroyed c) sys = destroy_conn kw u c sys"
| "run_task kw u (RunDestroyed c) sys = destroy_conn kw u c sys"

text \<open>What the server, in its own thread, asks of the loop of a connection: \<^verbatim>\<open>runInLoop\<close> runs at once when that is
  its own loop, \<^verbatim>\<open>queueInLoop\<close> never does.\<close>

fun deliver :: "kwrite \<Rightarrow> user_callbacks \<Rightarrow> conn_task \<Rightarrow> Sys \<Rightarrow> Sys res" where
  "deliver kw u (QueueDestroyed c) sys = Inr (push_io (QueueDestroyed c) sys)"
| "deliver kw u t sys = (if cn_loop (task_conn t) = ss_base sys then run_task kw u t sys else Inr (push_io t sys))"

definition new_tasks :: "TcpServer \<Rightarrow> TcpServer \<Rightarrow> conn_task list" where
  "new_tasks sv sv' = drop (length (sv_tasks sv)) (sv_tasks sv')"

definition run_removal :: "kwrite \<Rightarrow> user_callbacks \<Rightarrow> conn \<Rightarrow> Sys \<Rightarrow> Sys res" where
  "run_removal kw u c sys =
     bindR (removeConnectionInLoop c (ss_server sys)) (\<lambda>sv.
     foldR (deliver kw u) (new_tasks (ss_server sys) sv) (sys\<lparr>ss_server := sv\<rparr>))"

text \<open>\<^verbatim>\<open>removeConnection()\<close>, the close callback, in the thread of the connection.\<close>

definition removeConnection :: "kwrite \<Rightarrow> user_callbacks \<Rightarrow> conn \<Rightarrow> Sys \<Rightarrow> Sys res" where
  "removeConnection kw u c sys =
     (if cn_loop c = ss_base sys then run_removal kw u c sys else Inr (sys\<lparr>ss_main := ss_main sys @ [c]\<rparr>))"

text \<open>A member of a connection has run: if it called the close callback, which is then the last thing
  it did, the server hears of it.\<close>

definition settle :: "kwrite \<Rightarrow> user_callbacks \<Rightarrow> conn \<Rightarrow> TcpConnection \<Rightarrow> TcpConnection \<Rightarrow> Sys \<Rightarrow> Sys res" where
  "settle kw u c s s1 sys =
     (let sys1 = put_conn c s1 sys in if close_calls s < close_calls s1 then removeConnection kw u c sys1 else Inr sys1)"

text \<open>The part of \<^verbatim>\<open>newConnection()\<close> that creates the object, on the tasks the server then has for it.\<close>

fun open_conn :: "kwrite \<Rightarrow> user_callbacks \<Rightarrow> (string \<Rightarrow> TcpConnection) \<Rightarrow> conn_task \<Rightarrow> Sys \<Rightarrow> Sys res" where
  "open_conn kw u new (RunEstablished c) sys = deliver kw u (RunEstablished c) (put_conn c (new (cn_name c)) sys)"
| "open_conn kw u new t sys = deliver kw u t sys"

section \<open>Events\<close>

datatype life_ev = Accept nat chan int bool bool Reactor | ServerTurn | IoTurn nat
  | Dispatch conn "nat list \<Rightarrow> sys_read" Timestamp events | UserCalls conn "user_call list" | ForceClose conn

fun life_do :: "kwrite \<Rightarrow> user_callbacks \<Rightarrow> life_ev \<Rightarrow> Sys \<Rightarrow> Sys res" where
  "life_do kw u (Accept ptr ch sockfd wc hw rx) sys =
     bindR (TcpServer_newConnection ptr (ss_server sys)) (\<lambda>sv.
     foldR (open_conn kw u (\<lambda>nm. TcpConnection_new nm ch sockfd wc hw rx)) (new_tasks (ss_server sys) sv) (sys\<lparr>ss_server := sv\<rparr>))"
| "life_do kw u ServerTurn sys =
     (case ss_main sys of [] \<Rightarrow> Inr sys | c # cs \<Rightarrow> run_removal kw u c (sys\<lparr>ss_main := cs\<rparr>))"
| "life_do kw u (IoTurn l) sys =
     (case ss_io sys l of [] \<Rightarrow> Inr sys | t # ts \<Rightarrow> run_task kw u t (sys\<lparr>ss_io := (ss_io sys)(l := ts)\<rparr>))"
| "life_do kw u (Dispatch c readv t r) sys =
     with_conn c sys (\<lambda>s. bindR (conn_dispatch kw u readv t r s) (\<lambda>s1. settle kw u c s s1 sys))"
| "life_do kw u (UserCalls c calls) sys =
     with_conn c sys (\<lambda>s. bindR (foldR (do_user kw) calls s) (\<lambda>s1. settle kw u c s s1 sys))"
| "life_do kw u (ForceClose c) sys =
     (case ss_conn sys c of None \<Rightarrow> Inr sys
      | Some s \<Rightarrow> bindR (delayed_close kw u True s) (\<lambda>s1. settle kw u c s s1 sys))"

text \<open>When an event may come: the constructor of an accepted connection finds its descriptor unused in the
  poller of its loop, the poller reports only channels that wait for events, and users call members of connections
  they have been told of.\<close>

fun life_ok :: "kwrite \<Rightarrow> life_ev \<Rightarrow> Sys \<Rightarrow> bool" where
  "life_ok kw (Accept ptr ch sockfd wc hw rx) sys \<longleftrightarrow>
     sv_nextConnId (ss_server sys) < 10 ^ 8 \<and> new_ok (TcpConnection_new [] ch sockfd wc hw rx)"
| "life_ok kw ServerTurn sys \<longleftrightarrow> True"
| "life_ok kw (IoTurn l) sys \<longleftrightarrow> True"
| "life_ok kw (Dispatch c readv t r) sys \<longleftrightarrow>
     (case ss_conn sys c of None \<Rightarrow> False
      | Some s \<Rightarrow> (tc_state s = kConnected \<or> tc_state s = kDisconnecting) \<and> \<not> (hangs_up r \<and> asks_read r) \<and>
          (asks_read r \<longrightarrow> read_ok readv (tc_input s)))"
| "life_ok kw (UserCalls c calls) sys \<longleftrightarrow>
     (case ss_conn sys c of None \<Rightarrow> False | Some s \<Rightarrow> tc_state s \<noteq> kConnecting \<and> ucalls_ok kw calls s)"
| "life_ok kw (ForceClose c) sys \<longleftrightarrow> (case ss_conn sys c of None \<Rightarrow> True | Some s \<Rightarrow> tc_state s \<noteq> kConnecting)"

section \<open>The phases of a connection\<close>

text \<open>Where a connection is in its life is seen in four places: the object, the table of the server, the
  functors queued on the server's loop and those queued on its own loop. Only these combinations occur.\<close>

definition phase :: "conn \<Rightarrow> TcpConnection option \<Rightarrow> bool \<Rightarrow> nat \<Rightarrow> conn_task list \<Rightarrow> bool" where
  "phase c obj listed removals tasks \<longleftrightarrow>
     (case obj of
        None \<Rightarrow> \<not> listed \<and> removals = 0 \<and> tasks = []
      | Some s \<Rightarrow>
          if tc_state s = kConnecting then new_ok s \<and> listed \<and> removals = 0 \<and> tasks = [RunEstablished c]
          else conn_rest s \<and>
            (if tc_state s \<noteq> kDisconnected then listed \<and> removals = 0 \<and> tasks = []
             else if listed then removals = 1 \<and> tasks = []
             else removals = 0 \<and> tasks = [QueueDestroyed c]))"

definition listed :: "Sys \<Rightarrow> conn \<Rightarrow> bool" where
  "listed sys c \<longleftrightarrow> sv_connections (ss_server sys) (cn_name c) = Some c"

definition tasks_of :: "Sys \<Rightarrow> conn \<Rightarrow> conn_task list" where
  "tasks_of sys c = filter (\<lambda>t. task_conn t = c) (ss_io sys (cn_loop c))"

abbreviation conn_phase :: "Sys \<Rightarrow> conn \<Rightarrow> bool" where
  "conn_phase sys c \<equiv> phase c (ss_conn sys c) (listed sys c) (count_list (ss_main sys) c) (tasks_of sys c)"

definition pool_ok :: "EventLoopThreadPool \<Rightarrow> bool" where
  "pool_ok p \<longleftrightarrow> ep_loops p = [] \<or> (0 \<le> ep_next p \<and> nat (ep_next p) < length (ep_loops p) \<and> length (ep_loops p) < 2 ^ 31)"

definition numbered :: "TcpServer \<Rightarrow> conn \<Rightarrow> bool" where
  "numbered sv c \<longleftrightarrow> (\<exists>i. 1 \<le> i \<and> i < sv_nextConnId sv \<and> cn_name c = connName (sv_name sv) (sv_hostport sv) i)"

definition server_wf :: "TcpServer \<Rightarrow> bool" where
  "server_wf sv \<longleftrightarrow> pool_ok (sv_pool sv) \<and> 1 \<le> sv_nextConnId sv \<and> sv_nextConnId sv \<le> 10 ^ 8 \<and> length (sv_hostport sv) \<le> 21 \<and>
     (\<forall>k c. sv_connections sv k = Some c \<longrightarrow> cn_name c = k)"

text \<open>Connections that are gone had their whole life: up, down, closed.\<close>

definition gone_ok :: "Sys \<Rightarrow> bool" where
  "gone_ok sys \<longleftrightarrow> distinct (map fst (ss_gone sys)) \<and>
     (\<forall>(c, ns) \<in> set (ss_gone sys). ns = whole_life \<and> ss_conn sys c = None \<and> numbered (ss_server sys) c)"

definition life_inv :: "Sys \<Rightarrow> bool" where
  "life_inv sys \<longleftrightarrow> server_wf (ss_server sys) \<and> gone_ok sys \<and> (\<forall>c. conn_phase sys c) \<and>
     (\<forall>c. ss_conn sys c \<noteq> None \<longrightarrow> numbered (ss_server sys) c) \<and>
     (\<forall>l. \<forall>t \<in> set (ss_io sys l). cn_loop (task_conn t) = l)"

lemma getNextLoop_total:
  assumes "pool_ok p"
  obtains l p' where "getNextLoop p = Inr (l, p')" "pool_ok p'" "ep_baseLoop p' = ep_baseLoop p"
proof (cases "ep_loops p = []")
  case True
  with that [of "ep_baseLoop p" p] assms show ?thesis by (simp add: getNextLoop_def)
next
  case False
  then have n: "ep_next p = int (nat (ep_next p))" "nat (ep_next p) < length (ep_loops p)" "length (ep_loops p) < 2 ^ 31"
    using assms by (simp_all add: pool_ok_def)
  show ?thesis
  proof (rule that)
    show "getNextLoop p = Inr (ep_loops p ! nat (ep_next p), p\<lparr>ep_next := int (Suc (nat (ep_next p)) mod length (ep_loops p))\<rparr>)"
      by (rule getNextLoop_ok [OF refl False n(3,1,2)])
    show "pool_ok (p\<lparr>ep_next := int (Suc (nat (ep_next p)) mod length (ep_loops p))\<rparr>)"
      using n(3) False by (simp add: pool_ok_def)
  qed simp
qed

text \<open>A step that concerns one connection.\<close>

lemma life_inv_at:
  assumes i: "life_inv sys" and wf: "server_wf (ss_server sys')" "gone_ok sys'"
    and c: "conn_phase sys' c" "ss_conn sys' c \<noteq> None \<longrightarrow> numbered (ss_server sys') c"
    and others: "\<And>d. d \<noteq> c \<Longrightarrow> ss_conn sys' d = ss_conn sys d \<and> listed sys' d = listed sys d \<and>
        count_list (ss_main sys') d = count_list (ss_main sys) d \<and> tasks_of sys' d = tasks_of sys d"
    and num: "\<And>d. numbered (ss_server sys) d \<Longrightarrow> numbered (ss_server sys') d"
    and io: "\<And>l t. t \<in> set (ss_io sys' l) \<Longrightarrow> t \<in> set (ss_io sys l) \<or> cn_loop (task_conn t) = l"
  shows "life_inv sys'"
proof -
  have "conn_phase sys' d" for d using c(1) others [of d] i by (cases "d = c") (auto simp: life_inv_def)
  moreover have "numbered (ss_server sys') d" if "ss_conn sys' d \<noteq> None" for d
    using c(2) others [of d] i that num by (cases "d = c") (auto simp: life_inv_def)
  moreover have "\<forall>l. \<forall>t \<in> set (ss_io sys' l). cn_loop (task_conn t) = l" using i io by (fastforce simp: life_inv_def)
  ultimately show ?thesis using wf by (simp add: life_inv_def)
qed

section \<open>Members of the server and of its connections\<close>

lemma numbered_frame [simp]: "numbered (sv\<lparr>sv_connections := m, sv_tasks := ts\<rparr>) c = numbered sv c"
  by (simp add: numbered_def)

lemma tasks_of_push [simp]: "tasks_of (push_io t sys) d = tasks_of sys d @ (if task_conn t = d then [t] else [])"
  by (auto simp: tasks_of_def push_io_def Let_def)

lemma push_io_simps [simp]:
  "ss_server (push_io t sys) = ss_server sys" "ss_conn (push_io t sys) = ss_conn sys" "ss_main (push_io t sys) = ss_main sys"
  "ss_gone (push_io t sys) = ss_gone sys" "listed (push_io t sys) = listed sys"
  by (simp_all add: push_io_def Let_def listed_def fun_eq_iff)

lemma push_io_set: "x \<in> set (ss_io (push_io t sys) l) \<Longrightarrow> x \<in> set (ss_io sys l) \<or> cn_loop (task_conn x) = l"
  by (auto simp: push_io_def Let_def split: if_splits)

lemma put_conn_simps [simp]:
  "ss_server (put_conn c s sys) = ss_server sys" "ss_conn (put_conn c s sys) = (ss_conn sys)(c \<mapsto> s)" "ss_main (put_conn c s sys) = ss_main sys"
  "ss_gone (put_conn c s sys) = ss_gone sys" "listed (put_conn c s sys) = listed sys" "ss_io (put_conn c s sys) = ss_io sys"
  "tasks_of (put_conn c s sys) = tasks_of sys" "ss_base (put_conn c s sys) = ss_base sys"
  by (simp_all add: put_conn_def listed_def fun_eq_iff tasks_of_def ss_base_def)

lemma tasks_of_pop:
  assumes "ss_io sys l = t # ts" "cn_loop (task_conn t) = l"
  shows "tasks_of sys d = (if task_conn t = d then [t] else []) @ tasks_of (sys\<lparr>ss_io := (ss_io sys)(l := ts)\<rparr>) d"
  using assms by (auto simp: tasks_of_def)

lemma tasks_of_cong: "ss_io sys' = ss_io sys \<Longrightarrow> tasks_of sys' = tasks_of sys"
  by (simp add: tasks_of_def fun_eq_iff)

definition removed :: "conn \<Rightarrow> TcpServer \<Rightarrow> TcpServer" where
  "removed c sv = sv\<lparr>sv_connections := (sv_connections sv)(cn_name c := None), sv_tasks := sv_tasks sv @ [QueueDestroyed c]\<rparr>"

lemma run_removal_eq:
  assumes "listed sys c"
  shows "run_removal kw u c sys = Inr (push_io (QueueDestroyed c) (sys\<lparr>ss_server := removed c (ss_server sys)\<rparr>))"
  using assms by (simp add: run_removal_def removeConnectionInLoop_def listed_def new_tasks_def removed_def Let_def)

lemma removed_wf: "server_wf sv \<Longrightarrow> server_wf (removed c sv)"
  by (simp add: server_wf_def removed_def)

lemma removed_numbered [simp]: "numbered (removed c sv) d = numbered sv d"
  by (simp add: removed_def)

lemma listed_removed:
  "listed sys c \<Longrightarrow> listed (sys'\<lparr>ss_server := removed c (ss_server sys)\<rparr>) d \<longleftrightarrow> d \<noteq> c \<and> listed sys d"
  by (auto simp: listed_def removed_def)

text \<open>The removal of a listed connection that is closed and for which nothing else is on its way.\<close>

lemma run_removal_inv:
  assumes i: "life_inv sys0" and eq: "ss_server sys = ss_server sys0" "ss_gone sys = ss_gone sys0" "ss_io sys = ss_io sys0"
      "\<And>d. d \<noteq> c \<Longrightarrow> ss_conn sys d = ss_conn sys0 d \<and> count_list (ss_main sys) d = count_list (ss_main sys0) d"
    and c: "ss_conn sys0 c \<noteq> None" "ss_conn sys c = Some s" "conn_rest s" "tc_state s = kDisconnected" "listed sys0 c"
      "tasks_of sys0 c = []" "count_list (ss_main sys) c = 0"
  shows "\<exists>sys'. run_removal kw u c sys = Inr sys' \<and> life_inv sys'"
proof -
  let ?s1 = "sys\<lparr>ss_server := removed c (ss_server sys)\<rparr>"
  have lc: "listed sys c" using c(5) eq(1) by (simp add: listed_def)
  have l: "listed ?s1 d \<longleftrightarrow> d \<noteq> c \<and> listed sys0 d" for d
    using listed_removed [OF lc, of sys d] eq(1) by (simp add: listed_def)
  have t: "tasks_of ?s1 = tasks_of sys0" by (rule tasks_of_cong) (simp add: eq(3))
  have num: "numbered (ss_server sys0) c" "server_wf (ss_server sys0)" "gone_ok sys0" using i c(1) by (simp_all add: life_inv_def)
  have ph: "phase c (Some s) False 0 [QueueDestroyed c]" using c(3,4) by (simp add: phase_def)
  have "c \<notin> fst ` set (ss_gone sys0)" using num(3) c(1) by (fastforce simp: gone_ok_def)
  then have g: "gone_ok (push_io (QueueDestroyed c) ?s1)" using num(3) eq by (fastforce simp: gone_ok_def)
  have "life_inv (push_io (QueueDestroyed c) ?s1)"
  proof (rule life_inv_at [OF i, where c = c])
    show "conn_phase (push_io (QueueDestroyed c) ?s1) c" using ph c(2,6,7) by (simp add: l t)
    show "x \<in> set (ss_io sys0 k) \<or> cn_loop (task_conn x) = k" if "x \<in> set (ss_io (push_io (QueueDestroyed c) ?s1) k)" for k x
      using push_io_set [OF that] eq(3) by simp
  qed (use num g eq l t removed_wf in simp_all)
  then show ?thesis using run_removal_eq [OF lc] by simp
qed

section \<open>Every event keeps the phases\<close>

lemma put_conn_inv:
  assumes i: "life_inv sys" and c: "ss_conn sys c \<noteq> None" and ph: "phase c (Some s) (listed sys c) (count_list (ss_main sys) c) (tasks_of sys c)"
  shows "life_inv (put_conn c s sys)"
proof (rule life_inv_at [OF i, where c = c])
  have "gone_ok sys" using i by (simp add: life_inv_def)
  with c show "gone_ok (put_conn c s sys)" by (fastforce simp: gone_ok_def)
qed (use i c ph in \<open>simp_all add: life_inv_def\<close>)

text \<open>After a member of a connection has run.\<close>

lemma settle_ok:
  assumes i: "life_inv sys" and c: "ss_conn sys c = Some s" "tc_state s \<noteq> kConnecting"
    and s1: "conn_rest s1" "tc_state s = kDisconnected \<longrightarrow> tc_state s1 = kDisconnected"
  shows "\<exists>sys'. settle kw u c s s1 sys = Inr sys' \<and> life_inv sys'"
proof -
  have ph: "conn_phase sys c" using i by (simp add: life_inv_def)
  then have r: "conn_rest s" using c by (simp add: phase_def)
  have st1: "tc_state s1 \<noteq> kConnecting" using s1(1) tc_invD(5) by (simp add: conn_rest_def tc_life_def)
  have closed: "close_calls s < close_calls s1 \<longleftrightarrow> tc_state s \<noteq> kDisconnected \<and> tc_state s1 = kDisconnected"
    by (rule owned.closes_grows [OF r s1(1)]) (use s1(2) in blast)
  show ?thesis
  proof (cases "tc_state s \<noteq> kDisconnected \<and> tc_state s1 = kDisconnected")
    case False
    then have "phase c (Some s1) (listed sys c) (count_list (ss_main sys) c) (tasks_of sys c)"
      using ph c s1 st1 by (auto simp: phase_def)
    with put_conn_inv [OF i] c(1) have "life_inv (put_conn c s1 sys)" by simp
    then show ?thesis using closed False unfolding settle_def Let_def by auto
  next
    case True
    note closes = True [THEN conjunct1] True [THEN conjunct2]
    have p: "listed sys c" "count_list (ss_main sys) c = 0" "tasks_of sys c = []"
      using ph c closes(1) by (simp_all add: phase_def)
    have run: "settle kw u c s s1 sys = removeConnection kw u c (put_conn c s1 sys)" using closed True by (simp add: settle_def)
    show ?thesis
    proof (cases "cn_loop c = ss_base sys")
      case base: True
      have "\<exists>sys'. run_removal kw u c (put_conn c s1 sys) = Inr sys' \<and> life_inv sys'"
        by (rule run_removal_inv [OF i]) (use c s1 closes p in simp_all)
      then show ?thesis using run base by (simp add: removeConnection_def)
    next
      case False
      let ?sys = "(put_conn c s1 sys)\<lparr>ss_main := ss_main sys @ [c]\<rparr>"
      have t: "tasks_of ?sys = tasks_of sys" "listed ?sys = listed sys"
        by (simp_all add: tasks_of_def listed_def fun_eq_iff)
      have "gone_ok sys" using i by (simp add: life_inv_def)
      then have g: "gone_ok ?sys" using c(1) by (fastforce simp: gone_ok_def)
      have "life_inv ?sys"
        by (rule life_inv_at [OF i, where c = c]) (use i c s1 closes p t g in \<open>simp_all add: life_inv_def phase_def\<close>)
      then show ?thesis using run False by (simp add: removeConnection_def)
    qed
  qed
qed

lemma life_main:
  assumes i: "life_inv sys"
  shows "\<exists>sys'. life_do kw u ServerTurn sys = Inr sys' \<and> life_inv sys'"
proof (cases "ss_main sys")
  case Nil
  with i show ?thesis by simp
next
  case (Cons c cs)
  have ph: "conn_phase sys c" using i by (simp add: life_inv_def)
  then obtain s where s: "ss_conn sys c = Some s" using Cons by (cases "ss_conn sys c") (simp_all add: phase_def)
  have p: "conn_rest s" "tc_state s = kDisconnected" "listed sys c" "tasks_of sys c = []" "count_list cs c = 0"
    using ph Cons s by (auto simp: phase_def split: if_splits)
  have "\<exists>sys'. run_removal kw u c (sys\<lparr>ss_main := cs\<rparr>) = Inr sys' \<and> life_inv sys'"
    by (rule run_removal_inv [OF i]) (use s p Cons in simp_all)
  then show ?thesis using Cons by simp
qed

lemma life_io:
  assumes i: "life_inv sys" and k: "kw_contract kw" "user_ok kw u"
  shows "\<exists>sys'. life_do kw u (IoTurn l) sys = Inr sys' \<and> life_inv sys'"
proof (cases "ss_io sys l")
  case Nil
  with i show ?thesis by simp
next
  case (Cons t ts)
  define sys1 where "sys1 = sys\<lparr>ss_io := (ss_io sys)(l := ts)\<rparr>"
  define c where "c = task_conn t"
  have lt: "cn_loop (task_conn t) = l" using i Cons by (simp add: life_inv_def)
  note tk = tasks_of_pop [OF Cons lt, folded sys1_def c_def]
  have f: "ss_server sys1 = ss_server sys" "ss_conn sys1 = ss_conn sys" "ss_main sys1 = ss_main sys" "ss_gone sys1 = ss_gone sys"
    "listed sys1 = listed sys" by (simp_all add: sys1_def listed_def fun_eq_iff)
  have io: "x \<in> set (ss_io sys k) \<or> cn_loop (task_conn x) = k" if "x \<in> set (ss_io sys1 k)" for k x
    using that Cons by (auto simp: sys1_def split: if_splits)
  have ph: "conn_phase sys c" and wf: "server_wf (ss_server sys)" and g: "gone_ok sys" using i by (simp_all add: life_inv_def)
  then obtain s where s: "ss_conn sys c = Some s" using tk [of c] by (cases "ss_conn sys c") (simp_all add: phase_def)
  have num: "numbered (ss_server sys) c" using i s by (auto simp: life_inv_def)
  consider (up) "t = RunEstablished c" "new_ok s" "listed sys c" "count_list (ss_main sys) c = 0" "tasks_of sys1 c = []"
    | (down) "t = QueueDestroyed c" "conn_rest s" "tc_state s = kDisconnected" "\<not> listed sys c" "count_list (ss_main sys) c = 0" "tasks_of sys1 c = []"
    using ph s tk [of c] by (auto simp: phase_def split: if_splits)
  then show ?thesis
  proof cases
    case up
    then obtain s1 where s1: "connectEstablished kw u s = Inr s1" "conn_rest s1" "tc_state s1 \<noteq> kDisconnected" "tc_state s1 \<noteq> kConnecting"
      using new_ok_established [OF _ k] by blast
    have "gone_ok (put_conn c s1 sys1)" using g s by (fastforce simp: gone_ok_def f)
    then have "life_inv (put_conn c s1 sys1)"
      using up s1 by (intro life_inv_at [OF i, where c = c]) (use f wf num tk io in \<open>auto simp: phase_def\<close>)
    then show ?thesis using Cons up(1) s s1(1) f(2) by (simp add: with_conn_def sys1_def)
  next
    case down
    obtain s1 where s1: "connectDestroyed kw u s = Inr s1" "Channel_destroy (tc_chan s1) = Inr ()" "notices s1 = whole_life"
      using connectDestroyed_rest [OF down(2,3)] by blast
    define sys2 where "sys2 = sys1\<lparr>ss_conn := (ss_conn sys1)(c := None), ss_gone := ss_gone sys1 @ [(c, notices s1)]\<rparr>"
    have f2: "ss_server sys2 = ss_server sys" "ss_main sys2 = ss_main sys" "listed sys2 = listed sys" "tasks_of sys2 = tasks_of sys1"
      "ss_conn sys2 = (ss_conn sys)(c := None)" "ss_io sys2 = ss_io sys1"
      by (simp_all add: sys2_def f listed_def tasks_of_def fun_eq_iff)
    have "c \<notin> fst ` set (ss_gone sys)" using g s by (fastforce simp: gone_ok_def)
    then have g2: "gone_ok sys2" using g s1(3) num f(4) unfolding gone_ok_def by (auto simp: f2 sys2_def f split: if_splits)
    have "life_inv sys2"
      using down by (intro life_inv_at [OF i, where c = c]) (use f2 wf num tk io g2 in \<open>auto simp: phase_def\<close>)
    then show ?thesis using Cons down(1) s s1 f(2) by (simp add: with_conn_def sys1_def sys2_def destroy_conn_def)
  qed
qed

text \<open>The effect of \<^verbatim>\<open>newConnection()\<close> on the server.\<close>

definition new_conn :: "nat \<Rightarrow> nat \<Rightarrow> TcpServer \<Rightarrow> conn" where
  "new_conn ptr l sv = \<lparr>cn_id = ptr, cn_name = connName (sv_name sv) (sv_hostport sv) (sv_nextConnId sv), cn_loop = l\<rparr>"

definition added :: "EventLoopThreadPool \<Rightarrow> conn \<Rightarrow> TcpServer \<Rightarrow> TcpServer" where
  "added p c sv = sv\<lparr>sv_pool := p, sv_nextConnId := sv_nextConnId sv + 1, sv_connections := (sv_connections sv)(cn_name c \<mapsto> c),
     sv_tasks := sv_tasks sv @ [RunEstablished c]\<rparr>"

lemma newConnection_added:
  assumes "server_wf sv" "sv_nextConnId sv < 10 ^ 8"
  obtains l p where "TcpServer_newConnection ptr sv = Inr (added p (new_conn ptr l sv) sv)" "server_wf (added p (new_conn ptr l sv) sv)"
proof -
  have "pool_ok (sv_pool sv)" using assms(1) by (simp add: server_wf_def)
  then obtain l p where lp: "getNextLoop (sv_pool sv) = Inr (l, p)" "pool_ok p" by (rule getNextLoop_total)
  show ?thesis
  proof (rule that)
    show "TcpServer_newConnection ptr sv = Inr (added p (new_conn ptr l sv) sv)"
      using lp(1) by (simp add: TcpServer_newConnection_def added_def new_conn_def Let_def)
    show "server_wf (added p (new_conn ptr l sv) sv)" using assms lp(2) by (auto simp: server_wf_def added_def)
  qed
qed

lemma added_numbered:
  "numbered sv d \<Longrightarrow> numbered (added p c sv) d"
  "1 \<le> sv_nextConnId sv \<Longrightarrow> numbered (added p (new_conn ptr l sv) sv) (new_conn ptr l sv)"
  unfolding numbered_def added_def new_conn_def by (fastforce, auto intro: exI [of _ "sv_nextConnId sv"])

text \<open>Its name is new, so nothing of the connection is anywhere yet.\<close>

lemma numbered_new:
  assumes "server_wf sv" "sv_nextConnId sv < 10 ^ 8" "numbered sv d"
  shows "cn_name d \<noteq> cn_name (new_conn ptr l sv)"
proof
  assume "cn_name d = cn_name (new_conn ptr l sv)"
  then obtain i where "1 \<le> i" "i < sv_nextConnId sv" "connName (sv_name sv) (sv_hostport sv) i = connName (sv_name sv) (sv_hostport sv) (sv_nextConnId sv)"
    using assms(3) unfolding numbered_def new_conn_def by auto
  then show False using connName_inj [of "sv_hostport sv" i "sv_nextConnId sv" "sv_name sv"] assms(1,2) by (simp add: server_wf_def)
qed

lemma listed_numbered:
  assumes "life_inv sys" "listed sys d"
  shows "numbered (ss_server sys) d"
proof -
  have "conn_phase sys d" using assms(1) by (simp add: life_inv_def)
  then have "ss_conn sys d \<noteq> None" using assms(2) by (cases "ss_conn sys d") (simp_all add: phase_def)
  then show ?thesis using assms(1) by (simp add: life_inv_def)
qed

lemma new_conn_nowhere:
  assumes i: "life_inv sys" and n: "sv_nextConnId (ss_server sys) < 10 ^ 8"
    and c: "c = new_conn ptr l (ss_server sys)"
  shows "ss_conn sys c = None" "\<not> listed sys c" "count_list (ss_main sys) c = 0" "tasks_of sys c = []" "c \<notin> fst ` set (ss_gone sys)"
    "listed (sys'\<lparr>ss_server := added p c (ss_server sys)\<rparr>) d \<longleftrightarrow> d = c \<or> listed sys d"
proof -
  have wf: "server_wf (ss_server sys)" using i by (simp add: life_inv_def)
  have nn: "\<not> numbered (ss_server sys) c" using numbered_new [OF wf n] c by blast
  then show none: "ss_conn sys c = None" using i by (auto simp: life_inv_def)
  have "conn_phase sys c" using i by (simp add: life_inv_def)
  then show "\<not> listed sys c" "count_list (ss_main sys) c = 0" "tasks_of sys c = []" using none by (simp_all add: phase_def)
  show "c \<notin> fst ` set (ss_gone sys)" using i nn by (fastforce simp: life_inv_def gone_ok_def)
  show "listed (sys'\<lparr>ss_server := added p c (ss_server sys)\<rparr>) d \<longleftrightarrow> d = c \<or> listed sys d"
    using numbered_new [OF wf n listed_numbered [OF i], of d ptr l] by (auto simp: listed_def added_def c)
qed

text \<open>The server has the connection in its table; what has become of it is one of the first two phases.\<close>

lemma life_inv_added:
  assumes i: "life_inv sys" and n: "sv_nextConnId (ss_server sys) < 10 ^ 8"
    and c: "c = new_conn ptr l (ss_server sys)"
    and wf: "server_wf (added p c (ss_server sys))"
    and f: "ss_server sys' = added p c (ss_server sys)" "ss_gone sys' = ss_gone sys" "ss_main sys' = ss_main sys"
      "\<And>d. d \<noteq> c \<Longrightarrow> ss_conn sys' d = ss_conn sys d \<and> tasks_of sys' d = tasks_of sys d"
      "\<And>l t. t \<in> set (ss_io sys' l) \<Longrightarrow> t \<in> set (ss_io sys l) \<or> cn_loop (task_conn t) = l"
    and ph: "phase c (ss_conn sys' c) True 0 (tasks_of sys' c)"
  shows "life_inv sys'"
proof -
  note nw = new_conn_nowhere [OF i n c]
  have lst: "listed sys' d \<longleftrightarrow> d = c \<or> listed sys d" for d
    using nw(6) [where sys' = sys' and p = p] f(1) by (simp add: listed_def)
  have num: "numbered (ss_server sys') c"
    using added_numbered(2) [of "ss_server sys" p ptr l] i by (simp add: f(1) c life_inv_def server_wf_def)
  have "gone_ok sys" using i by (simp add: life_inv_def)
  then have g: "gone_ok sys'" using f(1,2,4) nw(5) added_numbered(1) unfolding gone_ok_def by fastforce
  show ?thesis
    by (rule life_inv_at [OF i, where c = c]) (use wf f g ph lst num nw added_numbered(1) in simp_all)
qed

lemma life_accept:
  assumes i: "life_inv sys" and k: "kw_contract kw" "user_ok kw u" and ok: "life_ok kw (Accept ptr ch fd wc hw rx) sys"
  shows "\<exists>sys'. life_do kw u (Accept ptr ch fd wc hw rx) sys = Inr sys' \<and> life_inv sys'"
proof -
  have n: "sv_nextConnId (ss_server sys) < 10 ^ 8" and wf: "server_wf (ss_server sys)" using ok i by (simp_all add: life_inv_def)
  obtain l p where lp: "TcpServer_newConnection ptr (ss_server sys) = Inr (added p (new_conn ptr l (ss_server sys)) (ss_server sys))"
    "server_wf (added p (new_conn ptr l (ss_server sys)) (ss_server sys))"
    using newConnection_added [OF wf n] .
  define c where "c = new_conn ptr l (ss_server sys)"
  define s where "s = TcpConnection_new (cn_name c) ch fd wc hw rx"
  define sys1 where "sys1 = put_conn c s (sys\<lparr>ss_server := added p c (ss_server sys)\<rparr>)"
  note nw = new_conn_nowhere [OF i n c_def]
  note inv = life_inv_added [OF i n c_def lp(2) [folded c_def]]
  have f: "ss_server sys1 = added p c (ss_server sys)" "ss_conn sys1 = (ss_conn sys)(c \<mapsto> s)" "ss_main sys1 = ss_main sys"
    "ss_io sys1 = ss_io sys" "ss_gone sys1 = ss_gone sys" "tasks_of sys1 = tasks_of sys"
    by (simp_all add: sys1_def tasks_of_def fun_eq_iff)
  have nok: "new_ok s" using ok new_ok_name unfolding s_def life_ok.simps by blast
  have st: "tc_state s = kConnecting" by (simp add: s_def TcpConnection_new_def)
  have "new_tasks (ss_server sys) (added p c (ss_server sys)) = [RunEstablished c]" by (simp add: new_tasks_def added_def)
  then have run: "life_do kw u (Accept ptr ch fd wc hw rx) sys = deliver kw u (RunEstablished c) sys1"
    by (simp only: life_do.simps lp(1) [folded c_def] bindR.simps foldR_single open_conn.simps s_def sys1_def)
  show ?thesis
  proof (cases "cn_loop c = ss_base sys1")
    case False
    have "life_inv (push_io (RunEstablished c) sys1)"
      by (rule inv) (use f nw nok st push_io_set [of _ "RunEstablished c" sys1] in \<open>auto simp: phase_def\<close>)
    then show ?thesis using run False by simp
  next
    case True
    obtain s1 where s1: "connectEstablished kw u s = Inr s1" "conn_rest s1" "tc_state s1 \<noteq> kDisconnected" "tc_state s1 \<noteq> kConnecting"
      using new_ok_established [OF nok k] by blast
    have "life_inv (put_conn c s1 sys1)" by (rule inv) (use f nw s1 in \<open>auto simp: phase_def\<close>)
    then show ?thesis using run True s1(1) f(2) by (simp add: with_conn_def)
  qed
qed

lemma phase_rest:
  assumes "life_inv sys" "ss_conn sys c = Some s" "tc_state s \<noteq> kConnecting"
  shows "conn_rest s"
proof -
  have "conn_phase sys c" using assms(1) by (simp add: life_inv_def)
  then show ?thesis using assms(2,3) by (simp add: phase_def)
qed

lemma life_step:
  assumes k: "kw_contract kw" "user_ok kw u" and ok: "life_ok kw x sys" and i: "life_inv sys"
  shows "\<exists>sys'. life_do kw u x sys = Inr sys' \<and> life_inv sys'"
proof (cases x)
  case (Accept ptr ch fd wc hw rx)
  with life_accept [OF i k] ok show ?thesis by simp
next
  case ServerTurn
  with life_main [OF i] show ?thesis by simp
next
  case (IoTurn l)
  with life_io [OF i k] show ?thesis by simp
next
  case (Dispatch c readv t r)
  then obtain s where s: "ss_conn sys c = Some s" "tc_state s \<noteq> kConnecting" "tc_state s \<noteq> kDisconnected"
    "\<not> (hangs_up r \<and> asks_read r)" "asks_read r \<longrightarrow> read_ok readv (tc_input s)"
    using ok by (auto split: option.splits)
  obtain s1 where s1: "conn_dispatch kw u readv t r s = Inr s1" "conn_rest s1"
    using conn_dispatch_ok [OF phase_rest [OF i s(1,2)] s(3) k s(4,5)] by blast
  from settle_ok [OF i s(1,2) s1(2)] s(3) have "\<exists>sys'. settle kw u c s s1 sys = Inr sys' \<and> life_inv sys'" by simp
  then show ?thesis using Dispatch s(1) s1(1) by (simp add: with_conn_def)
next
  case (UserCalls c calls)
  then obtain s where s: "ss_conn sys c = Some s" "tc_state s \<noteq> kConnecting" "ucalls_ok kw calls s"
    using ok by (auto split: option.splits)
  obtain s1 where s1: "foldR (do_user kw) calls s = Inr s1" "conn_rest s1" "tc_state s1 = kDisconnected \<longleftrightarrow> tc_state s = kDisconnected"
    using do_users_rest [OF phase_rest [OF i s(1,2)] k(1) s(3)] by blast
  from settle_ok [OF i s(1,2) s1(2)] s1(3) have "\<exists>sys'. settle kw u c s s1 sys = Inr sys' \<and> life_inv sys'" by simp
  then show ?thesis using UserCalls s(1) s1(1) by (simp add: with_conn_def)
next
  case (ForceClose c)
  show ?thesis
  proof (cases "ss_conn sys c")
    case None
    then show ?thesis using ForceClose i by simp
  next
    case (Some s)
    then have st: "tc_state s \<noteq> kConnecting" using ok ForceClose by simp
    obtain s1 where s1: "delayed_close kw u True s = Inr s1" "conn_rest s1" "tc_state s1 = kDisconnected"
      using delayed_close_rest [OF phase_rest [OF i Some st] k] by blast
    from settle_ok [OF i Some st s1(2)] s1(3) have "\<exists>sys'. settle kw u c s s1 sys = Inr sys' \<and> life_inv sys'" by simp
    then show ?thesis using ForceClose Some s1(1) by simp
  qed
qed

section \<open>The queues drain\<close>

text \<open>A turn runs one functor, and running it queues nothing on the same queue.\<close>

lemma ServerTurn_main:
  assumes "life_inv sys" "life_do kw u ServerTurn sys = Inr sys'"
  shows "ss_main sys' = tl (ss_main sys)"
proof (cases "ss_main sys")
  case (Cons c cs)
  have "conn_phase sys c" using assms(1) by (simp add: life_inv_def)
  then have "listed (sys\<lparr>ss_main := cs\<rparr>) c"
    using Cons by (cases "ss_conn sys c") (auto simp: phase_def listed_def split: if_splits)
  from run_removal_eq [OF this] show ?thesis using assms(2) Cons by auto
qed (use assms in simp)

lemma run_task_queues: "run_task kw u t sys = Inr sys' \<Longrightarrow> ss_io sys' = ss_io sys \<and> ss_main sys' = ss_main sys"
  by (cases t) (auto simp: with_conn_def destroy_conn_def bindR_eq_Inr split: option.splits)

lemma IoTurn_queues:
  "life_do kw u (IoTurn l) sys = Inr sys' \<Longrightarrow> ss_io sys' l = tl (ss_io sys l) \<and> ss_main sys' = ss_main sys"
  by (cases "ss_io sys l") (auto dest: run_task_queues)

text \<open>As many turns as there are functors empty a queue.\<close>

lemma turns_drain:
  assumes k: "kw_contract kw" "user_ok kw u" and ok: "\<And>sys. life_ok kw x sys"
    and pop: "\<And>sys sys'. life_inv sys \<Longrightarrow> life_do kw u x sys = Inr sys' \<Longrightarrow> q sys' = tl (q sys) \<and> (P sys \<longrightarrow> P sys')"
  shows "life_inv sys \<Longrightarrow> P sys \<Longrightarrow> length (q sys) = n \<Longrightarrow>
    \<exists>sys'. foldR (life_do kw u) (replicate n x) sys = Inr sys' \<and> life_inv sys' \<and> q sys' = [] \<and> P sys'"
proof (induction n arbitrary: sys)
  case (Suc n)
  obtain sys1 where s1: "life_do kw u x sys = Inr sys1" "life_inv sys1" using life_step [OF k ok Suc.prems(1)] by blast
  have "length (q sys1) = n" "P sys1" using pop [OF Suc.prems(1) s1(1)] Suc.prems(2,3) by simp_all
  from Suc.IH [OF s1(2) this(2,1)] s1(1) show ?case by simp
qed simp

lemma drained:
  assumes k: "kw_contract kw" "user_ok kw u" and i: "life_inv sys"
  shows "\<exists>sys1 sys2. foldR (life_do kw u) (replicate (length (ss_main sys)) ServerTurn) sys = Inr sys1 \<and>
     foldR (life_do kw u) (replicate (length (ss_io sys1 l)) (IoTurn l)) sys1 = Inr sys2 \<and>
     (\<forall>c s. cn_loop c = l \<and> ss_conn sys2 c = Some s \<longrightarrow> listed sys2 c \<and> (tc_state s = kConnected \<or> tc_state s = kDisconnecting))"
proof -
  obtain sys1 where s1: "foldR (life_do kw u) (replicate (length (ss_main sys)) ServerTurn) sys = Inr sys1" "life_inv sys1" "ss_main sys1 = []"
  proof -
    have "\<exists>sys'. foldR (life_do kw u) (replicate (length (ss_main sys)) ServerTurn) sys = Inr sys' \<and> life_inv sys' \<and> ss_main sys' = [] \<and> True"
      by (rule turns_drain [OF k _ _ i]) (use ServerTurn_main in simp_all)
    then show ?thesis using that by blast
  qed
  obtain sys2 where s2: "foldR (life_do kw u) (replicate (length (ss_io sys1 l)) (IoTurn l)) sys1 = Inr sys2" "life_inv sys2"
    "ss_io sys2 l = []" "ss_main sys2 = []"
  proof -
    have "\<exists>sys'. foldR (life_do kw u) (replicate (length (ss_io sys1 l)) (IoTurn l)) sys1 = Inr sys' \<and> life_inv sys' \<and> ss_io sys' l = [] \<and> ss_main sys' = []"
      by (rule turns_drain [OF k _ _ s1(2), where q = "\<lambda>sys. ss_io sys l"]) (use IoTurn_queues s1(3) in \<open>simp_all del: life_do.simps\<close>)
    then show ?thesis using that by blast
  qed
  have "listed sys2 c \<and> (tc_state s = kConnected \<or> tc_state s = kDisconnecting)" if "cn_loop c = l" "ss_conn sys2 c = Some s" for c s
  proof -
    have "conn_phase sys2 c" using s2(2) by (simp add: life_inv_def)
    then show ?thesis using that s2(3,4) by (cases "tc_state s") (auto simp: phase_def tasks_of_def split: if_splits)
  qed
  with s1(1) s2(1) show ?thesis by blast
qed

section \<open>The server that was started\<close>

lemma ep_spawn_loops:
  "ep_spawn spawn cb i n p = Inr p' \<Longrightarrow> length (ep_loops p') = length (ep_loops p) + n \<and> ep_next p' = ep_next p"
proof (induction n arbitrary: i p)
  case (Suc n)
  obtain ret l where sp: "spawn i = (ret, l)" by (cases "spawn i")
  obtain loop t where "startLoop ret l EventLoopThread_new = Inr (loop, t)"
    and "ep_spawn spawn cb (i + 1) n (p\<lparr>ep_threads := ep_threads p @ [t], ep_loops := ep_loops p @ [loop],
           ep_inited := (if cb then ep_inited p @ [loop] else ep_inited p)\<rparr>) = Inr p'"
    using Suc.prems sp by (auto simp: bindR_eq_Inr)
  from Suc.IH [OF this(2)] show ?case by simp
qed simp

lemma started_wf:
  assumes "bindR (setThreadNum n (TcpServer_new loop hostport nm)) (TcpServer_start inLoop spawn cb) = Inr sv"
    "n < 2 ^ 31" "length hostport \<le> 21"
  shows "server_wf sv \<and> sv_connections sv = (\<lambda>_. None)"
proof -
  let ?p = "(EventLoopThreadPool_new loop)\<lparr>ep_numThreads := n, ep_started := True\<rparr>"
  obtain p where p: "ep_spawn spawn cb 0 (nat n) ?p = Inr p"
    and sv: "pool_ok p \<longrightarrow> pool_ok (sv_pool sv)" "sv_nextConnId sv = 1" "sv_hostport sv = hostport" "sv_connections sv = (\<lambda>_. None)"
    using assms(1)
    by (auto simp: setThreadNum_def TcpServer_start_def TcpServer_new_def ep_setThreadNum_def EventLoopThreadPool_start_def bindR_eq_Inr
        getAndSet_def EventLoopThreadPool_new_def Let_def pool_ok_def split: if_splits)
  have "length (ep_loops p) = nat n" "ep_next p = 0" using ep_spawn_loops [OF p] by (simp_all add: EventLoopThreadPool_new_def)
  then have "pool_ok p" using assms(2) by (cases "ep_loops p") (auto simp: pool_ok_def)
  with sv assms(3) show ?thesis by (simp add: server_wf_def)
qed

lemma Sys_new_inv: "server_wf sv \<Longrightarrow> sv_connections sv = (\<lambda>_. None) \<Longrightarrow> life_inv (Sys_new sv)"
  by (simp add: life_inv_def Sys_new_def gone_ok_def phase_def listed_def tasks_of_def)

section \<open>Example server\<close>

text \<open>A server with one thread, whose loop is number 5.\<close>

definition threaded_example :: "TcpServer res" where
  "threaded_example = bindR (setThreadNum 1 (TcpServer_new 1 ''127.0.0.1:80'' ''srv'')) (TcpServer_start True (\<lambda>_. (0, 5)) False)"

definition conn_example :: conn where
  "conn_example = \<lparr>cn_id = 9, cn_name = ''srv:127.0.0.1:80#1'', cn_loop = 5\<rparr>"

lemma threaded_example_ok:
  obtains sv where "threaded_example = Inr sv" "ep_loops (sv_pool sv) = [5]" "ep_next (sv_pool sv) = 0" "ep_baseLoop (sv_pool sv) = 1"
    "sv_nextConnId sv = 1" "sv_hostport sv = ''127.0.0.1:80''" "sv_name sv = ''srv''"
  by (simp add: threaded_example_def setThreadNum_def TcpServer_new_def TcpServer_start_def ep_setThreadNum_def EventLoopThreadPool_start_def
      getAndSet_def EventLoopThreadPool_new_def startLoop_def EventLoopThread_new_def Thread_new_def Thread_start_def Let_def)

lemma accept_example:
  assumes sv: "ep_loops (sv_pool sv) = [5]" "ep_next (sv_pool sv) = 0" "ep_baseLoop (sv_pool sv) = 1"
    "sv_nextConnId sv = 1" "sv_hostport sv = ''127.0.0.1:80''" "sv_name sv = ''srv''"
  shows "\<exists>sys. life_do kw u (Accept 9 0 7 False False rx_example) (Sys_new sv) = Inr sys \<and>
     ss_io sys 5 = [RunEstablished conn_example] \<and>
     ss_conn sys conn_example = Some (TcpConnection_new (cn_name conn_example) 0 7 False False rx_example)"
proof -
  have "connName ''srv'' ''127.0.0.1:80'' 1 = ''srv:127.0.0.1:80#1''"
    by (simp add: connName_def snprintf_buf_def show_int_def show_nat.simps [of "Suc 0"] char_digits)
  then have "TcpServer_newConnection 9 sv = Inr (added (sv_pool sv\<lparr>ep_next := 0\<rparr>) conn_example sv)"
    using getNextLoop_ok [of "sv_pool sv" "[5]" 0] sv
    by (simp add: TcpServer_newConnection_def added_def conn_example_def Let_def)
  then show ?thesis
    by (simp add: Sys_new_def new_tasks_def added_def foldR_single ss_base_def sv put_conn_def push_io_def conn_example_def)
qed

section \<open>Properties\<close>



end
