(* ===== verification/ClientLife.thy ===== *)
theory ClientLife
  imports ServerLife
begin

text \<open>
  A \<^verbatim>\<open>TcpClient\<close> with its connector and its connections in their common loop (\<^verbatim>\<open>src/net/TcpClient.cc\<close>,
  \<^verbatim>\<open>src/net/Connector.cc\<close>, \<^verbatim>\<open>src/net/TcpConnection.cc\<close>). The connector hands a connected socket to \<^verbatim>\<open>newConnection()\<close>, the connection
  reports its end to \<^verbatim>\<open>removeConnection()\<close>, and that one queues \<^verbatim>\<open>connectDestroyed\<close> and perhaps restarts the connector. As in theory
  \<open>ServerLife\<close>, each object has its own view of the poller.

  The functor that resets the channel of the connector is queued before the connection exists, and the loop runs it before
  it polls again. So no event of a connection and no timer finds it still queued.
\<close>

section \<open>The connector under its protocol\<close>

datatype co_ev = CoStart chan int "errno option" | CoRestart chan int "errno option" | CoStop
  | CoTimer chan int "errno option" | CoTask | CoWrite int bool | CoError

fun co_do :: "co_ev \<Rightarrow> Connector \<Rightarrow> Connector res" where
  "co_do (CoStart c sock e) s = Connector_start c sock e s"
| "co_do (CoRestart c sock e) s = restart c sock e s"
| "co_do CoStop s = Inr (Connector_stop s)"
| "co_do (CoTimer c sock e) s = (case co_timers s of [] \<Rightarrow> Inr s | d # ds \<Rightarrow> startInLoop c sock e (s\<lparr>co_timers := ds\<rparr>))"
| "co_do CoTask s =
     (case co_queue s of [] \<Rightarrow> Inr s
      | CStopInLoop # q \<Rightarrow> stopInLoop (s\<lparr>co_queue := q\<rparr>)
      | CResetChannel # q \<Rightarrow> resetChannel (s\<lparr>co_queue := q\<rparr>))"
| "co_do (CoWrite err self) s = Connector_handleWrite err self s"
| "co_do CoError s = Connector_handleError s"

text \<open>A start is for a connector that rests; \<^verbatim>\<open>socket(2)\<close> gives a descriptor. An event may find the connect given up already,
  because one dispatch calls the error callback and then the write callback.\<close>

fun co_ok :: "co_ev \<Rightarrow> Connector \<Rightarrow> bool" where
  "co_ok (CoStart c sock e) s \<longleftrightarrow> co_state s = CkDisconnected \<and> co_timers s = [] \<and> co_channel s = None \<and> new_channel_ok c sock s \<and> 0 \<le> sock"
| "co_ok (CoRestart c sock e) s \<longleftrightarrow> co_state s = CkConnected \<and> co_channel s = None \<and> new_channel_ok c sock s \<and> 0 \<le> sock"
| "co_ok CoStop s \<longleftrightarrow> True"
| "co_ok (CoTimer c sock e) s \<longleftrightarrow> CResetChannel \<notin> set (co_queue s) \<and> new_channel_ok c sock s \<and> 0 \<le> sock"
| "co_ok CoTask s \<longleftrightarrow> True"
| "co_ok (CoWrite err self) s \<longleftrightarrow> co_state s \<noteq> CkConnected"
| "co_ok CoError s \<longleftrightarrow> True"

definition co_prot :: "Connector \<Rightarrow> bool" where
  "co_prot s \<longleftrightarrow> isInLoopThread (co_rx s) \<and> length (co_timers s) \<le> 1 \<and> (co_timers s \<noteq> [] \<longrightarrow> co_state s = CkDisconnected) \<and>
     (co_channel s \<noteq> None \<longrightarrow> co_state s = CkConnecting \<or> CResetChannel \<in> set (co_queue s)) \<and>
     (\<forall>c. co_channel s = Some c \<longrightarrow> \<not> ch_eventHandling (heap (co_rx s) c))"

lemma co_do_step:
  assumes d: "co_do x s = Inr s'" and ok: "co_ok x s" and i: "co_inv s"
  shows "co_inv s'"
proof -
  have ch: "co_state s = CkConnecting \<Longrightarrow> co_channel s \<noteq> None" using i by (auto simp: co_inv_def)
  have "s' = s \<or> co_step s s'"
    using d ok ch
    by (cases x) (auto simp: Connector_handleError_def Connector_handleWrite_def split: list.splits co_task.splits if_splits
        intro: co_step.intros co_step.co_write [unfolded Connector_handleWrite_def] co_step.co_error [unfolded Connector_handleError_def])
  then show ?thesis using i co_inv_step by blast
qed

text \<open>What a change of the mask leaves of a channel.\<close>

lemma Channel_mask_frame:
  assumes "Channel_mask m c s = Inr s'"
  shows "ch_eventHandling (heap s' c) = ch_eventHandling (heap s c)"
proof -
  let ?h = "heap_upd c (\<lambda>ch. ch\<lparr>ch_events := mask_of m (ch_events ch)\<rparr>) s"
  have "updateChannel c ?h = Inr s'"
    using assms by (auto simp: Channel_mask_def EventLoop_updateChannel_def bindR_eq_Inr split: if_splits)
  from updateChannel_frame [OF this] show ?thesis by (auto simp: heap_upd_def set_index_def)
qed

lemma startInLoop_total:
  assumes p: "co_prot s" and st: "co_state s = CkDisconnected" "co_timers s = []" "co_channel s = None"
    and n: "new_channel_ok c sock s" "0 \<le> sock"
  shows "\<exists>s'. startInLoop c sock e s = Inr s' \<and> co_prot s' \<and> co_handed s' = co_handed s"
proof -
  let ?s = "s\<lparr>co_created := co_created s @ [sock]\<rparr>"
  have il: "assertInLoopThread (co_rx s) = Inr ()" using p by (simp add: co_prot_def assertInLoopThread_def)
  have n': "new_channel_ok c sock ?s" "co_channel ?s = None" using n(1) st(3) by (simp_all add: new_channel_ok_def Let_def)
  obtain rx where rx: "connecting c sock ?s = Inr (?s\<lparr>co_state := CkConnecting, co_channel := Some c, co_rx := rx\<rparr>)" "rx_ready rx c"
    by (rule connecting_ok [OF n'(1) n(2) n'(2)])
  have "Channel_mask EnableWriting c ((co_rx s)\<lparr>heap := (heap (co_rx s))(c := Channel_new (rx_loop (co_rx s)) sock)\<rparr>) = Inr rx"
    using rx(1) st(3) by (auto simp: connecting_def Let_def bindR_eq_Inr)
       (metis (no_types, lifting) Connector.ext_inject Connector.surjective Connector.update_convs(6))
  then have "\<not> ch_eventHandling (heap rx c)" using Channel_mask_frame by (fastforce simp: Channel_new_def)
  moreover have "isInLoopThread rx" using rx(2) by (simp add: rx_ready_def on_loop_def)
  ultimately have pc: "co_prot (?s\<lparr>co_state := CkConnecting, co_channel := Some c, co_rx := rx\<rparr>)" using st by (simp add: co_prot_def)
  have pr: "co_prot (retry sock ?s)" "co_handed (retry sock ?s) = co_handed s" using p st by (simp_all add: co_prot_def retry_def close_fd_def Let_def)
  have pf: "co_prot (close_fd sock ?s)" "co_handed (close_fd sock ?s) = co_handed s" using p by (simp_all add: co_prot_def close_fd_def)
  show ?thesis
    using il st(1) n(2) rx(1) pc pr pf p by (simp add: startInLoop_def connect_def createNonblockingOrDie_def Let_def)
qed

lemma removeAndReset_total:
  assumes i: "co_inv s" and p: "co_prot s" and st: "co_state s = CkConnecting"
  shows "\<exists>rx. removeAndResetChannel (s\<lparr>co_state := x\<rparr>) =
       Inr (hd (in_progress s), s\<lparr>co_state := x, co_rx := rx, co_queue := co_queue s @ [CResetChannel]\<rparr>) \<and>
     isInLoopThread rx \<and> (\<forall>c. co_channel s = Some c \<longrightarrow> \<not> ch_eventHandling (heap rx c))"
proof -
  obtain c where c: "co_channel s = Some c" "rx_ready (co_rx s) c" and pi: "poller_inv (co_rx s)"
    using i st by (auto simp: co_inv_def)
  obtain rx where rx: "Channel_mask DisableAll c (co_rx s) = Inr rx" "poller_inv rx" "rx_ready rx c"
    "heap rx = heap (masked DisableAll c (co_rx s))"
    by (rule rx_mask_ready [OF pi c(2), of DisableAll])
  have idle: "isNoneEvent (heap rx c)" "pfd_fd (entry_of rx c) < 0"
    using rx_disableAll_idle [OF pi c(2) rx(1)] by (simp_all add: rx_idle_def)
  have cond: "registered rx c" "on_loop rx c" "rx_eventHandling rx \<longrightarrow> rx_current rx = Some c \<or> c \<notin> set (rx_active rx)"
    using rx(3) by (simp_all add: rx_ready_def)
  obtain rx' k where rx': "Channel_remove c rx = Inr rx'" "heap rx' c = (heap rx c)\<lparr>ch_index := k\<rparr>"
    "PollPoller.PollPoller.more rx' = PollPoller.PollPoller.more rx"
    using Channel_remove_ok [OF rx(2) cond(2,1) idle cond(3)] by blast
  have "isInLoopThread rx'" using reactor_fields [OF rx'(3)] cond(2) by (simp add: on_loop_def isInLoopThread_def)
  moreover have "\<not> ch_eventHandling (heap rx' c)"
    using rx'(2) Channel_mask_frame [OF rx(1)] p c(1) by (simp add: co_prot_def)
  ultimately show ?thesis
    using c(1) rx(1,4) rx' st by (auto simp: removeAndResetChannel_def in_progress_def)
qed

text \<open>After the channel was taken off, what is left is a retry or a socket handed over.\<close>

lemma retire_prot:
  assumes "co_prot s" "co_state s = CkConnecting" "isInLoopThread rx" "\<And>c. co_channel s = Some c \<Longrightarrow> \<not> ch_eventHandling (heap rx c)"
  shows "co_prot (retry fd (s\<lparr>co_state := x, co_rx := rx, co_queue := co_queue s @ [CResetChannel]\<rparr>))"
    "co_handed (retry fd (s\<lparr>co_state := x, co_rx := rx, co_queue := co_queue s @ [CResetChannel]\<rparr>)) = co_handed s"
    "co_state (retry fd (s\<lparr>co_state := x, co_rx := rx, co_queue := co_queue s @ [CResetChannel]\<rparr>)) = CkDisconnected"
    "co_prot (s\<lparr>co_rx := rx, co_queue := co_queue s @ [CResetChannel], co_state := CkConnected, co_handed := h\<rparr>)"
    "co_prot (s\<lparr>co_rx := rx, co_queue := co_queue s @ [CResetChannel], co_state := CkConnected, co_closed := h\<rparr>)"
  using assms by (auto simp: co_prot_def retry_def close_fd_def Let_def)

lemma handleWrite_total:
  assumes i: "co_inv s" and p: "co_prot s" and st: "co_state s = CkConnecting"
  shows "\<exists>s'. Connector_handleWrite err self s = Inr s' \<and> co_prot s' \<and>
     (co_handed s' = co_handed s \<or> co_handed s' = co_handed s @ [hd (in_progress s)] \<and> co_state s' = CkConnected)"
proof -
  obtain rx where rx: "removeAndResetChannel (s\<lparr>co_state := CkConnecting\<rparr>) =
       Inr (hd (in_progress s), s\<lparr>co_state := CkConnecting, co_rx := rx, co_queue := co_queue s @ [CResetChannel]\<rparr>)"
    "isInLoopThread rx" "\<And>c. co_channel s = Some c \<Longrightarrow> \<not> ch_eventHandling (heap rx c)"
    using removeAndReset_total [OF assms, of CkConnecting] by blast
  note r = retire_prot [OF p st rx(2,3)]
  have "s\<lparr>co_state := CkConnecting\<rparr> = s" using st by simp
  with rx(1) have rm: "removeAndResetChannel s =
       Inr (hd (in_progress s), s\<lparr>co_state := CkConnecting, co_rx := rx, co_queue := co_queue s @ [CResetChannel]\<rparr>)" by simp
  show ?thesis
    using st rm r(1,2) [of _ CkConnecting] r(4,5)
    by (auto simp: Connector_handleWrite_def Let_def close_fd_def)
qed

lemma stopInLoop_total:
  assumes i: "co_inv s" and p: "co_prot s"
  shows "\<exists>s'. stopInLoop s = Inr s' \<and> co_prot s' \<and> co_handed s' = co_handed s \<and> (co_state s = CkConnected \<longrightarrow> co_state s' = CkConnected)"
proof (cases "co_state s = CkConnecting")
  case False
  then show ?thesis using p by (simp add: stopInLoop_def assertInLoopThread_def co_prot_def)
next
  case True
  obtain rx where rx: "removeAndResetChannel (s\<lparr>co_state := CkDisconnected\<rparr>) =
       Inr (hd (in_progress s), s\<lparr>co_state := CkDisconnected, co_rx := rx, co_queue := co_queue s @ [CResetChannel]\<rparr>)"
    "isInLoopThread rx" "\<And>c. co_channel s = Some c \<Longrightarrow> \<not> ch_eventHandling (heap rx c)"
    using removeAndReset_total [OF i p True, of CkDisconnected] by blast
  then show ?thesis
    using p True retire_prot(1,2) [OF p True rx(2,3)] by (simp add: stopInLoop_def assertInLoopThread_def co_prot_def)
qed

lemma handleError_total:
  assumes i: "co_inv s" and p: "co_prot s" and st: "co_state s = CkConnecting"
  shows "\<exists>s'. Connector_handleError s = Inr s' \<and> co_prot s' \<and> co_handed s' = co_handed s"
proof -
  obtain rx where rx: "removeAndResetChannel (s\<lparr>co_state := CkConnecting\<rparr>) =
       Inr (hd (in_progress s), s\<lparr>co_state := CkConnecting, co_rx := rx, co_queue := co_queue s @ [CResetChannel]\<rparr>)"
    "isInLoopThread rx" "\<And>c. co_channel s = Some c \<Longrightarrow> \<not> ch_eventHandling (heap rx c)"
    using removeAndReset_total [OF assms, of CkConnecting] by blast
  have "s\<lparr>co_state := CkConnecting\<rparr> = s" using st by simp
  with rx(1) have "removeAndResetChannel s =
       Inr (hd (in_progress s), s\<lparr>co_state := CkConnecting, co_rx := rx, co_queue := co_queue s @ [CResetChannel]\<rparr>)" by simp
  then show ?thesis using st retire_prot(1,2) [OF p st rx(2,3), of _ CkConnecting] by (simp add: Connector_handleError_def)
qed

lemma CoTask_total:
  assumes i: "co_inv s" and p: "co_prot s"
  shows "\<exists>s'. co_do CoTask s = Inr s' \<and> co_prot s' \<and> co_handed s' = co_handed s \<and> (co_state s = CkConnected \<longrightarrow> co_state s' = CkConnected)"
proof (cases "co_queue s")
  case Nil
  then show ?thesis using p by simp
next
  case (Cons t q)
  show ?thesis
  proof (cases t)
    case CStopInLoop
    have "co_inv (s\<lparr>co_queue := q\<rparr>)" "co_prot (s\<lparr>co_queue := q\<rparr>)"
      using i p Cons CStopInLoop by (auto simp: co_inv_def reset_ok_def co_prot_def)
    from stopInLoop_total [OF this] show ?thesis using Cons CStopInLoop by simp
  next
    case CResetChannel
    then obtain c where c: "co_channel s = Some c" using i Cons by (auto simp: co_inv_def reset_ok_def)
    then have "Channel_destroy (heap (co_rx s) c) = Inr ()" using p by (simp add: co_prot_def Channel_destroy_def)
    with c Cons CResetChannel p show ?thesis by (simp add: resetChannel_def co_prot_def)
  qed
qed

lemma co_progress:
  assumes i: "co_inv s" and p: "co_prot s" and ok: "co_ok x s"
  shows "\<exists>s'. co_do x s = Inr s' \<and> co_inv s' \<and> co_prot s' \<and>
     (co_handed s' = co_handed s \<or>
      (\<exists>err self. x = CoWrite err self) \<and> co_handed s' = co_handed s @ [hd (in_progress s)] \<and> co_state s' = CkConnected) \<and>
     (co_state s = CkConnected \<and> (\<forall>c sock e. x \<noteq> CoRestart c sock e) \<longrightarrow> co_state s' = CkConnected)"
proof -
  have "\<exists>s'. co_do x s = Inr s' \<and> co_prot s' \<and>
     (co_handed s' = co_handed s \<or>
      (\<exists>err self. x = CoWrite err self) \<and> co_handed s' = co_handed s @ [hd (in_progress s)] \<and> co_state s' = CkConnected) \<and>
     (co_state s = CkConnected \<and> (\<forall>c sock e. x \<noteq> CoRestart c sock e) \<longrightarrow> co_state s' = CkConnected)"
  proof (cases x)
    case (CoStart c sock e)
    have "co_prot (s\<lparr>co_connect := True\<rparr>)" using p by (simp add: co_prot_def)
    from startInLoop_total [OF this, of c sock e] ok show ?thesis by (auto simp: CoStart Connector_start_def)
  next
    case (CoRestart c sock e)
    let ?s = "s\<lparr>co_state := CkDisconnected, co_retryDelayMs := kInitRetryDelayMs, co_connect := True\<rparr>"
    have "co_prot ?s" "co_timers ?s = []" using p ok by (auto simp: co_prot_def CoRestart)
    moreover have "assertInLoopThread (co_rx s) = Inr ()" using p by (simp add: co_prot_def assertInLoopThread_def)
    ultimately show ?thesis using startInLoop_total [of ?s c sock e] ok by (auto simp: CoRestart restart_def)
  next
    case CoStop
    then show ?thesis using p by (auto simp: Connector_stop_def co_prot_def)
  next
    case (CoTimer c sock e)
    show ?thesis
    proof (cases "co_timers s")
      case (Cons d ds)
      then have t: "ds = []" "co_state s = CkDisconnected" using p by (auto simp: co_prot_def)
      have "co_prot (s\<lparr>co_timers := []\<rparr>)" "co_channel s = None" using p ok t(2) by (auto simp: co_prot_def CoTimer)
      with startInLoop_total [of "s\<lparr>co_timers := []\<rparr>" c sock e] t ok Cons show ?thesis by (auto simp: CoTimer)
    qed (use p CoTimer in simp)
  next
    case CoTask
    then show ?thesis using CoTask_total [OF i p] by (auto simp del: co_do.simps)
  next
    case (CoWrite err self)
    show ?thesis
    proof (cases "co_state s = CkConnecting")
      case False
      then have "co_state s = CkDisconnected" using ok CoWrite by (cases "co_state s") auto
      then show ?thesis using p CoWrite by (simp add: Connector_handleWrite_def)
    qed (use handleWrite_total [OF i p, of err self] CoWrite in auto)
  next
    case CoError
    show ?thesis
    proof (cases "co_state s = CkConnecting")
      case False
      then show ?thesis using p CoError by (simp add: Connector_handleError_def)
    qed (use handleError_total [OF i p] CoError in auto)
  qed
  then show ?thesis using co_do_step [OF _ ok i] by blast
qed

section \<open>The client\<close>

record CSys =
  cy_client :: TcpClient
  cy_connector :: Connector
  cy_conn :: "conn \<rightharpoonup> TcpConnection"
  cy_queue :: "conn list"
  cy_gone :: "(conn \<times> conn_log list) list"

definition CSys_new :: "nat \<Rightarrow> string \<Rightarrow> Connector \<Rightarrow> CSys" where
  "CSys_new loop nm co = \<lparr>cy_client = TcpClient_new loop nm, cy_connector = co, cy_conn = (\<lambda>_. None), cy_queue = [], cy_gone = []\<rparr>"

definition cy_with :: "conn \<Rightarrow> CSys \<Rightarrow> (TcpConnection \<Rightarrow> CSys res) \<Rightarrow> CSys res" where
  "cy_with c sys f = (case cy_conn sys c of None \<Rightarrow> Inl OutOfBounds | Some s \<Rightarrow> f s)"

definition cy_put :: "conn \<Rightarrow> TcpConnection \<Rightarrow> CSys \<Rightarrow> CSys" where
  "cy_put c s sys = sys\<lparr>cy_conn := (cy_conn sys)(c \<mapsto> s)\<rparr>"

definition on_connector :: "co_ev \<Rightarrow> CSys \<Rightarrow> CSys res" where
  "on_connector x sys = bindR (co_do x (cy_connector sys)) (\<lambda>co. Inr (sys\<lparr>cy_connector := co\<rparr>))"

text \<open>The calls the client makes, with what they meet: the address of a new channel and the answers of \<^verbatim>\<open>socket(2)\<close> and
  \<^verbatim>\<open>connect(2)\<close> for a call that may connect, the constructor of the object for a new connection.\<close>

datatype client_env = NoEnv | ConnectEnv chan int "errno option" | NewEnv "string \<Rightarrow> TcpConnection"

definition with_connect :: "client_env \<Rightarrow> (chan \<Rightarrow> int \<Rightarrow> errno option \<Rightarrow> co_ev) \<Rightarrow> CSys \<Rightarrow> CSys res" where
  "with_connect env f sys = (case env of ConnectEnv ch sock e \<Rightarrow> on_connector (f ch sock e) sys | _ \<Rightarrow> Inl OutOfBounds)"

fun client_call :: "kwrite \<Rightarrow> user_callbacks \<Rightarrow> client_env \<Rightarrow> client_call \<Rightarrow> CSys \<Rightarrow> CSys res" where
  "client_call kw u env ConnectorStart sys = with_connect env CoStart sys"
| "client_call kw u env ConnectorStop sys = on_connector CoStop sys"
| "client_call kw u env ConnectorRestart sys = with_connect env CoRestart sys"
| "client_call kw u env (ConnShutdown c) sys = cy_with c sys (\<lambda>s. bindR (do_user kw UShutdown s) (\<lambda>s1. Inr (cy_put c s1 sys)))"
| "client_call kw u env (ConnEstablished c) sys =
     (case env of NewEnv new \<Rightarrow> bindR (connectEstablished kw u (new (cn_name c))) (\<lambda>s. Inr (cy_put c s sys)) | _ \<Rightarrow> Inl OutOfBounds)"
| "client_call kw u env (ConnQueueDestroyed c) sys = Inr (sys\<lparr>cy_queue := cy_queue sys @ [c]\<rparr>)"
| "client_call kw u env (ConnSetCloseCallback c) sys = Inr sys"

definition client_op :: "kwrite \<Rightarrow> user_callbacks \<Rightarrow> client_env \<Rightarrow> (TcpClient \<Rightarrow> TcpClient res) \<Rightarrow> CSys \<Rightarrow> CSys res" where
  "client_op kw u env f sys =
     bindR (f (cy_client sys)) (\<lambda>cl.
     foldR (client_call kw u env) (drop (length (cl_calls (cy_client sys))) (cl_calls cl)) (sys\<lparr>cy_client := cl\<rparr>))"

text \<open>A member of a connection has run; the close callback is \<^verbatim>\<open>removeConnection()\<close>.\<close>

definition cy_settle :: "kwrite \<Rightarrow> user_callbacks \<Rightarrow> client_env \<Rightarrow> conn \<Rightarrow> TcpConnection \<Rightarrow> TcpConnection \<Rightarrow> CSys \<Rightarrow> CSys res" where
  "cy_settle kw u env c s s1 sys =
     (let sys1 = cy_put c s1 sys in
      if close_calls s < close_calls s1 then client_op kw u env (TcpClient_removeConnection c) sys1 else Inr sys1)"

definition cy_destroy :: "kwrite \<Rightarrow> user_callbacks \<Rightarrow> conn \<Rightarrow> CSys \<Rightarrow> CSys res" where
  "cy_destroy kw u c sys =
     cy_with c sys (\<lambda>s.
     bindR (connectDestroyed kw u s) (\<lambda>s1.
     bindR (Channel_destroy (tc_chan s1)) (\<lambda>_.
     Inr (sys\<lparr>cy_conn := (cy_conn sys)(c := None), cy_gone := cy_gone sys @ [(c, notices s1)]\<rparr>))))"

text \<open>\<^verbatim>\<open>Connector::handleWrite()\<close> calls \<^verbatim>\<open>newConnection()\<close> with the descriptor it hands over.\<close>

definition connector_writable :: "kwrite \<Rightarrow> user_callbacks \<Rightarrow> int \<Rightarrow> bool \<Rightarrow> nat \<Rightarrow> string \<Rightarrow> (int \<Rightarrow> string \<Rightarrow> TcpConnection) \<Rightarrow> CSys \<Rightarrow> CSys res" where
  "connector_writable kw u err self ptr peer new sys =
     bindR (on_connector (CoWrite err self) sys) (\<lambda>sys1.
     let handed = co_handed (cy_connector sys1) in
     if length (co_handed (cy_connector sys)) < length handed
     then client_op kw u (NewEnv (new (last handed))) (\<lambda>cl. Inr (TcpClient_newConnection ptr peer cl)) sys1
     else Inr sys1)"

datatype client_ev = ClConnect chan int "errno option" | ClDisconnect | ClStop | ClRetry | ClTimer chan int "errno option" | ClTask
  | ClWrite int bool nat string chan bool bool Reactor | ClError
  | ClDispatch conn "nat list \<Rightarrow> sys_read" Timestamp events chan int "errno option" | ClUser conn "user_call list"
  | ClForce conn chan int "errno option" | ClDestroy

fun client_do :: "kwrite \<Rightarrow> user_callbacks \<Rightarrow> client_ev \<Rightarrow> CSys \<Rightarrow> CSys res" where
  "client_do kw u (ClConnect ch sock e) sys = client_op kw u (ConnectEnv ch sock e) (\<lambda>cl. Inr (TcpClient_connect cl)) sys"
| "client_do kw u ClDisconnect sys = client_op kw u NoEnv (\<lambda>cl. Inr (TcpClient_disconnect cl)) sys"
| "client_do kw u ClStop sys = client_op kw u NoEnv (\<lambda>cl. Inr (TcpClient_stop cl)) sys"
| "client_do kw u ClRetry sys = Inr (sys\<lparr>cy_client := enableRetry (cy_client sys)\<rparr>)"
| "client_do kw u (ClTimer ch sock e) sys = on_connector (CoTimer ch sock e) sys"
| "client_do kw u ClTask sys = on_connector CoTask sys"
| "client_do kw u (ClWrite err self ptr peer ch wc hw rx) sys =
     connector_writable kw u err self ptr peer (\<lambda>fd nm. TcpConnection_new nm ch fd wc hw rx) sys"
| "client_do kw u ClError sys = on_connector CoError sys"
| "client_do kw u (ClDispatch c readv t r ch sock e) sys =
     cy_with c sys (\<lambda>s. bindR (conn_dispatch kw u readv t r s) (\<lambda>s1. cy_settle kw u (ConnectEnv ch sock e) c s s1 sys))"
| "client_do kw u (ClUser c calls) sys =
     cy_with c sys (\<lambda>s. bindR (foldR (do_user kw) calls s) (\<lambda>s1. cy_settle kw u NoEnv c s s1 sys))"
| "client_do kw u (ClForce c ch sock e) sys =
     (case cy_conn sys c of None \<Rightarrow> Inr sys
      | Some s \<Rightarrow> bindR (delayed_close kw u True s) (\<lambda>s1. cy_settle kw u (ConnectEnv ch sock e) c s s1 sys))"
| "client_do kw u ClDestroy sys =
     (case cy_queue sys of [] \<Rightarrow> Inr sys | c # cs \<Rightarrow> cy_destroy kw u c (sys\<lparr>cy_queue := cs\<rparr>))"

text \<open>When an event may come. A new object is at an address that no connection has.\<close>

definition may_restart :: "chan \<Rightarrow> int \<Rightarrow> Connector \<Rightarrow> bool" where
  "may_restart ch sock co \<longleftrightarrow> CResetChannel \<notin> set (co_queue co) \<and> new_channel_ok ch sock co \<and> 0 \<le> sock"

fun client_ok :: "kwrite \<Rightarrow> client_ev \<Rightarrow> CSys \<Rightarrow> bool" where
  "client_ok kw (ClConnect ch sock e) sys \<longleftrightarrow> co_ok (CoStart ch sock e) (cy_connector sys)"
| "client_ok kw (ClTimer ch sock e) sys \<longleftrightarrow> co_ok (CoTimer ch sock e) (cy_connector sys)"
| "client_ok kw (ClWrite err self ptr peer ch wc hw rx) sys \<longleftrightarrow>
     co_state (cy_connector sys) \<noteq> CkConnected \<and> (\<forall>fd \<in> set (in_progress (cy_connector sys)). new_ok (TcpConnection_new [] ch fd wc hw rx)) \<and>
     (\<forall>c. cn_id c = ptr \<longrightarrow> cy_conn sys c = None)"
| "client_ok kw (ClDispatch c readv t r ch sock e) sys \<longleftrightarrow>
     (case cy_conn sys c of None \<Rightarrow> False
      | Some s \<Rightarrow> tc_state s \<noteq> kDisconnected \<and> \<not> (hangs_up r \<and> asks_read r) \<and> (asks_read r \<longrightarrow> read_ok readv (tc_input s))) \<and>
     may_restart ch sock (cy_connector sys)"
| "client_ok kw (ClUser c calls) sys \<longleftrightarrow> (case cy_conn sys c of None \<Rightarrow> False | Some s \<Rightarrow> ucalls_ok kw calls s)"
| "client_ok kw (ClForce c ch sock e) sys \<longleftrightarrow> may_restart ch sock (cy_connector sys)"
| "client_ok kw _ sys \<longleftrightarrow> True"

section \<open>Invariant of the client\<close>

text \<open>A connection of the client is open and the current one, or closed and queued to be destroyed.\<close>

definition cphase :: "conn \<Rightarrow> TcpConnection option \<Rightarrow> bool \<Rightarrow> nat \<Rightarrow> bool" where
  "cphase c obj current queued \<longleftrightarrow>
     (case obj of None \<Rightarrow> \<not> current \<and> queued = 0
      | Some s \<Rightarrow> conn_rest s \<and> (if tc_state s = kDisconnected then \<not> current \<and> queued = 1 else current \<and> queued = 0))"

definition client_inv :: "CSys \<Rightarrow> bool" where
  "client_inv sys \<longleftrightarrow> co_inv (cy_connector sys) \<and> co_prot (cy_connector sys) \<and>
     (\<forall>c. cphase c (cy_conn sys c) (cl_connection (cy_client sys) = Some c) (count_list (cy_queue sys) c)) \<and>
     (cl_connection (cy_client sys) \<noteq> None \<longrightarrow> co_state (cy_connector sys) = CkConnected) \<and>
     (\<forall>c. cl_connection (cy_client sys) = Some c \<longrightarrow> cn_loop c = cl_loop (cy_client sys)) \<and>
     int (length (co_handed (cy_connector sys))) = cl_nextConnId (cy_client sys) - 1 \<and>
     (\<forall>(c, ns) \<in> set (cy_gone sys). ns = whole_life)"

lemma client_invD:
  assumes "client_inv sys"
  shows "co_inv (cy_connector sys)" "co_prot (cy_connector sys)"
    "cphase c (cy_conn sys c) (cl_connection (cy_client sys) = Some c) (count_list (cy_queue sys) c)"
    "cl_connection (cy_client sys) = Some c \<Longrightarrow> co_state (cy_connector sys) = CkConnected \<and> cn_loop c = cl_loop (cy_client sys)"
  using assms by (simp_all add: client_inv_def)

lemma client_inv_connector:
  assumes "client_inv sys" "co_inv co" "co_prot co" "co_handed co = co_handed (cy_connector sys)"
    "cl_connection (cy_client sys) \<noteq> None \<longrightarrow> co_state co = CkConnected"
  shows "client_inv (sys\<lparr>cy_connector := co\<rparr>)"
  using assms by (simp add: client_inv_def)

lemma client_inv_flags:
  assumes "client_inv sys" "cl_connection cl = cl_connection (cy_client sys)" "cl_loop cl = cl_loop (cy_client sys)"
    "cl_nextConnId cl = cl_nextConnId (cy_client sys)"
  shows "client_inv (sys\<lparr>cy_client := cl\<rparr>)"
  using assms by (simp add: client_inv_def)

lemma on_connector_ok:
  assumes i: "client_inv sys" and ok: "co_ok x (cy_connector sys)" and x: "\<And>err self. x \<noteq> CoWrite err self"
    and r: "\<And>ch sock e. x = CoRestart ch sock e \<Longrightarrow> cl_connection (cy_client sys) = None"
  shows "\<exists>sys'. on_connector x sys = Inr sys' \<and> client_inv sys'"
proof -
  obtain co where co: "co_do x (cy_connector sys) = Inr co" "co_inv co" "co_prot co" "co_handed co = co_handed (cy_connector sys)"
    "co_state (cy_connector sys) = CkConnected \<and> (\<forall>c sock e. x \<noteq> CoRestart c sock e) \<longrightarrow> co_state co = CkConnected"
    using co_progress [OF client_invD(1,2) [OF i] ok] x by blast
  have "cl_connection (cy_client sys) \<noteq> None \<longrightarrow> co_state co = CkConnected"
    using co(5) r client_invD(4) [OF i] by fastforce
  then have "client_inv (sys\<lparr>cy_connector := co\<rparr>)" by (rule client_inv_connector [OF i co(2-4)])
  then show ?thesis using co(1) by (simp add: on_connector_def)
qed

lemma cy_put_inv:
  assumes i: "client_inv sys" and ph: "cphase c (Some s) (cl_connection (cy_client sys) = Some c) (count_list (cy_queue sys) c)"
  shows "client_inv (cy_put c s sys)"
  using i ph by (simp add: client_inv_def cy_put_def)

lemma cl_calls_emit [simp]: "cl_calls (cl_emit x cl) = cl_calls cl @ [x]"
  by (simp add: cl_emit_def)

lemma cl_emit_simps [simp]:
  "cl_connection (cl_emit x cl) = cl_connection cl" "cl_loop (cl_emit x cl) = cl_loop cl" "cl_nextConnId (cl_emit x cl) = cl_nextConnId cl"
  "cl_retry (cl_emit x cl) = cl_retry cl" "cl_connect (cl_emit x cl) = cl_connect cl"
  by (simp_all add: cl_emit_def)

text \<open>\<^verbatim>\<open>removeConnection()\<close>: its assertions hold for the connection that has just closed.\<close>

lemma cy_settle_ok:
  assumes i: "client_inv sys" and c: "cy_conn sys c = Some s" and s1: "conn_rest s1" "tc_state s = kDisconnected \<Longrightarrow> tc_state s1 = kDisconnected"
    and env: "tc_state s1 = kDisconnected \<Longrightarrow> tc_state s \<noteq> kDisconnected \<Longrightarrow> env = ConnectEnv ch sock e \<and> may_restart ch sock (cy_connector sys)"
  shows "\<exists>sys'. cy_settle kw u env c s s1 sys = Inr sys' \<and> client_inv sys'"
proof -
  let ?cl = "cy_client sys"
  have ph: "cphase c (Some s) (cl_connection ?cl = Some c) (count_list (cy_queue sys) c)" using client_invD(3) [OF i, of c] c by simp
  then have rest: "conn_rest s" by (simp add: cphase_def)
  note closed = owned.closes_grows [OF rest s1]
  show ?thesis
  proof (cases "tc_state s \<noteq> kDisconnected \<and> tc_state s1 = kDisconnected")
    case False
    then have "client_inv (cy_put c s1 sys)" using ph s1 by (intro cy_put_inv [OF i]) (auto simp: cphase_def split: if_splits)
    then show ?thesis using closed False unfolding cy_settle_def Let_def by auto
  next
    case True
    note cls = True [THEN conjunct1] True [THEN conjunct2]
    have cur: "cl_connection ?cl = Some c" "count_list (cy_queue sys) c = 0" using ph cls(1) by (simp_all add: cphase_def)
    have lk: "co_state (cy_connector sys) = CkConnected" "cn_loop c = cl_loop ?cl" using client_invD(4) [OF i cur(1)] by simp_all
    define cl where "cl = cl_emit (ConnQueueDestroyed c) (?cl\<lparr>cl_connection := None\<rparr>)"
    define again where "again = (cl_retry ?cl \<and> cl_connect ?cl)"
    define cl' where "cl' = (if again then cl_emit ConnectorRestart cl else cl)"
    have rm: "TcpClient_removeConnection c ?cl = Inr cl'"
      using cur(1) lk(2) by (simp add: TcpClient_removeConnection_def cl_def cl'_def again_def Let_def)
    have calls: "drop (length (cl_calls ?cl)) (cl_calls cl') = ConnQueueDestroyed c # (if again then [ConnectorRestart] else [])"
      by (simp add: cl'_def cl_def)
    define sys2 where "sys2 = (cy_put c s1 sys)\<lparr>cy_client := cl', cy_queue := cy_queue sys @ [c]\<rparr>"
    have cl': "cl_connection cl' = None" "cl_nextConnId cl' = cl_nextConnId ?cl" by (simp_all add: cl'_def cl_def)
    have "cphase d (cy_conn sys2 d) False (count_list (cy_queue sys2) d)" for d
      using client_invD(3) [OF i, of d] cur cls s1(1) by (auto simp: cphase_def sys2_def cy_put_def split: option.splits if_splits)
    then have inv2: "client_inv sys2" using i cl' by (simp add: client_inv_def sys2_def cy_put_def)
    have "cy_settle kw u env c s s1 sys = foldR (client_call kw u env) (if again then [ConnectorRestart] else []) sys2"
      using closed cls rm calls by (simp add: cy_settle_def client_op_def sys2_def cy_put_def)
    moreover have "\<exists>sys'. with_connect env CoRestart sys2 = Inr sys' \<and> client_inv sys'"
    proof -
      have e: "env = ConnectEnv ch sock e" "may_restart ch sock (cy_connector sys)" using env [OF cls(2,1)] by blast+
      have "co_channel (cy_connector sys) = None" using client_invD(2) [OF i] e(2) lk(1) by (auto simp: co_prot_def may_restart_def)
      then have "co_ok (CoRestart ch sock e) (cy_connector sys2)" using e(2) lk(1) by (simp add: may_restart_def sys2_def cy_put_def)
      then show ?thesis using on_connector_ok [OF inv2, of "CoRestart ch sock e"] cl'(1) e(1) by (simp add: with_connect_def sys2_def)
    qed
    ultimately show ?thesis using inv2 by (simp add: foldR_last)
  qed
qed

section \<open>Every event keeps the invariant\<close>

lemma client_op_single:
  assumes "f (cy_client sys) = Inr cl" "cl_calls cl = cl_calls (cy_client sys) @ [x]"
  shows "client_op kw u env f sys = client_call kw u env x (sys\<lparr>cy_client := cl\<rparr>)"
  using assms by (simp add: client_op_def foldR_last)

lemma client_connect:
  assumes i: "client_inv sys" and ok: "client_ok kw (ClConnect ch sock e) sys"
  shows "\<exists>sys'. client_do kw u (ClConnect ch sock e) sys = Inr sys' \<and> client_inv sys'"
proof -
  let ?cl = "TcpClient_connect (cy_client sys)"
  have "client_op kw u (ConnectEnv ch sock e) (\<lambda>cl. Inr (TcpClient_connect cl)) sys =
      client_call kw u (ConnectEnv ch sock e) ConnectorStart (sys\<lparr>cy_client := ?cl\<rparr>)"
    by (rule client_op_single) (simp_all add: TcpClient_connect_def)
  moreover have "client_inv (sys\<lparr>cy_client := ?cl\<rparr>)" by (rule client_inv_flags [OF i]) (simp_all add: TcpClient_connect_def)
  ultimately show ?thesis
    using on_connector_ok [of "sys\<lparr>cy_client := ?cl\<rparr>" "CoStart ch sock e"] ok by (simp add: with_connect_def)
qed

lemma client_stop:
  assumes i: "client_inv sys"
  shows "\<exists>sys'. client_do kw u ClStop sys = Inr sys' \<and> client_inv sys'"
proof -
  let ?cl = "TcpClient_stop (cy_client sys)"
  have "client_op kw u NoEnv (\<lambda>cl. Inr (TcpClient_stop cl)) sys = client_call kw u NoEnv ConnectorStop (sys\<lparr>cy_client := ?cl\<rparr>)"
    by (rule client_op_single) (simp_all add: TcpClient_stop_def)
  moreover have "client_inv (sys\<lparr>cy_client := ?cl\<rparr>)" by (rule client_inv_flags [OF i]) (simp_all add: TcpClient_stop_def)
  ultimately show ?thesis using on_connector_ok [of "sys\<lparr>cy_client := ?cl\<rparr>" CoStop] by simp
qed

lemma client_disconnect:
  assumes i: "client_inv sys" and k: "kw_contract kw"
  shows "\<exists>sys'. client_do kw u ClDisconnect sys = Inr sys' \<and> client_inv sys'"
proof -
  let ?cl = "TcpClient_disconnect (cy_client sys)"
  have inv: "client_inv (sys\<lparr>cy_client := ?cl\<rparr>)"
    by (rule client_inv_flags [OF i]) (simp_all add: TcpClient_disconnect_def Let_def split: option.split)
  show ?thesis
  proof (cases "cl_connection (cy_client sys)")
    case None
    then have "cl_calls ?cl = cl_calls (cy_client sys)" by (simp add: TcpClient_disconnect_def Let_def)
    then show ?thesis using inv by (simp add: client_op_def)
  next
    case (Some c)
    have run: "client_op kw u NoEnv (\<lambda>cl. Inr (TcpClient_disconnect cl)) sys = client_call kw u NoEnv (ConnShutdown c) (sys\<lparr>cy_client := ?cl\<rparr>)"
      by (rule client_op_single) (simp_all add: TcpClient_disconnect_def Let_def Some)
    obtain s where s: "cy_conn sys c = Some s" "conn_rest s" "tc_state s \<noteq> kDisconnected" "count_list (cy_queue sys) c = 0"
      using client_invD(3) [OF i, of c] Some by (auto simp: cphase_def split: option.splits if_splits)
    obtain s1 where s1: "do_user kw UShutdown s = Inr s1" "conn_rest s1" "tc_state s1 \<noteq> kDisconnected"
      using do_users_rest [OF s(2) k, of "[UShutdown]"] s(3) by (cases "do_user kw UShutdown s") (auto simp: foldR_last simp del: do_user.simps)
    have cc: "cl_connection ?cl = Some c" using Some by (simp add: TcpClient_disconnect_def Let_def)
    have "client_inv (cy_put c s1 (sys\<lparr>cy_client := ?cl\<rparr>))"
      by (rule cy_put_inv [OF inv]) (use s s1 cc in \<open>simp add: cphase_def\<close>)
    then show ?thesis using run s(1) s1(1) by (simp add: cy_with_def)
  qed
qed

text \<open>The connector hands over a socket only while the client has no connection.\<close>

lemma client_write:
  assumes i: "client_inv sys" and k: "kw_contract kw" "user_ok kw u" and ok: "client_ok kw (ClWrite err self ptr peer ch wc hw rx) sys"
  shows "\<exists>sys'. client_do kw u (ClWrite err self ptr peer ch wc hw rx) sys = Inr sys' \<and> client_inv sys'"
proof -
  let ?co = "cy_connector sys" and ?cl = "cy_client sys"
  have st: "co_state ?co \<noteq> CkConnected" using ok by simp
  then have none: "cl_connection ?cl = None" using client_invD(4) [OF i] by (cases "cl_connection ?cl") auto
  define fd where "fd = hd (in_progress ?co)"
  obtain co where co: "co_do (CoWrite err self) ?co = Inr co" "co_inv co" "co_prot co"
    "co_handed co = co_handed ?co \<or> co_handed co = co_handed ?co @ [fd] \<and> co_state co = CkConnected"
    using co_progress [OF client_invD(1,2) [OF i], of "CoWrite err self"] st by (auto simp: fd_def)
  have oc: "on_connector (CoWrite err self) sys = Inr (sys\<lparr>cy_connector := co\<rparr>)" using co(1) by (simp add: on_connector_def)
  show ?thesis
  proof (cases "co_handed co = co_handed ?co")
    case True
    have "client_inv (sys\<lparr>cy_connector := co\<rparr>)" by (rule client_inv_connector [OF i co(2,3) True]) (simp add: none)
    then show ?thesis using True oc by (simp add: connector_writable_def)
  next
    case False
    then have h: "co_handed co = co_handed ?co @ [fd]" "co_state co = CkConnected" using co(4) by auto
    define c where "c = \<lparr>cn_id = ptr, cn_name = connName (cl_name ?cl) peer (cl_nextConnId ?cl), cn_loop = cl_loop ?cl\<rparr>"
    define cl where "cl = TcpClient_newConnection ptr peer ?cl"
    have cl: "cl_calls cl = cl_calls ?cl @ [ConnEstablished c]" "cl_connection cl = Some c" "cl_nextConnId cl = cl_nextConnId ?cl + 1" "cl_loop cl = cl_loop ?cl"
      by (simp_all add: cl_def TcpClient_newConnection_def Let_def c_def)
    have "co_state ?co = CkConnecting" using st False co(1) by (cases "co_state ?co") (auto simp: Connector_handleWrite_def)
    then have "fd \<in> set (in_progress ?co)" using client_invD(1) [OF i] by (auto simp: co_inv_def in_progress_def fd_def)
    then have "new_ok (TcpConnection_new (cn_name c) ch fd wc hw rx)" using ok new_ok_name by fastforce
    then obtain s where s: "connectEstablished kw u (TcpConnection_new (cn_name c) ch fd wc hw rx) = Inr s" "conn_rest s" "tc_state s \<noteq> kDisconnected"
      using new_ok_established [OF _ k] by blast
    have "cy_conn sys c = None" using ok by (simp add: c_def)
    then have q: "count_list (cy_queue sys) c = 0" using client_invD(3) [OF i, of c] by (simp add: cphase_def)
    let ?sys = "cy_put c s (sys\<lparr>cy_connector := co, cy_client := cl\<rparr>)"
    have "cphase d (cy_conn ?sys d) (cl_connection cl = Some d) (count_list (cy_queue ?sys) d)" for d
      using client_invD(3) [OF i, of d] q s none cl(2) by (auto simp: cphase_def cy_put_def split: option.splits if_splits)
    then have "client_inv ?sys" using i co(2,3) h cl by (simp add: client_inv_def cy_put_def c_def)
    moreover have "client_op kw u (NewEnv (\<lambda>nm. TcpConnection_new nm ch fd wc hw rx)) (\<lambda>cl. Inr (TcpClient_newConnection ptr peer cl)) (sys\<lparr>cy_connector := co\<rparr>) = Inr ?sys"
      using client_op_single [of "\<lambda>cl. Inr (TcpClient_newConnection ptr peer cl)" "sys\<lparr>cy_connector := co\<rparr>" cl "ConnEstablished c"] cl(1) s(1)
      by (simp add: cl_def)
    ultimately show ?thesis using oc h(1) by (simp add: connector_writable_def)
  qed
qed

lemma client_destroy:
  assumes i: "client_inv sys"
  shows "\<exists>sys'. client_do kw u ClDestroy sys = Inr sys' \<and> client_inv sys'"
proof (cases "cy_queue sys")
  case Nil
  then show ?thesis using i by simp
next
  case (Cons c cs)
  have ph: "cphase c (cy_conn sys c) (cl_connection (cy_client sys) = Some c) (count_list (cy_queue sys) c)" by (rule client_invD(3) [OF i])
  then obtain s where s: "cy_conn sys c = Some s" "conn_rest s" "tc_state s = kDisconnected" "cl_connection (cy_client sys) \<noteq> Some c"
    "count_list cs c = 0"
    using Cons by (auto simp: cphase_def split: option.splits if_splits)
  obtain s1 where s1: "connectDestroyed kw u s = Inr s1" "Channel_destroy (tc_chan s1) = Inr ()" "notices s1 = whole_life"
    using connectDestroyed_rest [OF s(2,3)] by blast
  let ?sys = "sys\<lparr>cy_queue := cs, cy_conn := (cy_conn sys)(c := None), cy_gone := cy_gone sys @ [(c, notices s1)]\<rparr>"
  have "cphase d (cy_conn ?sys d) (cl_connection (cy_client ?sys) = Some d) (count_list (cy_queue ?sys) d)" for d
    using client_invD(3) [OF i, of d] Cons s(4,5) by (cases "d = c") (simp add: cphase_def, simp)
  then have "client_inv ?sys" using i s1(3) by (auto simp: client_inv_def)
  then show ?thesis using Cons s(1) s1 by (simp add: cy_destroy_def cy_with_def)
qed

lemma cy_rest: "client_inv sys \<Longrightarrow> cy_conn sys c = Some s \<Longrightarrow> conn_rest s"
  using client_invD(3) [of sys c] by (simp add: cphase_def)

lemma client_step:
  assumes k: "kw_contract kw" "user_ok kw u" and ok: "client_ok kw x sys" and i: "client_inv sys"
  shows "\<exists>sys'. client_do kw u x sys = Inr sys' \<and> client_inv sys'"
proof (cases x)
  case (ClConnect ch sock e)
  with client_connect [OF i] ok show ?thesis by simp
next
  case ClDisconnect
  with client_disconnect [OF i k(1)] show ?thesis by simp
next
  case ClStop
  with client_stop [OF i] show ?thesis by simp
next
  case ClRetry
  have "client_inv (sys\<lparr>cy_client := enableRetry (cy_client sys)\<rparr>)" by (rule client_inv_flags [OF i]) (simp_all add: enableRetry_def)
  with ClRetry show ?thesis by simp
next
  case (ClTimer ch sock e)
  with on_connector_ok [OF i, of "CoTimer ch sock e"] ok show ?thesis by simp
next
  case ClTask
  with on_connector_ok [OF i, of CoTask] show ?thesis by simp
next
  case (ClWrite err self ptr peer ch wc hw rx)
  with client_write [OF i k] ok show ?thesis by blast
next
  case ClError
  with on_connector_ok [OF i, of CoError] ok show ?thesis by simp
next
  case (ClDispatch c readv t r ch sock e)
  then obtain s where s: "cy_conn sys c = Some s" "tc_state s \<noteq> kDisconnected" "\<not> (hangs_up r \<and> asks_read r)"
    "asks_read r \<longrightarrow> read_ok readv (tc_input s)" "may_restart ch sock (cy_connector sys)"
    using ok by (auto split: option.splits)
  obtain s1 where s1: "conn_dispatch kw u readv t r s = Inr s1" "conn_rest s1"
    using conn_dispatch_ok [OF cy_rest [OF i s(1)] s(2) k s(3,4)] by blast
  have "\<exists>sys'. cy_settle kw u (ConnectEnv ch sock e) c s s1 sys = Inr sys' \<and> client_inv sys'"
    by (rule cy_settle_ok [OF i s(1) s1(2)]) (use s(2,5) in simp_all)
  then show ?thesis using ClDispatch s(1) s1(1) by (simp add: cy_with_def)
next
  case (ClUser c calls)
  then obtain s where s: "cy_conn sys c = Some s" "ucalls_ok kw calls s" using ok by (auto split: option.splits)
  obtain s1 where s1: "foldR (do_user kw) calls s = Inr s1" "conn_rest s1" "tc_state s1 = kDisconnected \<longleftrightarrow> tc_state s = kDisconnected"
    using do_users_rest [OF cy_rest [OF i s(1)] k(1) s(2)] by blast
  have "\<exists>sys'. cy_settle kw u NoEnv c s s1 sys = Inr sys' \<and> client_inv sys'"
    by (rule cy_settle_ok [OF i s(1) s1(2)]) (use s1(3) in simp_all)
  then show ?thesis using ClUser s(1) s1(1) by (simp add: cy_with_def)
next
  case (ClForce c ch sock e)
  show ?thesis
  proof (cases "cy_conn sys c")
    case None
    then show ?thesis using ClForce i by simp
  next
    case (Some s)
    obtain s1 where s1: "delayed_close kw u True s = Inr s1" "conn_rest s1" "tc_state s1 = kDisconnected"
      using delayed_close_rest [OF cy_rest [OF i Some] k] by blast
    have "\<exists>sys'. cy_settle kw u (ConnectEnv ch sock e) c s s1 sys = Inr sys' \<and> client_inv sys'"
      by (rule cy_settle_ok [OF i Some s1(2)]) (use s1(3) ok ClForce in simp_all)
    then show ?thesis using ClForce Some s1(1) by simp
  qed
next
  case ClDestroy
  with client_destroy [OF i] show ?thesis by simp
qed

lemma CSys_new_inv:
  assumes "poller_inv rx" "isInLoopThread rx"
  shows "client_inv (CSys_new loop nm (Connector_new rx addr))"
proof -
  have "co_inv (Connector_new rx addr)" by (rule connector.reach_inv, rule reach_init) (use assms(1) in blast)
  then show ?thesis
    using assms(2) by (simp add: client_inv_def CSys_new_def TcpClient_new_def cphase_def co_prot_def Connector_new_def)
qed

text \<open>A client that is destroyed leaves its connection behind with another close callback,
  \<^verbatim>\<open>detail::removeConnection()\<close>, which needs no client; the connection then ends as the others do.\<close>

definition detail_removeConnection :: "conn \<Rightarrow> CSys \<Rightarrow> CSys" where
  "detail_removeConnection c sys = sys\<lparr>cy_queue := cy_queue sys @ [c]\<rparr>"

definition orphan_close :: "kwrite \<Rightarrow> user_callbacks \<Rightarrow> conn \<Rightarrow> CSys \<Rightarrow> CSys res" where
  "orphan_close kw u c sys =
     cy_with c sys (\<lambda>s. bindR (delayed_close kw u True s) (\<lambda>s1.
     let sys1 = cy_put c s1 sys in
     Inr (if close_calls s < close_calls s1 then detail_removeConnection c sys1 else sys1)))"

lemma orphan_destroyed:
  assumes k: "kw_contract kw" "user_ok kw u" and i: "client_inv sys" and c: "cl_connection (cy_client sys) = Some c" "cy_queue sys = []"
  shows "TcpClient_dtor (cy_client sys) = cl_emit (ConnSetCloseCallback c) (cy_client sys) \<and>
     (\<exists>sys1 sys2. orphan_close kw u c sys = Inr sys1 \<and> client_do kw u ClDestroy sys1 = Inr sys2 \<and> cy_conn sys2 c = None \<and>
        cy_gone sys2 = cy_gone sys @ [(c, whole_life)])"
proof -
  obtain s where s: "cy_conn sys c = Some s" "conn_rest s" "tc_state s \<noteq> kDisconnected"
    using client_invD(3) [OF i, of c] c(1) by (auto simp: cphase_def split: option.splits if_splits)
  obtain s1 where s1: "delayed_close kw u True s = Inr s1" "conn_rest s1" "tc_state s1 = kDisconnected"
    using delayed_close_rest [OF s(2) k] by blast
  have "close_calls s < close_calls s1" using owned.closes_grows [OF s(2) s1(2)] s(3) s1(3) by simp
  then have "orphan_close kw u c sys = Inr (detail_removeConnection c (cy_put c s1 sys))" using s(1) s1(1) by (simp add: orphan_close_def cy_with_def)
  moreover obtain s2 where "connectDestroyed kw u s1 = Inr s2" "Channel_destroy (tc_chan s2) = Inr ()" "notices s2 = whole_life"
    using connectDestroyed_rest [OF s1(2,3)] by blast
  ultimately show ?thesis
    using c by (simp add: TcpClient_dtor_def detail_removeConnection_def cy_put_def cy_destroy_def cy_with_def)
qed

section \<open>Properties\<close>


lemma connector_example_connects:
  obtains co where "Connector_start 0 7 (Some EINPROGRESS) connector_example = Inr co" "co_state co = CkConnecting" "in_progress co = [7]"
proof -
  let ?s = "connector_example\<lparr>co_connect := True, co_created := [7]\<rparr>"
  have n: "new_channel_ok 0 7 ?s" "co_channel ?s = None"
    using connector_example_fresh by (simp_all add: new_channel_ok_def Let_def) (simp add: connector_example_def Connector_new_def)
  obtain rx where rx: "connecting 0 7 ?s = Inr (?s\<lparr>co_state := CkConnecting, co_channel := Some 0, co_rx := rx\<rparr>)" "ch_fd (heap rx 0) = 7"
    by (rule connecting_ok [OF n(1) _ n(2)]) simp
  then have "Connector_start 0 7 (Some EINPROGRESS) connector_example = Inr (?s\<lparr>co_state := CkConnecting, co_channel := Some 0, co_rx := rx\<rparr>)"
    by (simp add: Connector_start_def startInLoop_def connect_def createNonblockingOrDie_def connector_example_def Connector_new_def
        assertInLoopThread_def isInLoopThread_def rx_example_def Let_def)
  then show ?thesis by (rule that) (simp_all add: in_progress_def rx(2))
qed


text \<open>Without retry, a client whose connection has ended cannot connect again: its connector is left in \<^verbatim>\<open>kConnected\<close>, and \<^verbatim>\<open>connect()\<close> does
  not look at the state (as a remark in the source notes) before \<^verbatim>\<open>startInLoop()\<close> asserts \<^verbatim>\<open>kDisconnected\<close>.\<close>

theorem reconnect_aborts:
  assumes k: "kw_contract kw" "user_ok kw u" and i: "client_inv sys" and c: "cl_connection (cy_client sys) = Some c" "\<not> cl_retry (cy_client sys)"
  shows "\<exists>sys'. client_do kw u (ClForce c ch sock e) sys = Inr sys' \<and> cl_connection (cy_client sys') = None \<and>
     client_do kw u (ClConnect ch2 sock2 e2) sys' = Inl (AssertFailed ''state_ == kDisconnected'')"
proof -
  let ?cl = "cy_client sys"
  obtain s where s: "cy_conn sys c = Some s" "conn_rest s" "tc_state s \<noteq> kDisconnected"
    using client_invD(3) [OF i, of c] c(1) by (auto simp: cphase_def split: option.splits if_splits)
  obtain s1 where s1: "delayed_close kw u True s = Inr s1" "conn_rest s1" "tc_state s1 = kDisconnected"
    using delayed_close_rest [OF s(2) k] by blast
  have closes: "close_calls s < close_calls s1" using owned.closes_grows [OF s(2) s1(2)] s(3) s1(3) by simp
  have lk: "co_state (cy_connector sys) = CkConnected" "cn_loop c = cl_loop ?cl" using client_invD(4) [OF i c(1)] by simp_all
  let ?cl' = "cl_emit (ConnQueueDestroyed c) (?cl\<lparr>cl_connection := None\<rparr>)"
  let ?sys = "(cy_put c s1 sys)\<lparr>cy_client := ?cl', cy_queue := cy_queue sys @ [c]\<rparr>"
  have run: "client_do kw u (ClForce c ch sock e) sys = Inr ?sys"
    using s(1) s1(1) closes c lk(2)
    by (simp add: cy_settle_def client_op_def TcpClient_removeConnection_def cy_put_def)
  have "assertInLoopThread (co_rx (cy_connector sys)) = Inr ()" using client_invD(2) [OF i] by (simp add: co_prot_def assertInLoopThread_def)
  then have "client_do kw u (ClConnect ch2 sock2 e2) ?sys = Inl (AssertFailed ''state_ == kDisconnected'')"
    using lk(1) by (simp add: client_op_def TcpClient_connect_def with_connect_def on_connector_def Connector_start_def startInLoop_def cy_put_def)
  with run show ?thesis by simp
qed

end
