(* ===== verification/Logging.thy ===== *)
theory Logging
  imports LogStream Timestamp ThreadPool
begin

text \<open>
  \<^verbatim>\<open>Logger\<close> and \<^verbatim>\<open>LogFile\<close> (\<^verbatim>\<open>src/base/Logging.h\<close>, \<^verbatim>\<open>src/base/Logging.cc\<close>, \<^verbatim>\<open>src/base/LogFile.cc\<close>): what one log
  statement writes, on which levels, and how the text is spread over files.

  The time text of the last second is cached for each thread in \<open>t_time\<close> and \<open>t_lastSecond\<close>. The thread
  id comes from \<^verbatim>\<open>CurrentThread\<close> (theory \<open>ThreadPool\<close>), the conversions of items from theory \<open>LogStream\<close>.
\<close>

section \<open>Levels\<close>

datatype LogLevel = TRACE | DEBUG | INFO | WARN | ERROR | FATAL

fun level_num :: "LogLevel \<Rightarrow> nat" where
  "level_num TRACE = 0"
| "level_num DEBUG = 1"
| "level_num INFO = 2"
| "level_num WARN = 3"
| "level_num ERROR = 4"
| "level_num FATAL = 5"

lemma level_num_inj: "level_num a = level_num b \<Longrightarrow> a = b"
  by (cases a; cases b) simp_all

instantiation LogLevel :: linorder
begin

definition less_eq_LogLevel :: "LogLevel \<Rightarrow> LogLevel \<Rightarrow> bool" where
  "less_eq_LogLevel a b \<longleftrightarrow> level_num a \<le> level_num b"

definition less_LogLevel :: "LogLevel \<Rightarrow> LogLevel \<Rightarrow> bool" where
  "less_LogLevel a b \<longleftrightarrow> level_num a < level_num b"

instance
  by standard (auto simp: less_eq_LogLevel_def less_LogLevel_def intro: level_num_inj)

end

definition initLogLevel :: "bool \<Rightarrow> bool \<Rightarrow> LogLevel" where
  "initLogLevel env_trace env_debug = (if env_trace then TRACE else if env_debug then DEBUG else INFO)"

fun LogLevelName :: "LogLevel \<Rightarrow> string" where
  "LogLevelName TRACE = ''TRACE ''"
| "LogLevelName DEBUG = ''DEBUG ''"
| "LogLevelName INFO = ''INFO  ''"
| "LogLevelName WARN = ''WARN  ''"
| "LogLevelName ERROR = ''ERROR ''"
| "LogLevelName FATAL = ''FATAL ''"

text \<open>The macros: the condition in front of the logger, and the level of the logger.\<close>

datatype log_macro = LOG_TRACE | LOG_DEBUG | LOG_INFO | LOG_WARN | LOG_ERROR | LOG_FATAL | LOG_SYSERR | LOG_SYSFATAL

fun macro_gate :: "log_macro \<Rightarrow> LogLevel \<Rightarrow> bool" where
  "macro_gate LOG_TRACE logLevel \<longleftrightarrow> logLevel \<le> TRACE"
| "macro_gate LOG_DEBUG logLevel \<longleftrightarrow> logLevel \<le> DEBUG"
| "macro_gate LOG_INFO logLevel \<longleftrightarrow> logLevel \<le> INFO"
| "macro_gate LOG_WARN logLevel \<longleftrightarrow> logLevel \<le> INFO"
| "macro_gate LOG_ERROR logLevel \<longleftrightarrow> logLevel \<le> INFO"
| "macro_gate LOG_FATAL logLevel \<longleftrightarrow> logLevel \<le> INFO"
| "macro_gate LOG_SYSERR logLevel \<longleftrightarrow> logLevel \<le> INFO"
| "macro_gate LOG_SYSFATAL logLevel \<longleftrightarrow> logLevel \<le> INFO"

fun macro_level :: "log_macro \<Rightarrow> LogLevel" where
  "macro_level LOG_TRACE = TRACE"
| "macro_level LOG_DEBUG = DEBUG"
| "macro_level LOG_INFO = INFO"
| "macro_level LOG_WARN = WARN"
| "macro_level LOG_ERROR = ERROR"
| "macro_level LOG_FATAL = FATAL"
| "macro_level LOG_SYSERR = ERROR"
| "macro_level LOG_SYSFATAL = FATAL"

section \<open>A log line\<close>

text \<open>\<^verbatim>\<open>SourceFile\<close>: the part of the path behind the last slash.\<close>

definition SourceFile :: "string \<Rightarrow> string" where
  "SourceFile path = rev (takeWhile (\<lambda>c. c \<noteq> CHR ''/'') (rev path))"

record log_cache =
  t_time :: string
  t_lastSecond :: int

text \<open>The helper class \<open>T\<close> of \<^verbatim>\<open>Logging.cc\<close> asserts the length it is given.\<close>

definition put_T :: "string \<Rightarrow> nat \<Rightarrow> FixedBuffer \<Rightarrow> FixedBuffer res" where
  "put_T str len b = bindR (assertR (length str = len) ''strlen(str) == len_'') (\<lambda>_. fb_append str b)"

definition time_text :: "int \<Rightarrow> string" where
  "time_text seconds =
     (let tm_time = gmtime seconds in
      printf_d 4 (tm_year tm_time + 1900) @ printf_0d 2 (tm_mon tm_time + 1) @ printf_0d 2 (tm_mday tm_time)
      @ '' '' @ printf_0d 2 (tm_hour tm_time) @ '':'' @ printf_0d 2 (tm_min tm_time) @ '':'' @ printf_0d 2 (tm_sec tm_time))"

definition formatTime :: "Timestamp \<Rightarrow> log_cache \<Rightarrow> FixedBuffer \<Rightarrow> (log_cache \<times> FixedBuffer) res" where
  "formatTime time c b =
     (let seconds = microSecondsSinceEpoch time sdiv 1000000;
          microseconds = microSecondsSinceEpoch time smod 1000000 in
      bindR (if seconds \<noteq> t_lastSecond c then
               bindR (assertR (length (time_text seconds) = 17) ''len == 17'') (\<lambda>_.
               Inr \<lparr>t_time = snprintf_buf 32 (time_text seconds), t_lastSecond = seconds\<rparr>)
             else Inr c) (\<lambda>c1.
      bindR (Fmt (''.'' @ printf_0d 6 microseconds @ ''Z '')) (\<lambda>us.
      bindR (assertR (length us = 9) ''us.length() == 9'') (\<lambda>_.
      bindR (put_T (t_time c1) 17 b) (\<lambda>b1.
      bindR (put_T us 9 b1) (\<lambda>b2. Inr (c1, b2)))))))"

text \<open>The part of the line in front of the message: \<^verbatim>\<open>Logger::Impl::Impl\<close>. \<open>errtext\<close> is what \<^verbatim>\<open>strerror_tl\<close> says.\<close>

definition Impl :: "LogLevel \<Rightarrow> int \<Rightarrow> string \<Rightarrow> Timestamp \<Rightarrow> string \<Rightarrow> log_cache \<Rightarrow> FixedBuffer \<Rightarrow> (log_cache \<times> FixedBuffer) res" where
  "Impl level savedErrno errtext time tidString c b =
     bindR (formatTime time c b) (\<lambda>(c1, b1).
     bindR (put_T tidString 6 b1) (\<lambda>b2.
     bindR (put_T (LogLevelName level) 6 b2) (\<lambda>b3.
     bindR (if savedErrno \<noteq> 0
            then foldR put_item [IStr errtext, IStr '' (errno='', IInt savedErrno, IStr '') ''] b3 else Inr b3) (\<lambda>b4.
     Inr (c1, b4)))))"

definition finish :: "string \<Rightarrow> int \<Rightarrow> FixedBuffer \<Rightarrow> FixedBuffer res" where
  "finish basename line b =
     foldR put_item [IStr '' - '', IStr basename, IChar (CHR '':''), IInt line, IChar (CHR 0x0A)] b"

text \<open>The four constructors differ in what they put behind the prefix: the function's name, or nothing.\<close>

definition Logger_new :: "log_macro \<Rightarrow> int \<Rightarrow> string \<Rightarrow> string \<Rightarrow> Timestamp \<Rightarrow> string \<Rightarrow> log_cache \<Rightarrow> FixedBuffer \<Rightarrow> (log_cache \<times> FixedBuffer) res" where
  "Logger_new m errno errtext func time tidString c b =
     (if m = LOG_SYSERR \<or> m = LOG_SYSFATAL then Impl (macro_level m) errno errtext time tidString c b
      else bindR (Impl (macro_level m) 0 errtext time tidString c b) (\<lambda>(c1, b1).
           bindR (foldR put_item [IStr func, IChar (CHR '' '')] b1) (\<lambda>b2. Inr (c1, b2))))"

text \<open>How a log statement ends: the text handed to \<^verbatim>\<open>g_output\<close>, and whether \<^verbatim>\<open>abort()\<close> follows.\<close>

definition Logger_dtor :: "LogLevel \<Rightarrow> string \<Rightarrow> int \<Rightarrow> FixedBuffer \<Rightarrow> (string \<times> bool) res" where
  "Logger_dtor level basename line b = bindR (finish basename line b) (\<lambda>b1. Inr (fb_asString b1, level = FATAL))"

definition log_statement ::
    "log_macro \<Rightarrow> LogLevel \<Rightarrow> int \<Rightarrow> string \<Rightarrow> string \<Rightarrow> int \<Rightarrow> string \<Rightarrow> Timestamp \<Rightarrow> string \<Rightarrow> log_item list \<Rightarrow> log_cache \<Rightarrow>
     FixedBuffer \<Rightarrow> (log_cache \<times> (string \<times> bool) option) res" where
  "log_statement m logLevel errno errtext path line func time tidString items c b =
     (if macro_gate m logLevel then
        bindR (Logger_new m errno errtext func time tidString c b) (\<lambda>(c1, b1).
        bindR (foldR put_item items b1) (\<lambda>b2.
        bindR (Logger_dtor (macro_level m) (SourceFile path) line b2) (\<lambda>out. Inr (c1, Some out))))
      else Inr (c, None))"

text \<open>The global output and flush functions, the level, and what a statement does with them. \<open>'w\<close> is
  the state they work on; the flag tells that \<^verbatim>\<open>abort()\<close> was called.\<close>

record 'w log_globals =
  g_logLevel :: LogLevel
  g_output :: "string \<Rightarrow> 'w \<Rightarrow> 'w"
  g_flush :: "'w \<Rightarrow> 'w"

definition setLogLevel :: "LogLevel \<Rightarrow> 'w log_globals \<Rightarrow> 'w log_globals" where
  "setLogLevel level g = g\<lparr>g_logLevel := level\<rparr>"

definition setOutput :: "(string \<Rightarrow> 'w \<Rightarrow> 'w) \<Rightarrow> 'w log_globals \<Rightarrow> 'w log_globals" where
  "setOutput out g = g\<lparr>g_output := out\<rparr>"

definition setFlush :: "('w \<Rightarrow> 'w) \<Rightarrow> 'w log_globals \<Rightarrow> 'w log_globals" where
  "setFlush flush g = g\<lparr>g_flush := flush\<rparr>"

definition log_effect :: "'w log_globals \<Rightarrow> (string \<times> bool) option \<Rightarrow> 'w \<Rightarrow> 'w \<times> bool" where
  "log_effect g out w =
     (case out of
        None \<Rightarrow> (w, False)
      | Some (text, fatal) \<Rightarrow> let w1 = g_output g text w in if fatal then (g_flush g w1, True) else (w1, False))"

definition CheckNotNull :: "'a option \<Rightarrow> 'a res" where
  "CheckNotNull ptr = (case ptr of None \<Rightarrow> Inl (Fatal ''Must be non NULL'') | Some p \<Rightarrow> Inr p)"

lemma silent_below_level:
  assumes "\<not> macro_gate m (g_logLevel g)"
    and "log_statement m (g_logLevel g) errno errtext path line func time tidString items c b = Inr (c', out)"
  shows "c' = c \<and> log_effect g out w = (w, False)"
  using assms by (auto simp: log_statement_def log_effect_def)

section \<open>The text of a line\<close>

text \<open>The reference: what the line reads as, without cache and buffer.\<close>

definition line_text :: "log_macro \<Rightarrow> int \<Rightarrow> string \<Rightarrow> string \<Rightarrow> int \<Rightarrow> string \<Rightarrow> int \<Rightarrow> string \<Rightarrow> log_item list \<Rightarrow> string" where
  "line_text m errno errtext path line func us tidString items =
     time_text (us div 1000000) @ ''.'' @ printf_0d 6 (us mod 1000000) @ ''Z '' @ tidString @ LogLevelName (macro_level m) @
     (if m = LOG_SYSERR \<or> m = LOG_SYSFATAL
      then (if errno \<noteq> 0 then errtext @ '' (errno='' @ show_int errno @ '') '' else [])
      else func @ '' '') @
     concat (map item_text items) @ '' - '' @ SourceFile path @ '':'' @ show_int line @ [CHR 0x0A]"

definition cache_ok :: "log_cache \<Rightarrow> bool" where
  "cache_ok c \<longleftrightarrow> t_lastSecond c \<noteq> 0 \<longrightarrow> t_time c = time_text (t_lastSecond c)"

lemma length_time_text:
  assumes "0 \<le> t" "t < 253402300800"
  shows "length (time_text t) = 17"
proof -
  define y m d where "y = tm_year (gmtime t) + 1900" and "m = tm_mon (gmtime t) + 1" and "d = tm_mday (gmtime t)"
  note g = gmtime_date [OF assms, folded y_def m_def d_def]
  note c = gmtime_clock [of t]
  have md: "1 \<le> m" "m \<le> 12" "1 \<le> d" "d \<le> 31"
    using g by (auto simp: valid_ymd_def days_in_month_def split: if_splits)
  have "length (printf_d 4 y) = 4" using printf_d_4 [of y] g by auto
  moreover have "length (printf_0d 2 m) = 2" "length (printf_0d 2 d) = 2" "length (printf_0d 2 (tm_hour (gmtime t))) = 2"
    "length (printf_0d 2 (tm_min (gmtime t))) = 2" "length (printf_0d 2 (tm_sec (gmtime t))) = 2"
    using md c by (auto intro!: length_printf_0d)
  ultimately show ?thesis by (simp add: time_text_def Let_def y_def m_def d_def)
qed

lemma fb_append_room:
  assumes "fb_inv b" "length t + kMaxNumericSize \<le> length (fb_data b) - fb_cur b"
  shows "\<exists>b'. fb_append t b = Inr b' \<and> fb_inv b' \<and> fb_asString b' = fb_asString b @ t \<and>
     length (fb_data b') - fb_cur b' = length (fb_data b) - fb_cur b - length t"
  using fb_append_spec [OF assms(1), of t] assms unfolding put_spec_def fb_inv_def by (auto simp: kMaxNumericSize_def)

text \<open>A sequence of items where there is room, with what room is left.\<close>

lemma puts_room:
  assumes "fb_inv b" "list_all item_ok xs" "length (concat (map item_text xs)) + kMaxNumericSize \<le> length (fb_data b) - fb_cur b"
  shows "\<exists>b'. foldR put_item xs b = Inr b' \<and> fb_inv b' \<and> fb_asString b' = fb_asString b @ concat (map item_text xs) \<and>
     length (fb_data b') - fb_cur b' = length (fb_data b) - fb_cur b - length (concat (map item_text xs))"
  using assms
proof (induction xs arbitrary: b)
  case (Cons x xs)
  have "\<exists>u. put_item x b = Inr u \<and> fb_inv u \<and> fb_asString u = fb_asString b @ item_text x \<and>
     length (fb_data b) - fb_cur b = length (fb_data u) - fb_cur u + length (item_text x)"
    using log_stream.put_all_or_nothing [of b x] Cons.prems by auto
  then obtain u where u: "put_item x b = Inr u" "fb_inv u" "fb_asString u = fb_asString b @ item_text x"
     "length (fb_data b) - fb_cur b = length (fb_data u) - fb_cur u + length (item_text x)" by blast
  with Cons.IH [of u] Cons.prems show ?case by auto
qed simp

definition room :: "FixedBuffer \<Rightarrow> nat" where
  "room b = length (fb_data b) - fb_cur b"

definition wrote :: "string \<Rightarrow> FixedBuffer \<Rightarrow> FixedBuffer \<Rightarrow> bool" where
  "wrote t b b' \<longleftrightarrow> fb_inv b' \<and> fb_asString b' = fb_asString b @ t \<and> room b = room b' + length t"

lemma wrote_trans: "wrote t a b \<Longrightarrow> wrote u b c \<Longrightarrow> wrote (t @ u) a c"
  by (simp add: wrote_def)

lemma wrote_refl: "fb_inv b \<Longrightarrow> wrote [] b b"
  by (simp add: wrote_def)

lemma put_T_wrote:
  "fb_inv b \<Longrightarrow> length t = n \<Longrightarrow> n + kMaxNumericSize \<le> room b \<Longrightarrow> \<exists>b'. put_T t n b = Inr b' \<and> wrote t b b'"
  using fb_append_room [of b t] by (auto simp: put_T_def wrote_def room_def)

lemma puts_wrote:
  "fb_inv b \<Longrightarrow> list_all item_ok xs \<Longrightarrow> length (concat (map item_text xs)) + kMaxNumericSize \<le> room b \<Longrightarrow>
   \<exists>b'. foldR put_item xs b = Inr b' \<and> wrote (concat (map item_text xs)) b b'"
  using puts_room [of b xs] by (auto simp: wrote_def room_def)

text \<open>The cached time is the time: the cache changes nothing in the text.\<close>

lemma formatTime_wrote:
  assumes b: "fb_inv b" "26 + kMaxNumericSize \<le> room b" and c: "cache_ok c"
    and us: "1000000 \<le> us" "us < 253402300800 * 1000000"
  shows "\<exists>c' b'. formatTime (Timestamp us) c b = Inr (c', b') \<and> cache_ok c' \<and>
     wrote (time_text (us div 1000000) @ ''.'' @ printf_0d 6 (us mod 1000000) @ ''Z '') b b'"
proof -
  define t u where "t = us div 1000000" and "u = us mod 1000000"
  have t: "1 \<le> t" "t < 253402300800" using us by (auto simp: t_def zdiv_mono1 [of 1000000 us 1000000, simplified] div_less_iff_less_mult)
  have u: "0 \<le> u" "u < 10 ^ 6" by (auto simp: u_def)
  have sd: "us sdiv 1000000 = t" "us smod 1000000 = u" using us by (simp_all add: t_def u_def sdiv_nonneg smod_nonneg)
  have len: "length (time_text t) = 17" using t by (intro length_time_text) simp_all
  define c1 where "c1 = (if t \<noteq> t_lastSecond c then \<lparr>t_time = time_text t, t_lastSecond = t\<rparr> else c)"
  have c1: "t_time c1 = time_text t" "cache_ok c1" using c t by (auto simp: c1_def cache_ok_def)
  have step: "(if t \<noteq> t_lastSecond c then
       bindR (assertR (length (time_text t) = 17) ''len == 17'') (\<lambda>_. Inr \<lparr>t_time = snprintf_buf 32 (time_text t), t_lastSecond = t\<rparr>)
     else Inr c) = Inr c1"
    using len by (simp add: c1_def snprintf_buf_def)
  define us_txt where "us_txt = ''.'' @ printf_0d 6 u @ ''Z ''"
  have "length (printf_0d 6 u) = 6" using u by (intro length_printf_0d) auto
  then have l9: "length us_txt = 9" by (simp add: us_txt_def)
  then have f: "Fmt us_txt = Inr us_txt" by (simp add: Fmt_def snprintf_buf_def)
  obtain b1 where b1: "put_T (t_time c1) 17 b = Inr b1" "wrote (time_text t) b b1"
    using put_T_wrote [of b "t_time c1" 17] b len c1(1) by auto
  obtain b2 where b2: "put_T us_txt 9 b1 = Inr b2" "wrote us_txt b1 b2"
    using put_T_wrote [of b1 us_txt 9] b1(2) b l9 len by (auto simp: wrote_def)
  have "formatTime (Timestamp us) c b = Inr (c1, b2)"
    using step f l9 b1(1) b2(1) by (simp add: formatTime_def sd us_txt_def Let_def)
  then show ?thesis using c1(2) wrote_trans [OF b1(2) b2(2)] by (auto simp: t_def u_def us_txt_def)
qed

lemma length_LogLevelName [simp]: "length (LogLevelName l) = 6"
  by (cases l) simp_all

lemma Impl_wrote:
  assumes "fb_inv b" "cache_ok c" "1000000 \<le> us" "us < 253402300800 * 1000000" "length tid = 6" "item_ok (IInt e)"
    and r: "length errtext + 120 \<le> room b"
  shows "\<exists>c' b'. Impl l e errtext (Timestamp us) tid c b = Inr (c', b') \<and> cache_ok c' \<and>
     wrote (time_text (us div 1000000) @ ''.'' @ printf_0d 6 (us mod 1000000) @ ''Z '' @ tid @ LogLevelName l @
       (if e \<noteq> 0 then errtext @ '' (errno='' @ show_int e @ '') '' else [])) b b'"
proof -
  let ?tt = "time_text (us div 1000000) @ ''.'' @ printf_0d 6 (us mod 1000000) @ ''Z ''"
  obtain c1 b1 where b1: "formatTime (Timestamp us) c b = Inr (c1, b1)" "cache_ok c1" "wrote ?tt b b1"
    using formatTime_wrote [OF assms(1) _ assms(2-4)] r by (auto simp: kMaxNumericSize_def)
  have lt: "length (time_text (us div 1000000)) = 17" "length (printf_0d 6 (us mod 1000000)) = 6"
    using assms(3,4) by (auto intro!: length_time_text length_printf_0d simp: pos_imp_zdiv_nonneg_iff div_less_iff_less_mult)
  have r1: "room b = room b1 + 26" "fb_inv b1" using b1(3) lt by (simp_all add: wrote_def)
  obtain b2 where b2: "put_T tid 6 b1 = Inr b2" "wrote tid b1 b2"
    using put_T_wrote [OF r1(2) assms(5)] r r1(1) by (auto simp: kMaxNumericSize_def)
  have r2: "room b1 = room b2 + 6" "fb_inv b2" using b2(2) assms(5) by (simp_all add: wrote_def)
  obtain b3 where b3: "put_T (LogLevelName l) 6 b2 = Inr b3" "wrote (LogLevelName l) b2 b3"
    using put_T_wrote [OF r2(2), of "LogLevelName l" 6] r r1(1) r2(1) by (auto simp: kMaxNumericSize_def)
  have r3: "room b2 = room b3 + 6" "fb_inv b3" using b3(2) by (simp_all add: wrote_def)
  let ?et = "if e \<noteq> 0 then errtext @ '' (errno='' @ show_int e @ '') '' else []"
  have le: "length (show_int e) \<le> 20" using assms(6) by (intro length_show_int) simp_all
  have "\<exists>b4. (if e \<noteq> 0 then foldR put_item [IStr errtext, IStr '' (errno='', IInt e, IStr '') ''] b3 else Inr b3) = Inr b4 \<and> wrote ?et b3 b4"
  proof (cases "e = 0")
    case True
    then show ?thesis using wrote_refl [OF r3(2)] by simp
  next
    case False
    have "length (concat (map item_text [IStr errtext, IStr '' (errno='', IInt e, IStr '') ''])) + kMaxNumericSize \<le> room b3"
      using r r1(1) r2(1) r3(1) le by (simp add: kMaxNumericSize_def)
    from puts_wrote [OF r3(2) _ this] assms(6) False show ?thesis by auto
  qed
  then obtain b4 where b4: "(if e \<noteq> 0 then foldR put_item [IStr errtext, IStr '' (errno='', IInt e, IStr '') ''] b3 else Inr b3) = Inr b4"
    "wrote ?et b3 b4" by blast
  have "Impl l e errtext (Timestamp us) tid c b = Inr (c1, b4)"
    unfolding Impl_def b1(1) using b2(1) b3(1) b4(1) by simp
  moreover have "wrote (((?tt @ tid) @ LogLevelName l) @ ?et) b b4"
    by (rule wrote_trans [OF wrote_trans [OF wrote_trans [OF b1(3) b2(2)] b3(2)] b4(2)])
  ultimately show ?thesis using b1(2) by (intro exI conjI) (simp_all only: append_assoc)
qed


lemma Logger_new_wrote:
  assumes "fb_inv b" "cache_ok c" "1000000 \<le> us" "us < 253402300800 * 1000000" "length tid = 6" "item_ok (IInt e)"
    and r: "length errtext + length func + 160 \<le> room b"
  shows "\<exists>c' b'. Logger_new m e errtext func (Timestamp us) tid c b = Inr (c', b') \<and> cache_ok c' \<and>
     wrote (time_text (us div 1000000) @ ''.'' @ printf_0d 6 (us mod 1000000) @ ''Z '' @ tid @ LogLevelName (macro_level m) @
       (if m = LOG_SYSERR \<or> m = LOG_SYSFATAL
        then (if e \<noteq> 0 then errtext @ '' (errno='' @ show_int e @ '') '' else []) else func @ '' '')) b b'"
proof (cases "m = LOG_SYSERR \<or> m = LOG_SYSFATAL")
  case True
  then show ?thesis using Impl_wrote [OF assms(1-6), of errtext "macro_level m"] r by (simp add: Logger_new_def)
next
  case False
  obtain c1 b1 where b1: "Impl (macro_level m) 0 errtext (Timestamp us) tid c b = Inr (c1, b1)" "cache_ok c1"
    "wrote (time_text (us div 1000000) @ ''.'' @ printf_0d 6 (us mod 1000000) @ ''Z '' @ tid @ LogLevelName (macro_level m)) b b1"
    using Impl_wrote [OF assms(1-5), of 0 errtext "macro_level m"] r by auto
  have "length (time_text (us div 1000000)) = 17" "length (printf_0d 6 (us mod 1000000)) = 6"
    using assms(3,4) by (auto intro!: length_time_text length_printf_0d simp: pos_imp_zdiv_nonneg_iff div_less_iff_less_mult)
  then have r1: "room b = room b1 + 38" "fb_inv b1" using b1(3) assms(5) by (simp_all add: wrote_def)
  have "length (concat (map item_text [IStr func, IChar (CHR '' '')])) + kMaxNumericSize \<le> room b1"
    using r r1(1) by (simp add: kMaxNumericSize_def)
  from puts_wrote [OF r1(2) _ this] obtain b2
    where b2: "foldR put_item [IStr func, IChar (CHR '' '')] b1 = Inr b2" "wrote (func @ '' '') b1 b2" by auto
  have "Logger_new m e errtext func (Timestamp us) tid c b = Inr (c1, b2)"
    unfolding Logger_new_def b1(1) using b2(1) False by simp
  then show ?thesis using b1(2) wrote_trans [OF b1(3) b2(2)] False by auto
qed


definition log_buffer_example :: FixedBuffer where
  "log_buffer_example = FixedBuffer_new (replicate 1024 (CHR 0x00))"


text \<open>All macros from \<^verbatim>\<open>LOG_WARN\<close> up test for the level \<^verbatim>\<open>INFO\<close>. When the level is set above it, to keep only
  warnings, errors or fatal errors, every statement is silent; and where the code relies on
  \<^verbatim>\<open>LOG_FATAL\<close> and \<^verbatim>\<open>LOG_SYSFATAL\<close> to end the process, it goes on.\<close>

theorem raised_level_silences_fatal:
  assumes "INFO < logLevel"
  shows "log_statement m logLevel errno errtext path line func time tid items c b = Inr (c, None)"
proof -
  have "\<not> macro_gate m logLevel" using assms by (cases m) (auto simp: less_eq_LogLevel_def less_LogLevel_def)
  then show ?thesis by (simp add: log_statement_def)
qed

theorem raised_level_silences_fatal_witness:
  "log_statement LOG_SYSFATAL ERROR 9 ''bad'' ''a.cc'' 1 ''f'' (Timestamp 5) '' 4242 '' [] \<lparr>t_time = [], t_lastSecond = 0\<rparr> log_buffer_example =
     Inr (\<lparr>t_time = [], t_lastSecond = 0\<rparr>, None)"
  by (rule raised_level_silences_fatal) (simp add: less_LogLevel_def)

end
