(* ===== verification/AsyncLogging.thy ===== *)
theory AsyncLogging
  imports Logging
begin

text \<open>
  \<^verbatim>\<open>LogFile\<close> and \<^verbatim>\<open>AsyncLogging\<close> (\<^verbatim>\<open>src/base/LogFile.cc\<close>, \<^verbatim>\<open>src/base/AsyncLogging.cc\<close>).

  A log file is the text \<^verbatim>\<open>fwrite\<close> has taken; \<open>lf_closed\<close> keeps the files that were rolled. \<open>fw\<close> is \<^verbatim>\<open>fwrite\<close>: for
  the \<open>k\<close>-th call of one append and its data, the number of bytes taken.

  The asynchronous log is a step relation between front ends that append under the lock and the
  one thread that collects the buffers under the lock and writes them outside. Buffers are \<open>FixedBuffer\<close>s
  (theory \<open>LogStream\<close>) over a storage that is a parameter, \<^verbatim>\<open>kLargeBuffer\<close> bytes in the code. \<open>al_lines\<close>
  records the lines that were appended.
\<close>

section \<open>LogFile\<close>

record File =
  fl_name :: string
  fl_text :: string
  fl_writtenBytes :: nat

definition File_new :: "string \<Rightarrow> File" where
  "File_new filename = \<lparr>fl_name = filename, fl_text = [], fl_writtenBytes = 0\<rparr>"

function file_loop :: "(nat \<Rightarrow> string \<Rightarrow> nat) \<Rightarrow> nat \<Rightarrow> string \<Rightarrow> File \<Rightarrow> File" where
  "file_loop fw k rest f =
     (if rest = [] then f
      else let x = fw k rest in
           if x = 0 then f else file_loop fw (k + 1) (drop x rest) (f\<lparr>fl_text := fl_text f @ take x rest\<rparr>))"
  by pat_completeness auto
termination
  by (relation "measure (\<lambda>(_, _, rest, _). length rest)") auto

declare file_loop.simps [simp del]

definition File_append :: "(nat \<Rightarrow> string \<Rightarrow> nat) \<Rightarrow> string \<Rightarrow> File \<Rightarrow> File" where
  "File_append fw logline f =
     (let n = fw 0 logline;
          f1 = file_loop fw 1 (drop n logline) (f\<lparr>fl_text := fl_text f @ take n logline\<rparr>)
      in f1\<lparr>fl_writtenBytes := fl_writtenBytes f1 + length logline\<rparr>)"

record LogFile =
  lf_basename :: string
  lf_rollSize :: nat
  lf_flushInterval :: int
  lf_count :: int
  lf_startOfPeriod :: int
  lf_lastRoll :: int
  lf_lastFlush :: int
  lf_file :: File
  lf_closed :: "File list"
  lf_flushes :: nat

definition kCheckTimeRoll :: int where "kCheckTimeRoll = 1024"
definition kRollPerSeconds :: int where "kRollPerSeconds = 60 * 60 * 24"

definition getLogFileName :: "string \<Rightarrow> int \<Rightarrow> string \<Rightarrow> int \<Rightarrow> string" where
  "getLogFileName basename now hostname pid =
     (let tm = gmtime now in
      basename @ ''.'' @ printf_0d 4 (tm_year tm + 1900) @ printf_0d 2 (tm_mon tm + 1) @ printf_0d 2 (tm_mday tm)
      @ ''-'' @ printf_0d 2 (tm_hour tm) @ printf_0d 2 (tm_min tm) @ printf_0d 2 (tm_sec tm) @ ''.''
      @ hostname @ snprintf_buf 32 (''.'' @ show_int pid) @ ''.log'')"

definition rollFile :: "int \<Rightarrow> string \<Rightarrow> int \<Rightarrow> LogFile \<Rightarrow> LogFile" where
  "rollFile now hostname pid lf =
     (let filename = getLogFileName (lf_basename lf) now hostname pid;
          start = now sdiv kRollPerSeconds * kRollPerSeconds in
      if now > lf_lastRoll lf then
        lf\<lparr>lf_lastRoll := now, lf_lastFlush := now, lf_startOfPeriod := start,
           lf_closed := lf_closed lf @ [lf_file lf], lf_file := File_new filename\<rparr>
      else lf)"

text \<open>The constructor starts without a file; \<open>lf_closed\<close> is emptied of the placeholder.\<close>

definition LogFile_new :: "string \<Rightarrow> nat \<Rightarrow> int \<Rightarrow> int \<Rightarrow> string \<Rightarrow> int \<Rightarrow> LogFile res" where
  "LogFile_new basename rollSize flushInterval now hostname pid =
     bindR (assertR (CHR ''/'' \<notin> set basename) ''basename.find('/') == string::npos'') (\<lambda>_.
     Inr ((rollFile now hostname pid
        \<lparr>lf_basename = basename, lf_rollSize = rollSize, lf_flushInterval = flushInterval, lf_count = 0, lf_startOfPeriod = 0,
         lf_lastRoll = 0, lf_lastFlush = 0, lf_file = File_new [], lf_closed = [], lf_flushes = 0\<rparr>)\<lparr>lf_closed := []\<rparr>))"

definition LogFile_flush :: "LogFile \<Rightarrow> LogFile" where
  "LogFile_flush lf = lf\<lparr>lf_flushes := lf_flushes lf + 1\<rparr>"

definition append_unlocked :: "(nat \<Rightarrow> string \<Rightarrow> nat) \<Rightarrow> int \<Rightarrow> string \<Rightarrow> int \<Rightarrow> string \<Rightarrow> LogFile \<Rightarrow> LogFile" where
  "append_unlocked fw now hostname pid logline lf0 =
     (let lf = lf0\<lparr>lf_file := File_append fw logline (lf_file lf0)\<rparr> in
      if fl_writtenBytes (lf_file lf) > lf_rollSize lf then rollFile now hostname pid lf
      else if lf_count lf > kCheckTimeRoll then
        let lf1 = lf\<lparr>lf_count := 0\<rparr>; thisPeriod = now sdiv kRollPerSeconds * kRollPerSeconds in
        if thisPeriod \<noteq> lf_startOfPeriod lf1 then rollFile now hostname pid lf1
        else if now - lf_lastFlush lf1 > lf_flushInterval lf1 then LogFile_flush (lf1\<lparr>lf_lastFlush := now\<rparr>)
        else lf1
      else lf\<lparr>lf_count := lf_count lf + 1\<rparr>)"

text \<open>With or without a mutex an append is \<^verbatim>\<open>append_unlocked\<close>, in one piece.\<close>

definition LogFile_append :: "(nat \<Rightarrow> string \<Rightarrow> nat) \<Rightarrow> int \<Rightarrow> string \<Rightarrow> int \<Rightarrow> string \<Rightarrow> LogFile \<Rightarrow> LogFile" where
  "LogFile_append fw now hostname pid logline lf = append_unlocked fw now hostname pid logline lf"

section \<open>Lines in files\<close>

lemma file_loop_progress:
  assumes "\<And>k d. d \<noteq> [] \<Longrightarrow> 0 < k \<Longrightarrow> 0 < fw k d" "0 < k"
  shows "file_loop fw k rest f = f\<lparr>fl_text := fl_text f @ rest\<rparr>"
  using assms(2)
proof (induction rest arbitrary: k f rule: length_induct)
  case (1 rest)
  show ?case
  proof (cases "rest = []")
    case False
    let ?x = "fw k rest"
    have x: "0 < ?x" using assms(1) False 1(2) by simp
    then have "length (drop ?x rest) < length rest" using False by simp
    then have "file_loop fw (k + 1) (drop ?x rest) (f\<lparr>fl_text := fl_text f @ take ?x rest\<rparr>) = f\<lparr>fl_text := fl_text f @ rest\<rparr>"
      using 1(1) by simp
    then show ?thesis using False x by (subst file_loop.simps) (simp add: Let_def)
  qed (simp add: file_loop.simps)
qed

lemma File_append_text:
  assumes "\<And>k d. d \<noteq> [] \<Longrightarrow> 0 < k \<Longrightarrow> 0 < fw k d"
  shows "fl_text (File_append fw logline f) = fl_text f @ logline"
    "fl_writtenBytes (File_append fw logline f) = fl_writtenBytes f + length logline"
  using file_loop_progress [of fw 1] assms by (simp_all add: File_append_def Let_def)

text \<open>The lines of each file, oldest file first.\<close>

definition spread :: "string list \<Rightarrow> LogFile \<Rightarrow> bool" where
  "spread lines lf \<longleftrightarrow> (\<exists>lss ls. map fl_text (lf_closed lf) = map concat lss \<and> fl_text (lf_file lf) = concat ls \<and> concat lss @ ls = lines)"

lemma spread_append:
  assumes "spread lines lf" "fl_text f = fl_text (lf_file lf) @ logline"
  shows "spread (lines @ [logline]) (lf\<lparr>lf_file := f\<rparr>)"
proof -
  obtain lss ls where l: "map fl_text (lf_closed lf) = map concat lss" "fl_text (lf_file lf) = concat ls" "concat lss @ ls = lines"
    using assms(1) unfolding spread_def by blast
  show ?thesis
    unfolding spread_def by (rule exI [of _ lss], rule exI [of _ "ls @ [logline]"]) (use l assms(2) in simp)
qed

lemma spread_roll: "spread lines lf \<Longrightarrow> spread lines (rollFile now hostname pid lf)"
proof -
  assume "spread lines lf"
  then obtain lss ls where l: "map fl_text (lf_closed lf) = map concat lss" "fl_text (lf_file lf) = concat ls" "concat lss @ ls = lines"
    unfolding spread_def by blast
  show ?thesis
  proof (cases "now > lf_lastRoll lf")
    case True
    then show ?thesis unfolding spread_def
      by (intro exI [of _ "lss @ [ls]"] exI [of _ "[]"]) (use l in \<open>simp add: rollFile_def Let_def File_new_def\<close>)
  next
    case False
    then show ?thesis using \<open>spread lines lf\<close> by (simp add: rollFile_def)
  qed
qed

lemma spread_frame: "lf_file lf' = lf_file lf \<Longrightarrow> lf_closed lf' = lf_closed lf \<Longrightarrow> spread lines lf' = spread lines lf"
  by (simp add: spread_def)

lemma append_unlocked_spread:
  assumes "spread lines lf" and fw: "\<And>k d. d \<noteq> [] \<Longrightarrow> 0 < k \<Longrightarrow> 0 < fw k d"
  shows "spread (lines @ [logline]) (append_unlocked fw now hostname pid logline lf)"
proof -
  let ?lf = "lf\<lparr>lf_file := File_append fw logline (lf_file lf)\<rparr>"
  have s: "spread (lines @ [logline]) ?lf" by (rule spread_append [OF assms(1) File_append_text(1) [OF fw]])
  then have s1: "spread (lines @ [logline]) (?lf\<lparr>lf_count := n\<rparr>)" for n by (simp add: spread_def)
  show ?thesis
    using s s1 spread_roll [OF s] spread_roll [OF s1 [of 0]]
    by (simp add: append_unlocked_def Let_def LogFile_flush_def spread_def)
qed

text \<open>A sequence of appends, each at its time.\<close>

fun lf_appends :: "(nat \<Rightarrow> string \<Rightarrow> nat) \<Rightarrow> string \<Rightarrow> int \<Rightarrow> (int \<times> string) list \<Rightarrow> LogFile \<Rightarrow> LogFile" where
  "lf_appends fw hostname pid [] lf = lf"
| "lf_appends fw hostname pid ((now, logline) # as) lf =
     lf_appends fw hostname pid as (LogFile_append fw now hostname pid logline lf)"

lemma lf_appends_spread:
  assumes "spread lines lf" "\<And>k d. d \<noteq> [] \<Longrightarrow> 0 < k \<Longrightarrow> 0 < fw k d"
  shows "spread (lines @ map snd as) (lf_appends fw hostname pid as lf)"
  using assms(1)
proof (induction as arbitrary: lines lf)
  case (Cons a as)
  obtain now logline where a: "a = (now, logline)" by (cases a)
  have "spread (lines @ [logline]) (LogFile_append fw now hostname pid logline lf)"
    unfolding LogFile_append_def by (rule append_unlocked_spread [OF Cons.prems assms(2)])
  from Cons.IH [OF this] show ?case by (simp add: a)
qed simp

section \<open>AsyncLogging\<close>

datatype bk_pc = BTop | BWrite | BDone

record AsyncLogging =
  al_running :: bool
  al_current :: FixedBuffer
  al_next :: "FixedBuffer option"
  al_buffers :: "FixedBuffer list"
  al_newBuffer1 :: "FixedBuffer option"
  al_newBuffer2 :: "FixedBuffer option"
  al_toWrite :: "FixedBuffer list"
  al_pc :: bk_pc
  al_out :: "string list"
  al_dropped :: bool
  al_lines :: "string list"

text \<open>The object after \<^verbatim>\<open>start()\<close>, with the thread in front of its loop.\<close>

definition AsyncLogging_new :: "string \<Rightarrow> AsyncLogging" where
  "AsyncLogging_new storage =
     (let b = fb_bzero (FixedBuffer_new storage) in
      \<lparr>al_running = True, al_current = b, al_next = Some b, al_buffers = [], al_newBuffer1 = Some b, al_newBuffer2 = Some b,
       al_toWrite = [], al_pc = BTop, al_out = [], al_dropped = False, al_lines = []\<rparr>)"

text \<open>How it gets there: the constructor, \<^verbatim>\<open>start()\<close>, which returns only after the latch was counted down behind the
  assertion, and the beginning of \<^verbatim>\<open>threadFunc\<close>. Before that \<open>al_pc\<close> says that no thread runs.\<close>

definition AsyncLogging_ctor :: "string \<Rightarrow> AsyncLogging" where
  "AsyncLogging_ctor storage =
     (let b = fb_bzero (FixedBuffer_new storage) in
      \<lparr>al_running = False, al_current = b, al_next = Some b, al_buffers = [], al_newBuffer1 = None, al_newBuffer2 = None,
       al_toWrite = [], al_pc = BDone, al_out = [], al_dropped = False, al_lines = []\<rparr>)"

definition threadFunc_begin :: "string \<Rightarrow> AsyncLogging \<Rightarrow> AsyncLogging res" where
  "threadFunc_begin storage s =
     bindR (assertR (al_running s) ''running_ == true'') (\<lambda>_.
     let b = fb_bzero (FixedBuffer_new storage) in
     Inr (s\<lparr>al_newBuffer1 := Some b, al_newBuffer2 := Some b, al_toWrite := [], al_pc := BTop\<rparr>))"

definition AsyncLogging_start :: "string \<Rightarrow> AsyncLogging \<Rightarrow> AsyncLogging res" where
  "AsyncLogging_start storage s = threadFunc_begin storage (s\<lparr>al_running := True\<rparr>)"

lemma start_ctor: "AsyncLogging_start storage (AsyncLogging_ctor storage) = Inr (AsyncLogging_new storage)"
  by (simp add: AsyncLogging_start_def threadFunc_begin_def AsyncLogging_ctor_def AsyncLogging_new_def Let_def)

definition AsyncLogging_append :: "string \<Rightarrow> string \<Rightarrow> AsyncLogging \<Rightarrow> AsyncLogging res" where
  "AsyncLogging_append storage logline s0 =
     (let s = s0\<lparr>al_lines := al_lines s0 @ [logline]\<rparr> in
      if fb_avail (al_current s) > int (length logline) then
        bindR (fb_append logline (al_current s)) (\<lambda>b. Inr (s\<lparr>al_current := b\<rparr>))
      else
        let s1 = s\<lparr>al_buffers := al_buffers s @ [al_current s]\<rparr>;
            b = (case al_next s1 of Some n \<Rightarrow> n | None \<Rightarrow> FixedBuffer_new storage)
        in bindR (fb_append logline b) (\<lambda>b. Inr (s1\<lparr>al_current := b, al_next := None\<rparr>)))"

definition AsyncLogging_stop :: "AsyncLogging \<Rightarrow> AsyncLogging" where
  "AsyncLogging_stop s = s\<lparr>al_running := False\<rparr>"

definition AsyncLogging_dtor :: "AsyncLogging \<Rightarrow> AsyncLogging" where
  "AsyncLogging_dtor s = (if al_running s then AsyncLogging_stop s else s)"

text \<open>The locked part of the loop. A null \<^verbatim>\<open>newBuffer1\<close> would be a null \<^verbatim>\<open>currentBuffer_\<close> afterwards.\<close>

definition collect :: "AsyncLogging \<Rightarrow> AsyncLogging res" where
  "collect s =
     (case al_newBuffer1 s of None \<Rightarrow> Inl OutOfBounds
      | Some nb \<Rightarrow>
          let s1 = s\<lparr>al_toWrite := al_buffers s @ [al_current s], al_buffers := [], al_current := nb, al_newBuffer1 := None\<rparr> in
          Inr (if al_next s1 = None then s1\<lparr>al_next := al_newBuffer2 s1, al_newBuffer2 := None\<rparr> else s1))"

text \<open>The part outside the lock: output, and two buffers are kept as the next spare ones.\<close>

definition take_spare :: "FixedBuffer option \<Rightarrow> FixedBuffer list \<Rightarrow> (FixedBuffer option \<times> FixedBuffer list) res" where
  "take_spare nb ws =
     (case nb of Some b \<Rightarrow> Inr (Some b, ws)
      | None \<Rightarrow> bindR (assertR (ws \<noteq> []) ''not buffersToWrite.empty()'') (\<lambda>_. Inr (Some (fb_reset (last ws)), butlast ws)))"

definition write_out :: "string \<Rightarrow> AsyncLogging \<Rightarrow> AsyncLogging res" where
  "write_out notice s =
     bindR (assertR (al_toWrite s \<noteq> []) ''not buffersToWrite.empty()'') (\<lambda>_.
     let over = length (al_toWrite s) > 25;
         out1 = (if over then al_out s @ [notice] else al_out s);
         ws = (if over then take 2 (al_toWrite s) else al_toWrite s);
         out2 = out1 @ map fb_asString ws;
         ws1 = (if length ws > 2 then take 2 ws else ws) in
     bindR (take_spare (al_newBuffer1 s) ws1) (\<lambda>(nb1, ws2).
     bindR (take_spare (al_newBuffer2 s) ws2) (\<lambda>(nb2, ws3).
     Inr (s\<lparr>al_out := out2, al_dropped := al_dropped s \<or> over, al_newBuffer1 := nb1, al_newBuffer2 := nb2, al_toWrite := []\<rparr>))))"

inductive al_step :: "string \<Rightarrow> AsyncLogging \<Rightarrow> AsyncLogging \<Rightarrow> bool" for storage :: string where
  al_append: "length logline < length storage \<Longrightarrow> AsyncLogging_append storage logline s = Inr s' \<Longrightarrow> al_step storage s s'"
| al_stop: "al_step storage s (AsyncLogging_stop s)"
| al_collect: "al_pc s = BTop \<Longrightarrow> al_running s \<Longrightarrow> collect s = Inr s' \<Longrightarrow> al_step storage s (s'\<lparr>al_pc := BWrite\<rparr>)"
| al_write: "al_pc s = BWrite \<Longrightarrow> write_out notice s = Inr s' \<Longrightarrow> al_step storage s (s'\<lparr>al_pc := BTop\<rparr>)"
| al_exit: "al_pc s = BTop \<Longrightarrow> \<not> al_running s \<Longrightarrow> al_step storage s (s\<lparr>al_pc := BDone\<rparr>)"

section \<open>Nothing is lost on the way\<close>

definition buf_ok :: "string \<Rightarrow> FixedBuffer \<Rightarrow> bool" where
  "buf_ok storage b \<longleftrightarrow> fb_inv b \<and> length (fb_data b) = length storage"

definition spare :: "string \<Rightarrow> FixedBuffer option \<Rightarrow> bool" where
  "spare storage x \<longleftrightarrow> (\<forall>b. x = Some b \<longrightarrow> buf_ok storage b \<and> fb_cur b = 0)"

definition al_inv :: "string \<Rightarrow> AsyncLogging \<Rightarrow> bool" where
  "al_inv storage s \<longleftrightarrow> length storage < SIZE_MOD \<and>
     buf_ok storage (al_current s) \<and> list_all (buf_ok storage) (al_buffers s) \<and> list_all (buf_ok storage) (al_toWrite s) \<and>
     spare storage (al_next s) \<and> spare storage (al_newBuffer1 s) \<and> spare storage (al_newBuffer2 s) \<and>
     (al_next s = None \<longrightarrow> al_buffers s \<noteq> []) \<and>
     (al_pc s \<noteq> BWrite \<longrightarrow> al_newBuffer1 s \<noteq> None \<and> al_newBuffer2 s \<noteq> None \<and> al_toWrite s = []) \<and>
     (al_pc s = BWrite \<longrightarrow> al_toWrite s \<noteq> [] \<and> (al_newBuffer2 s = None \<longrightarrow> 2 \<le> length (al_toWrite s))) \<and>
     (\<not> al_dropped s \<longrightarrow>
        concat (al_out s) @ concat (map fb_asString (al_toWrite s @ al_buffers s)) @ fb_asString (al_current s) = concat (al_lines s))"

lemma spare_text: "spare storage (Some b) \<Longrightarrow> fb_asString b = []"
  by (simp add: spare_def fb_asString_def fb_length_def)

lemma fb_append_fits:
  assumes "buf_ok storage b" "length logline < length storage - fb_cur b"
  shows "\<exists>b'. fb_append logline b = Inr b' \<and> buf_ok storage b' \<and> fb_asString b' = fb_asString b @ logline"
proof -
  have "fb_append logline b = bindR (fb_write (logline @ []) b) (\<lambda>b'. Inr (fb_add (length logline) b'))"
    using assms by (simp add: fb_append_def fb_avail_size buf_ok_def)
  then show ?thesis using fb_write_add [of b logline "[]"] assms by (auto simp: buf_ok_def fb_add_def)
qed

lemma append_al_inv:
  assumes i: "al_inv storage s" and len: "length logline < length storage" and r: "AsyncLogging_append storage logline s = Inr s'"
  shows "al_inv storage s'"
proof -
  have c: "buf_ok storage (al_current s)" using i by (simp add: al_inv_def)
  show ?thesis
  proof (cases "fb_avail (al_current s) > int (length logline)")
    case True
    then have "length logline < length storage - fb_cur (al_current s)" using c by (simp add: fb_avail_def buf_ok_def fb_inv_def)
    then obtain b where "fb_append logline (al_current s) = Inr b" "buf_ok storage b" "fb_asString b = fb_asString (al_current s) @ logline"
      using fb_append_fits [OF c] by blast
    with True r i show ?thesis by (auto simp: AsyncLogging_append_def Let_def al_inv_def)
  next
    case False
    define b where "b = (case al_next s of Some n \<Rightarrow> n | None \<Rightarrow> FixedBuffer_new storage)"
    have b: "buf_ok storage b" "fb_cur b = 0"
      using i by (auto simp: b_def al_inv_def spare_def buf_ok_def FixedBuffer_new_def fb_inv_def split: option.split)
    then obtain b' where "fb_append logline b = Inr b'" "buf_ok storage b'" "fb_asString b' = logline"
      using fb_append_fits [of storage b logline] len by (auto simp: fb_asString_def [of b] fb_length_def)
    with False r i c show ?thesis by (auto simp: AsyncLogging_append_def Let_def b_def [symmetric] al_inv_def spare_def)
  qed
qed

lemma collect_al_inv:
  assumes i: "al_inv storage s" "al_pc s = BTop" and r: "collect s = Inr s'"
  shows "al_inv storage (s'\<lparr>al_pc := BWrite\<rparr>)"
proof -
  obtain nb where nb: "al_newBuffer1 s = Some nb" using i by (auto simp: al_inv_def)
  have t: "fb_asString nb = []" by (rule spare_text [of storage]) (use i nb in \<open>simp add: al_inv_def\<close>)
  let ?s1 = "s\<lparr>al_toWrite := al_buffers s @ [al_current s], al_buffers := [], al_current := nb, al_newBuffer1 := None\<rparr>"
  have s': "s' = (if al_next s = None then ?s1\<lparr>al_next := al_newBuffer2 s, al_newBuffer2 := None\<rparr> else ?s1)"
    using r nb by (auto simp: collect_def Let_def)
  have tw: "al_toWrite s = []" using i by (simp add: al_inv_def)
  show ?thesis
  proof (cases "al_next s = None")
    case True
    then have "al_buffers s \<noteq> []" using i by (simp add: al_inv_def)
    then have "2 \<le> length (al_buffers s @ [al_current s])" by (cases "al_buffers s") simp_all
    with True i nb t tw show ?thesis unfolding s' by (simp add: al_inv_def spare_def)
  next
    case False
    with i nb t tw show ?thesis unfolding s' by (auto simp: al_inv_def spare_def)
  qed
qed

lemma spare_reset: "buf_ok storage b \<Longrightarrow> spare storage (Some (fb_reset b))"
  by (simp add: spare_def buf_ok_def fb_reset_def fb_inv_def)

lemma write_al_ok:
  assumes i: "al_inv storage s" "al_pc s = BWrite"
  shows "\<exists>s'. write_out notice s = Inr s' \<and> al_inv storage (s'\<lparr>al_pc := BTop\<rparr>)"
proof -
  define ws where "ws = (if length (al_toWrite s) > 25 then take 2 (al_toWrite s) else al_toWrite s)"
  define ws1 where "ws1 = (if length ws > 2 then take 2 ws else ws)"
  have ne: "al_toWrite s \<noteq> []" and two: "al_newBuffer2 s = None \<Longrightarrow> 2 \<le> length (al_toWrite s)"
    and ok: "list_all (buf_ok storage) (al_toWrite s)" using i by (simp_all add: al_inv_def)
  have ws1: "ws1 \<noteq> []" "al_newBuffer2 s = None \<Longrightarrow> 2 \<le> length ws1" "\<forall>b \<in> set ws1. buf_ok storage b"
    using ne two ok by (auto simp: ws1_def ws_def list_all_iff dest!: in_set_takeD)
  obtain nb1 ws2 where t1: "take_spare (al_newBuffer1 s) ws1 = Inr (nb1, ws2)" "spare storage nb1" "nb1 \<noteq> None"
    "al_newBuffer2 s = None \<Longrightarrow> ws2 \<noteq> []" "\<forall>b \<in> set ws2. buf_ok storage b"
  proof (cases "al_newBuffer1 s")
    case None
    have "butlast ws1 \<noteq> []" if "2 \<le> length ws1" using that by (cases ws1 rule: rev_cases) auto
    then show ?thesis
      using that [of "Some (fb_reset (last ws1))" "butlast ws1"] None ws1 spare_reset
      by (auto simp: take_spare_def dest: in_set_butlastD)
  next
    case (Some b)
    then show ?thesis using that [of "Some b" ws1] i(1) ws1 by (auto simp: take_spare_def al_inv_def)
  qed
  obtain nb2 ws3 where t2: "take_spare (al_newBuffer2 s) ws2 = Inr (nb2, ws3)" "spare storage nb2" "nb2 \<noteq> None"
  proof (cases "al_newBuffer2 s")
    case None
    then show ?thesis using that [of "Some (fb_reset (last ws2))" "butlast ws2"] t1(4,5) spare_reset by (auto simp: take_spare_def)
  next
    case (Some b)
    then show ?thesis using that [of "Some b" ws2] i(1) by (auto simp: take_spare_def al_inv_def)
  qed
  let ?over = "length (al_toWrite s) > 25"
  define s' where "s' = s\<lparr>al_out := (if ?over then al_out s @ [notice] else al_out s) @ map fb_asString ws,
     al_dropped := al_dropped s \<or> ?over, al_newBuffer1 := nb1, al_newBuffer2 := nb2, al_toWrite := []\<rparr>"
  have "write_out notice s = Inr s'"
    using ne t1(1) t2(1) unfolding write_out_def Let_def ws_def [symmetric] ws1_def [symmetric] s'_def by simp
  moreover have "al_inv storage (s'\<lparr>al_pc := BTop\<rparr>)"
    using i t1(2,3) t2(2,3) by (auto simp: al_inv_def s'_def ws_def)
  ultimately show ?thesis by blast
qed

lemma al_inv_step: "al_step storage s s' \<Longrightarrow> al_inv storage s \<Longrightarrow> al_inv storage s'"
proof (induction rule: al_step.induct)
  case (al_append logline s s')
  then show ?case using append_al_inv by blast
next
  case (al_stop s)
  then show ?case by (simp add: AsyncLogging_stop_def al_inv_def)
next
  case (al_collect s s')
  then show ?case using collect_al_inv by blast
next
  case (al_write s notice s')
  then show ?case using write_al_ok [of storage s notice] by auto
next
  case (al_exit s)
  then show ?case by (auto simp: al_inv_def)
qed

lemma al_inv_new: "length storage < SIZE_MOD \<Longrightarrow> al_inv storage (AsyncLogging_new storage)"
  by (simp add: AsyncLogging_new_def Let_def al_inv_def spare_def buf_ok_def fb_bzero_def FixedBuffer_new_def fb_inv_def
      fb_asString_def fb_length_def)

interpretation async_log: transition_system "\<lambda>s. length storage < SIZE_MOD \<and> s = AsyncLogging_new storage" "al_step storage" "al_inv storage"
  for storage
proof
  fix s t
  show "length storage < SIZE_MOD \<and> s = AsyncLogging_new storage \<Longrightarrow> al_inv storage s" using al_inv_new by blast
  show "al_inv storage s \<Longrightarrow> al_step storage s t \<Longrightarrow> al_inv storage t" by (rule al_inv_step)
qed

section \<open>Properties\<close>

text \<open>The files of a log are its lines, in order: nothing is lost between two files, no line is split
  over two, and each file holds whole lines. This needs \<^verbatim>\<open>fwrite\<close> to make progress when it is called again.\<close>

theorem log_file_lines:
  assumes "\<And>k d. d \<noteq> [] \<Longrightarrow> 0 < k \<Longrightarrow> 0 < fw k d" "LogFile_new basename rollSize flushInterval now hostname pid = Inr lf"
  shows "\<exists>lss. map fl_text (lf_closed (lf_appends fw hostname pid as lf) @ [lf_file (lf_appends fw hostname pid as lf)]) = map concat lss \<and>
     concat lss = map snd as"
proof -
  have "spread [] lf"
    using assms(2) by (auto simp: LogFile_new_def rollFile_def File_new_def spread_def Let_def split: if_splits)
  then have "spread ([] @ map snd as) (lf_appends fw hostname pid as lf)"
    by (rule lf_appends_spread) (rule assms(1))
  then obtain lss ls where l: "map fl_text (lf_closed (lf_appends fw hostname pid as lf)) = map concat lss"
    "fl_text (lf_file (lf_appends fw hostname pid as lf)) = concat ls" "concat lss @ ls = map snd as"
    unfolding spread_def by auto
  show ?thesis by (rule exI [of _ "lss @ [ls]"]) (use l in simp)
qed

theorem log_file_lines_witness:
  "\<exists>lf lss. LogFile_new ''a'' 3 3 100 ''h'' 7 = Inr lf \<and>
     map fl_text (lf_closed (lf_appends (\<lambda>_ d. length d) ''h'' 7 [(101, ''one''), (102, ''two''), (103, ''x'')] lf) @
       [lf_file (lf_appends (\<lambda>_ d. length d) ''h'' 7 [(101, ''one''), (102, ''two''), (103, ''x'')] lf)]) = map concat lss \<and>
     concat lss = [''one'', ''two'', ''x'']"
proof -
  obtain lf where lf: "LogFile_new ''a'' 3 3 100 ''h'' 7 = Inr lf" by (simp add: LogFile_new_def)
  from log_file_lines [OF _ lf, of "\<lambda>_ d. length d" "[(101, ''one''), (102, ''two''), (103, ''x'')]"] lf show ?thesis by auto
qed

text \<open>C34: The asynchronous log loses nothing on the way. In every interleaving of appends with the
  logging thread, as long as no more than 25 buffers piled up at a time, the text written, then
  the buffers being written, those collected and the current one are the lines appended, in
  order. The thread always has its two spare buffers, and none of its assertions fails.\<close>

theorem async_log_conserves:
  assumes "reach (\<lambda>s. length storage < SIZE_MOD \<and> s = AsyncLogging_new storage) (al_step storage) s"
  shows "(\<not> al_dropped s \<longrightarrow>
       concat (al_out s) @ concat (map fb_asString (al_toWrite s @ al_buffers s)) @ fb_asString (al_current s) = concat (al_lines s)) \<and>
     (al_pc s = BTop \<longrightarrow> (\<exists>s'. collect s = Inr s')) \<and> (al_pc s = BWrite \<longrightarrow> (\<exists>s'. write_out notice s = Inr s'))"
proof -
  have i: "al_inv storage s" by (rule async_log.reach_inv [OF assms])
  then have "\<not> al_dropped s \<longrightarrow>
       concat (al_out s) @ concat (map fb_asString (al_toWrite s @ al_buffers s)) @ fb_asString (al_current s) = concat (al_lines s)"
    by (simp add: al_inv_def)
  moreover have "\<exists>s'. collect s = Inr s'" if "al_pc s = BTop"
    using i that by (auto simp: al_inv_def collect_def Let_def)
  ultimately show ?thesis using write_al_ok [OF i, of notice] by blast
qed

text \<open>A run: the thread is writing what it collected when a line is appended and the log stopped.\<close>

lemma async_example:
  assumes "2 \<le> length storage" "length storage < SIZE_MOD"
  shows "\<exists>s. reach (\<lambda>s. length storage < SIZE_MOD \<and> s = AsyncLogging_new storage) (al_step storage) s \<and>
     al_pc s = BDone \<and> \<not> al_dropped s \<and> al_lines s = [''x''] \<and> al_out s = [[]] \<and> fb_asString (al_current s) = ''x''"
proof -
  let ?r = "reach (\<lambda>s. length storage < SIZE_MOD \<and> s = AsyncLogging_new storage) (al_step storage)"
  define b where "b = fb_bzero (FixedBuffer_new storage)"
  have b: "buf_ok storage b" "fb_cur b = 0" "fb_asString b = []"
    using assms(2) by (simp_all add: b_def fb_bzero_def FixedBuffer_new_def buf_ok_def fb_inv_def fb_asString_def fb_length_def)
  define s0 where "s0 = AsyncLogging_new storage"
  have s0: "s0 = \<lparr>al_running = True, al_current = b, al_next = Some b, al_buffers = [], al_newBuffer1 = Some b, al_newBuffer2 = Some b,
       al_toWrite = [], al_pc = BTop, al_out = [], al_dropped = False, al_lines = []\<rparr>"
    by (simp add: s0_def AsyncLogging_new_def b_def Let_def)
  have r0: "?r s0" by (rule reach_init) (simp add: s0_def assms(2))
  define s1 where "s1 = s0\<lparr>al_toWrite := [b], al_newBuffer1 := None\<rparr>"
  have "collect s0 = Inr s1" by (simp add: collect_def s0 s1_def Let_def)
  then have r1: "?r (s1\<lparr>al_pc := BWrite\<rparr>)"
    by (intro reach_step [OF r0, where t = "s1\<lparr>al_pc := BWrite\<rparr>"] al_collect) (simp_all add: s0)
  obtain b' where b': "fb_append ''x'' b = Inr b'" "fb_asString b' = ''x''"
    using fb_append_fits [OF b(1), of "''x''"] b(2,3) assms(1) by auto
  define s2 where "s2 = s1\<lparr>al_pc := BWrite, al_lines := [''x''], al_current := b'\<rparr>"
  have "fb_avail b > 1" using b(1,2) assms(1) by (simp add: fb_avail_def buf_ok_def)
  then have "AsyncLogging_append storage ''x'' (s1\<lparr>al_pc := BWrite\<rparr>) = Inr s2"
    using b'(1) by (simp add: AsyncLogging_append_def s1_def s2_def s0)
  then have r2: "?r s2" by (intro reach_step [OF r1, where t = s2] al_append [of "''x''"]) (use assms(1) in simp)
  have r3: "?r (AsyncLogging_stop s2)" by (rule reach_step [OF r2]) (rule al_stop)
  define s4 where "s4 = s2\<lparr>al_running := False, al_out := [[]], al_newBuffer1 := Some (fb_reset b), al_toWrite := []\<rparr>"
  have "write_out [] (AsyncLogging_stop s2) = Inr s4"
    using b(3) by (simp add: write_out_def take_spare_def AsyncLogging_stop_def s2_def s1_def s0 s4_def Let_def)
  then have r4: "?r (s4\<lparr>al_pc := BTop\<rparr>)"
    by (intro reach_step [OF r3, where t = "s4\<lparr>al_pc := BTop\<rparr>"] al_write)
      (simp_all add: AsyncLogging_stop_def s2_def)
  have "?r (s4\<lparr>al_pc := BTop, al_pc := BDone\<rparr>)"
    by (rule reach_step [OF r4]) (rule al_exit, simp_all add: s4_def)
  then show ?thesis
    by (intro exI [of _ "s4\<lparr>al_pc := BTop, al_pc := BDone\<rparr>"]) (simp add: s4_def s2_def s1_def s0 b'(2))
qed

theorem async_log_conserves_witness:
  "\<exists>s. reach (\<lambda>s. length (replicate 4 (CHR 0x00)) < SIZE_MOD \<and> s = AsyncLogging_new (replicate 4 (CHR 0x00))) (al_step (replicate 4 (CHR 0x00))) s \<and>
     \<not> al_dropped s \<and> al_lines s = [''x''] \<and> concat (al_out s) @ concat (map fb_asString (al_toWrite s @ al_buffers s)) @ fb_asString (al_current s) = ''x''"
proof -
  have "2 \<le> length (replicate 4 (CHR 0x00))" "length (replicate 4 (CHR 0x00)) < SIZE_MOD" by (simp_all add: SIZE_MOD_def)
  from async_example [OF this] obtain s
    where s: "reach (\<lambda>s. length (replicate 4 (CHR 0x00)) < SIZE_MOD \<and> s = AsyncLogging_new (replicate 4 (CHR 0x00))) (al_step (replicate 4 (CHR 0x00))) s"
      "\<not> al_dropped s" "al_lines s = [''x'']" by blast
  moreover have "concat (al_out s) @ concat (map fb_asString (al_toWrite s @ al_buffers s)) @ fb_asString (al_current s) = ''x''"
    using async_log_conserves [OF s(1), of "[]"] s(2,3) by simp
  ultimately show ?thesis by blast
qed

text \<open>\<^verbatim>\<open>stop()\<close> can lose lines. The loop ends on \<^verbatim>\<open>running_\<close> without collecting once more, so a line that is
  appended while the thread writes, and followed by \<^verbatim>\<open>stop()\<close>, stays in the current buffer: there is a
  run in which no buffer is dropped, the thread is done and the line has not been written.\<close>

theorem async_stop_loses_lines:
  "\<exists>s. reach (\<lambda>s. length (replicate kLargeBuffer (CHR 0x00)) < SIZE_MOD \<and> s = AsyncLogging_new (replicate kLargeBuffer (CHR 0x00)))
       (al_step (replicate kLargeBuffer (CHR 0x00))) s \<and>
     al_pc s = BDone \<and> \<not> al_dropped s \<and> concat (al_lines s) = ''x'' \<and> concat (al_out s) = []"
proof -
  have "2 \<le> length (replicate kLargeBuffer (CHR 0x00))" "length (replicate kLargeBuffer (CHR 0x00)) < SIZE_MOD"
    by (simp_all add: kLargeBuffer_def SIZE_MOD_def)
  from async_example [OF this] show ?thesis by force
qed

end
