(* ===== verification/FileUtil.thy ===== *)
theory FileUtil
  imports Leaf_Prelude "HOL-Library.Sublist"
begin

text \<open>
  \<^verbatim>\<open>FileUtil::SmallFile\<close> (\<^verbatim>\<open>src/base/FileUtil.h\<close>, \<^verbatim>\<open>src/base/FileUtil.cc\<close>): a file read into a string or into a
  fixed buffer. The results of \<^verbatim>\<open>open\<close>, \<^verbatim>\<open>fstat\<close>, \<^verbatim>\<open>read\<close> and \<^verbatim>\<open>pread\<close> are arguments; the file offset that the
  kernel keeps for the descriptor is a field of the model. The read loop is a total function: every
  turn that goes on has added a byte to the content, which is bounded by \<^verbatim>\<open>maxSize\<close>.
\<close>

section \<open>SmallFile\<close>

datatype read_result = Got string | Failed int

datatype file_kind = Regular | Directory | OtherKind

record file_stat =
  st_kind :: file_kind
  st_size :: int
  st_mtime :: int
  st_ctime :: int

record SmallFile =
  sf_fd :: int
  sf_err :: int
  sf_buf :: string
  sf_offset :: nat

definition kBufferSize :: nat where "kBufferSize = 65536"
definition EISDIR :: int where "EISDIR = 21"

definition SmallFile_new :: "string \<Rightarrow> int \<times> int \<Rightarrow> SmallFile" where
  "SmallFile_new storage r =
     (let (fd, errno) = r;
          f = \<lparr>sf_fd = fd, sf_err = 0, sf_buf = storage[0 := CHR 0x00], sf_offset = 0\<rparr>
      in if fd < 0 then f\<lparr>sf_err := errno\<rparr> else f)"

text \<open>The descriptors the destructor closes.\<close>

definition SmallFile_dtor :: "SmallFile \<Rightarrow> int list" where
  "SmallFile_dtor f = (if sf_fd f \<ge> 0 then [sf_fd f] else [])"

text \<open>The loop of \<^verbatim>\<open>readToString\<close>. \<open>rd k off n\<close> is what the \<open>k\<close>-th \<^verbatim>\<open>read\<close> delivers at file offset \<open>off\<close> when
  asked for \<open>n\<close> bytes; it stores at most \<open>n\<close> bytes.\<close>

function read_loop :: "(nat \<Rightarrow> nat \<Rightarrow> nat \<Rightarrow> read_result) \<Rightarrow> nat \<Rightarrow> nat \<Rightarrow> string \<Rightarrow> int \<Rightarrow> SmallFile \<Rightarrow> int \<times> string \<times> SmallFile" where
  "read_loop rd k maxSize content err f =
     (if length content < maxSize then
        let toRead = min (sz_sub maxSize (length content)) kBufferSize in
        case rd k (sf_offset f) toRead of
          Failed e \<Rightarrow> (e, content, f)
        | Got bs \<Rightarrow>
            let n = length (take toRead bs) in
            if n > 0 then
              read_loop rd (k + 1) maxSize (content @ take toRead bs) err
                (f\<lparr>sf_buf := take toRead bs @ drop n (sf_buf f), sf_offset := sf_offset f + n\<rparr>)
            else (err, content, f)
      else (err, content, f))"
  by pat_completeness auto
termination
  by (relation "measure (\<lambda>(rd, k, maxSize, content, err, f). maxSize - length content)")
    (auto simp: Let_def intro!: diff_less_mono2)

declare read_loop.simps [simp del]

text \<open>\<^verbatim>\<open>readToString\<close>. \<open>want\<close> says which of the pointers \<^verbatim>\<open>fileSize\<close>, \<^verbatim>\<open>modifyTime\<close> and \<^verbatim>\<open>createTime\<close> are not NULL; what is
  stored through them is returned as options. \<^verbatim>\<open>reserve\<close> throws on a negative size.\<close>

definition readToString ::
  "(nat \<Rightarrow> nat \<Rightarrow> nat \<Rightarrow> read_result) \<Rightarrow> int + file_stat \<Rightarrow> int \<Rightarrow> bool \<times> bool \<times> bool \<Rightarrow> string \<Rightarrow> SmallFile \<Rightarrow>
     (int \<times> string \<times> int option \<times> int option \<times> int option \<times> SmallFile) res" where
  "readToString rd st maxSize want content f =
     (if sf_fd f \<ge> 0 then
        let (wantSize, wantM, wantC) = want;
            (err, fileSize, mtime, ctime, ok) =
              (if wantSize then
                 case st of
                   Inl e \<Rightarrow> (e, None, None, None, True)
                 | Inr sb \<Rightarrow>
                     (if st_kind sb = Directory then EISDIR else sf_err f,
                      if st_kind sb = Regular then Some (st_size sb) else None,
                      if wantM then Some (st_mtime sb) else None,
                      if wantC then Some (st_ctime sb) else None,
                      st_kind sb = Regular \<longrightarrow> int_to_size (wrap_s 32 (min maxSize (st_size sb))) \<le> MAX_SIZE)
               else (sf_err f, None, None, None, True))
        in if ok then
             let (err', content', f') = read_loop rd 0 (int_to_size maxSize) [] err f
             in Inr (err', content', fileSize, mtime, ctime, f')
           else Inl LengthError
      else Inr (sf_err f, content, None, None, None, f))"

definition readToBuffer :: "read_result \<Rightarrow> bool \<Rightarrow> SmallFile \<Rightarrow> (int \<times> int option \<times> SmallFile) res" where
  "readToBuffer rd want f =
     (if sf_fd f \<ge> 0 then
        case rd of
          Got bs \<Rightarrow>
            bindR (mem_write 0 (take (kBufferSize - 1) bs) (sf_buf f)) (\<lambda>mem.
            let n = length (take (kBufferSize - 1) bs) in
            bindR (mem_write n [CHR 0x00] mem) (\<lambda>mem.
            Inr (sf_err f, if want then Some (size_to_int n) else None, f\<lparr>sf_buf := mem\<rparr>)))
        | Failed e \<Rightarrow> Inr (e, None, f)
      else Inr (sf_err f, None, f))"

text \<open>\<^verbatim>\<open>readFile\<close> makes a \<^verbatim>\<open>SmallFile\<close> on the stack; the descriptors closed at its end are returned too.\<close>

definition readFile ::
  "string \<Rightarrow> int \<times> int \<Rightarrow> (nat \<Rightarrow> nat \<Rightarrow> nat \<Rightarrow> read_result) \<Rightarrow> int + file_stat \<Rightarrow> int \<Rightarrow> bool \<times> bool \<times> bool \<Rightarrow> string \<Rightarrow>
     (int \<times> string \<times> int list) res" where
  "readFile storage r rd st maxSize want content =
     bindR (readToString rd st maxSize want content (SmallFile_new storage r)) (\<lambda>(err, content', _, _, _, f).
       Inr (err, content', SmallFile_dtor f))"

section \<open>What is read\<close>

text \<open>\<^verbatim>\<open>read(2)\<close> on a file with content \<open>file\<close>: it fails, or delivers some of the bytes at the offset, and
  none only at the end of the file.\<close>

definition file_reads :: "(nat \<Rightarrow> nat \<Rightarrow> nat \<Rightarrow> read_result) \<Rightarrow> string \<Rightarrow> bool" where
  "file_reads rd file \<longleftrightarrow>
     (\<forall>k off n bs. rd k off n = Got bs \<longrightarrow>
        (\<exists>m \<le> n. bs = take m (drop off file) \<and> (off < length file \<and> 0 < n \<longrightarrow> 0 < m)))"

lemma read_loop_content:
  assumes "file_reads rd file" "maxSize < SIZE_MOD" "sf_offset f = length content" "content = take (length content) file"
    "length content \<le> maxSize" "read_loop rd k maxSize content err f = (err', content', f')"
  shows "content' = take (length content') file \<and> length content' \<le> maxSize \<and> sf_fd f' = sf_fd f \<and>
    (content' = take maxSize file \<and> err' = err \<or> (\<exists>k n. rd k (length content') n = Failed err'))"
  using assms
proof (induction rd k maxSize content err f arbitrary: err' content' f' rule: read_loop.induct)
  case (1 rd k maxSize content err f)
  let ?toRead = "min (sz_sub maxSize (length content)) kBufferSize"
  note run = "1.prems"(6)
  show ?case
  proof (cases "length content < maxSize")
    case False
    then have "content = take maxSize file" using "1.prems"(4,5) by (metis le_antisym not_less)
    moreover have "err' = err \<and> content' = content \<and> f' = f" using run False by (subst (asm) read_loop.simps) simp
    ultimately show ?thesis using "1.prems"(4,5) by auto
  next
    case True
    have sub: "sz_sub maxSize (length content) = maxSize - length content"
      using True "1.prems"(2) by (intro sz_sub_eq) simp_all
    show ?thesis
    proof (cases "rd k (sf_offset f) ?toRead")
      case (Failed e)
      then have "err' = e \<and> content' = content \<and> f' = f" using run True by (subst (asm) read_loop.simps) simp
      then show ?thesis using Failed "1.prems"(3,4,5) by auto
    next
      case (Got bs)
      then obtain m where m: "m \<le> ?toRead" "bs = take m (drop (length content) file)"
          "length content < length file \<and> 0 < ?toRead \<longrightarrow> 0 < m"
        using "1.prems"(1,3) unfolding file_reads_def by metis
      have lb: "length bs \<le> ?toRead" using m(1,2) by (simp add: min.coboundedI2)
      then have bs: "take ?toRead bs = bs" "length bs \<le> maxSize - length content" using sub by simp_all
      show ?thesis
      proof (cases "bs = []")
        case True': True
        then have r: "err' = err \<and> content' = content \<and> f' = f" using run True Got by (subst (asm) read_loop.simps) simp
        have "0 < ?toRead" using True sub by (simp add: kBufferSize_def)
        then have "length file \<le> length content" using True' m(2,3) by auto
        then have "content = take maxSize file" using "1.prems"(4) True by simp
        then show ?thesis using r "1.prems"(4,5) by auto
      next
        case False
        let ?f = "f\<lparr>sf_buf := bs @ drop (length bs) (sf_buf f), sf_offset := sf_offset f + length bs\<rparr>"
        have rec: "read_loop rd (k + 1) maxSize (content @ bs) err ?f = (err', content', f')"
          using run True Got False bs(1) by (subst (asm) read_loop.simps) (simp add: Let_def)
        have "content @ bs = take (length content + m) file" using "1.prems"(4) m(2) by (metis take_add)
        then have "content @ bs = take (length (content @ bs)) file" by (metis length_take min.commute take_take take_all_iff linorder_linear)
        moreover have "length (content @ bs) \<le> maxSize" using bs(2) True by simp
        moreover have "sf_offset ?f = length (content @ bs)" "sf_fd ?f = sf_fd f" "0 < length bs" using "1.prems"(3) False by simp_all
        ultimately show ?thesis using "1.IH" [OF True refl Got refl, unfolded bs(1)] "1.prems"(1,2) rec by metis
      qed
    qed
  qed
qed

text \<open>What \<^verbatim>\<open>err\<close> is before the loop starts.\<close>

definition stat_err :: "int + file_stat \<Rightarrow> bool \<times> bool \<times> bool \<Rightarrow> SmallFile \<Rightarrow> int" where
  "stat_err st want f =
     (if fst want then case st of Inl e \<Rightarrow> e | Inr sb \<Rightarrow> if st_kind sb = Directory then EISDIR else sf_err f
      else sf_err f)"

lemma readToString_loop:
  assumes "0 \<le> sf_fd f" "0 \<le> maxSize" "maxSize < 2 ^ 31" "\<And>sb. st = Inr sb \<Longrightarrow> 0 \<le> st_size sb"
    "read_loop rd 0 (nat maxSize) [] (stat_err st want f) f = (err, content', f')"
  shows "\<exists>sz mt ct. readToString rd st maxSize want content f = Inr (err, content', sz, mt, ct, f')"
proof -
  obtain wantSize wantM wantC where w: "want = (wantSize, wantM, wantC)" by (cases want)
  have m: "int_to_size maxSize = nat maxSize" using assms(2,3) by (intro int_to_size_nonneg) (auto simp: SIZE_MOD_def)
  have "int_to_size (wrap_s 32 (min maxSize (st_size sb))) \<le> MAX_SIZE" if "st = Inr sb" for sb
  proof -
    have "wrap_s 32 (min maxSize (st_size sb)) = min maxSize (st_size sb)"
      using assms(2-4) that by (intro wrap_s_eq) auto
    moreover have "int_to_size (min maxSize (st_size sb)) = nat (min maxSize (st_size sb))"
      using assms(2-4) that by (intro int_to_size_nonneg) (auto simp: SIZE_MOD_def)
    ultimately show ?thesis using assms(3) by (simp add: MAX_SIZE_def)
  qed
  then show ?thesis using assms(1,5) 
    by (cases st; cases wantSize) (auto simp: readToString_def w m stat_err_def Let_def split: if_splits)
qed

lemma mem_write_next:
  "length x + 1 \<le> length mem \<Longrightarrow> mem_write (length x) [c] (x @ drop (length x) mem) = Inr (x @ c # drop (length x + 1) mem)"
  by (simp add: mem_write_def)

lemma readToBuffer_text:
  assumes "length (sf_buf f) = kBufferSize" "0 \<le> sf_fd f"
  shows "\<exists>f'. readToBuffer (Got bs) True f = Inr (sf_err f, Some (int (min (length bs) (kBufferSize - 1))), f') \<and>
    length (sf_buf f') = kBufferSize \<and> takeWhile (\<lambda>c. c \<noteq> CHR 0x00) (sf_buf f') = takeWhile (\<lambda>c. c \<noteq> CHR 0x00) (take (kBufferSize - 1) bs)"
proof -
  let ?x = "take (kBufferSize - 1) bs"
  have "length ?x \<le> kBufferSize - 1" by simp
  then have l: "length ?x + 1 \<le> length (sf_buf f)" using assms(1) by (simp add: kBufferSize_def)
  let ?mem = "?x @ CHR 0x00 # drop (length ?x + 1) (sf_buf f)"
  have w1: "mem_write 0 ?x (sf_buf f) = Inr (?x @ drop (length ?x) (sf_buf f))" using l by (simp add: mem_write_def)
  have w2: "mem_write (length ?x) [CHR 0x00] (?x @ drop (length ?x) (sf_buf f)) = Inr ?mem"
    using l by (rule mem_write_next)
  have "readToBuffer (Got bs) True f = Inr (sf_err f, Some (size_to_int (length ?x)), f\<lparr>sf_buf := ?mem\<rparr>)"
    using assms(2) by (simp only: readToBuffer_def if_True read_result.case bindR.simps w1 w2 Let_def)
  moreover have "size_to_int (length ?x) = int (length ?x)" by (intro size_to_int_eq) (simp add: kBufferSize_def)
  moreover have "length ?mem = kBufferSize" using l assms(1) by simp
  moreover have "takeWhile (\<lambda>c. c \<noteq> CHR 0x00) ?mem = takeWhile (\<lambda>c. c \<noteq> CHR 0x00) ?x" by (simp add: takeWhile_tail)
  ultimately show ?thesis by (intro exI [of _ "f\<lparr>sf_buf := ?mem\<rparr>"]) simp
qed

section \<open>Properties\<close>

text \<open>C37: \<^verbatim>\<open>readToString\<close> returns on every file, however \<^verbatim>\<open>read\<close> cuts it into pieces: the content is the
  beginning of the file and at most \<^verbatim>\<open>maxSize\<close> bytes long; unless a \<^verbatim>\<open>read\<close> failed, and its error is returned,
  it is all of the file up to \<^verbatim>\<open>maxSize\<close>, and the result is the error of \<^verbatim>\<open>fstat\<close> or of the constructor.\<close>

theorem readToString_content:
  assumes "file_reads rd file" "0 \<le> sf_fd f" "sf_offset f = 0" "0 \<le> maxSize" "maxSize < 2 ^ 31"
    "\<And>sb. st = Inr sb \<Longrightarrow> 0 \<le> st_size sb"
  shows "\<exists>err content' sz mt ct f'. readToString rd st maxSize want content f = Inr (err, content', sz, mt, ct, f') \<and>
     content' = take (length content') file \<and> length content' \<le> nat maxSize \<and>
     (content' = take (nat maxSize) file \<and> err = stat_err st want f \<or> (\<exists>k n. rd k (length content') n = Failed err))"
proof -
  obtain err content' f' where l: "read_loop rd 0 (nat maxSize) [] (stat_err st want f) f = (err, content', f')"
    by (metis prod_cases3)
  have "nat maxSize < SIZE_MOD" using assms(5) by (simp add: SIZE_MOD_def)
  from read_loop_content [OF assms(1) this _ _ _ l] assms(3) readToString_loop [OF assms(2,4,5,6) l, of content]
  show ?thesis by auto
qed

theorem readToString_content_witness:
  "\<exists>err sz mt ct f'. readToString (\<lambda>k off n. Got (take (min 2 n) (drop off ''hello''))) (Inl 0) 3 (False, False, False) []
      (SmallFile_new (replicate 8 (CHR 0x00)) (4, 0)) = Inr (err, ''hel'', sz, mt, ct, f')"
proof -
  have "\<exists>m \<le> n. take (min 2 n) (drop off ''hello'') = take m (drop off ''hello'') \<and> (off < length ''hello'' \<and> 0 < n \<longrightarrow> 0 < m)" for off n
    by (rule exI [of _ "min 2 n"]) auto
  then have "file_reads (\<lambda>k off n. Got (take (min 2 n) (drop off ''hello''))) ''hello''"
    unfolding file_reads_def by blast
  from readToString_content [OF this, of "SmallFile_new (replicate 8 (CHR 0x00)) (4, 0)" 3 "Inl 0" "(False, False, False)" "[]"]
  show ?thesis by (auto simp: SmallFile_new_def)
qed

end
