(* ===== verification/StringPiece.thy ===== *)
theory StringPiece
  imports Leaf_Prelude "HOL-Library.Char_ord" "HOL-Library.List_Lexorder" "HOL-Library.Sublist"
begin

text \<open>
  \<^verbatim>\<open>StringPiece\<close> (\<^verbatim>\<open>src/base/StringPiece.h\<close>): a pointer and a length that view part of another string. The
  pointer is an offset into the object it points into, so every read is checked against the object;
  the length is the signed \<^verbatim>\<open>int\<close> of the class, converted to \<^verbatim>\<open>size_t\<close> where it is passed to \<^verbatim>\<open>memcmp\<close> or
  to a string constructor. The six comparisons are shown to be the order of the viewed texts.
\<close>

section \<open>The class\<close>

record StringPiece =
  sp_object :: string
  sp_ptr :: int
  sp_length :: int

definition StringPiece_null :: StringPiece where
  "StringPiece_null = \<lparr>sp_object = [], sp_ptr = 0, sp_length = 0\<rparr>"

text \<open>\<^verbatim>\<open>strlen\<close> reads up to the first NUL, and behind the object when there is none.\<close>

fun strlen :: "string \<Rightarrow> nat res" where
  "strlen [] = Inl OutOfBounds"
| "strlen (c # cs) = (if c = CHR 0x00 then Inr 0 else bindR (strlen cs) (\<lambda>n. Inr (n + 1)))"

definition StringPiece_cstr :: "string \<Rightarrow> StringPiece res" where
  "StringPiece_cstr str = bindR (strlen str) (\<lambda>n. Inr \<lparr>sp_object = str, sp_ptr = 0, sp_length = size_to_int n\<rparr>)"

definition StringPiece_string :: "string \<Rightarrow> StringPiece" where
  "StringPiece_string str = \<lparr>sp_object = str @ [CHR 0x00], sp_ptr = 0, sp_length = size_to_int (length str)\<rparr>"

definition StringPiece_len :: "string \<Rightarrow> int \<Rightarrow> StringPiece" where
  "StringPiece_len offset len = \<lparr>sp_object = offset, sp_ptr = 0, sp_length = len\<rparr>"

definition sp_empty :: "StringPiece \<Rightarrow> bool" where
  "sp_empty p \<longleftrightarrow> sp_length p = 0"

definition sp_end :: "StringPiece \<Rightarrow> int" where
  "sp_end p = sp_ptr p + sp_length p"

definition sp_clear :: "StringPiece \<Rightarrow> StringPiece" where
  "sp_clear p = p\<lparr>sp_object := [], sp_ptr := 0, sp_length := 0\<rparr>"

definition sp_set :: "string \<Rightarrow> int \<Rightarrow> StringPiece \<Rightarrow> StringPiece" where
  "sp_set buffer len p = p\<lparr>sp_object := buffer, sp_ptr := 0, sp_length := len\<rparr>"

definition sp_set_cstr :: "string \<Rightarrow> StringPiece \<Rightarrow> StringPiece res" where
  "sp_set_cstr str p =
     (let p1 = p\<lparr>sp_object := str, sp_ptr := 0\<rparr> in bindR (strlen str) (\<lambda>n. Inr (p1\<lparr>sp_length := size_to_int n\<rparr>)))"

text \<open>The bytes a routine reads from the pointer on.\<close>

definition sp_read :: "int \<Rightarrow> nat \<Rightarrow> StringPiece \<Rightarrow> string res" where
  "sp_read i n p = (if 0 \<le> sp_ptr p + i then mem_read (nat (sp_ptr p + i)) n (sp_object p) else Inl OutOfBounds)"

definition sp_at :: "int \<Rightarrow> StringPiece \<Rightarrow> char res" where
  "sp_at i p = bindR (sp_read i 1 p) (\<lambda>cs. Inr (hd cs))"

definition remove_prefix :: "int \<Rightarrow> StringPiece \<Rightarrow> StringPiece" where
  "remove_prefix n p = p\<lparr>sp_ptr := sp_ptr p + n, sp_length := sp_length p - n\<rparr>"

definition remove_suffix :: "int \<Rightarrow> StringPiece \<Rightarrow> StringPiece" where
  "remove_suffix n p = p\<lparr>sp_length := sp_length p - n\<rparr>"

text \<open>\<^verbatim>\<open>memcmp\<close> compares bytes as unsigned; of its result only the sign is specified, and only the sign is
  used below.\<close>

fun first_difference :: "string \<Rightarrow> string \<Rightarrow> int" where
  "first_difference (c # cs) (d # ds) = (if c = d then first_difference cs ds else of_char c - of_char d)"
| "first_difference _ _ = 0"

definition memcmp :: "StringPiece \<Rightarrow> StringPiece \<Rightarrow> int \<Rightarrow> int res" where
  "memcmp p q len =
     bindR (sp_read 0 (int_to_size len) p) (\<lambda>xs.
     bindR (sp_read 0 (int_to_size len) q) (\<lambda>ys. Inr (first_difference xs ys)))"

definition sp_eq :: "StringPiece \<Rightarrow> StringPiece \<Rightarrow> bool res" where
  "sp_eq p x =
     (if sp_length p = sp_length x
      then bindR (memcmp p x (sp_length p)) (\<lambda>r. Inr (r = 0)) else Inr False)"

definition sp_neq :: "StringPiece \<Rightarrow> StringPiece \<Rightarrow> bool res" where
  "sp_neq p x = bindR (sp_eq p x) (\<lambda>b. Inr (\<not> b))"

text \<open>\<^verbatim>\<open>STRINGPIECE_BINARY_PREDICATE(cmp, auxcmp)\<close> and its four uses.\<close>

definition sp_predicate :: "(int \<Rightarrow> int \<Rightarrow> bool) \<Rightarrow> (int \<Rightarrow> int \<Rightarrow> bool) \<Rightarrow> StringPiece \<Rightarrow> StringPiece \<Rightarrow> bool res" where
  "sp_predicate cmp auxcmp p x =
     bindR (memcmp p x (if sp_length p < sp_length x then sp_length p else sp_length x)) (\<lambda>r.
       Inr (auxcmp r 0 \<or> r = 0 \<and> cmp (sp_length p) (sp_length x)))"

definition sp_less :: "StringPiece \<Rightarrow> StringPiece \<Rightarrow> bool res" where
  "sp_less = sp_predicate (<) (<)"

definition sp_le :: "StringPiece \<Rightarrow> StringPiece \<Rightarrow> bool res" where
  "sp_le = sp_predicate (\<le>) (<)"

definition sp_ge :: "StringPiece \<Rightarrow> StringPiece \<Rightarrow> bool res" where
  "sp_ge = sp_predicate (\<ge>) (>)"

definition sp_greater :: "StringPiece \<Rightarrow> StringPiece \<Rightarrow> bool res" where
  "sp_greater = sp_predicate (>) (>)"

definition sp_compare :: "StringPiece \<Rightarrow> StringPiece \<Rightarrow> int res" where
  "sp_compare p x =
     bindR (memcmp p x (if sp_length p < sp_length x then sp_length p else sp_length x)) (\<lambda>r.
       Inr (if r = 0 then (if sp_length p < sp_length x then -1
                           else if sp_length p > sp_length x then 1 else r) else r))"

text \<open>\<^verbatim>\<open>string(ptr, n)\<close> throws on a length above \<^verbatim>\<open>max_size()\<close>, which a negative \<^verbatim>\<open>int\<close> becomes.\<close>

definition as_string :: "StringPiece \<Rightarrow> string res" where
  "as_string p = (if int_to_size (sp_length p) > MAX_SIZE then Inl LengthError else sp_read 0 (int_to_size (sp_length p)) p)"

definition starts_with :: "StringPiece \<Rightarrow> StringPiece \<Rightarrow> bool res" where
  "starts_with p x =
     (if sp_length p \<ge> sp_length x
      then bindR (memcmp p x (sp_length x)) (\<lambda>r. Inr (r = 0)) else Inr False)"

section \<open>The text a piece views\<close>

definition sp_ok :: "StringPiece \<Rightarrow> bool" where
  "sp_ok p \<longleftrightarrow> 0 \<le> sp_ptr p \<and> 0 \<le> sp_length p \<and> sp_length p < 2 ^ 31 \<and> nat (sp_ptr p + sp_length p) \<le> length (sp_object p)"

definition sp_text :: "StringPiece \<Rightarrow> string" where
  "sp_text p = take (nat (sp_length p)) (drop (nat (sp_ptr p)) (sp_object p))"

lemma length_sp_text: "sp_ok p \<Longrightarrow> length (sp_text p) = nat (sp_length p)"
  by (simp add: sp_ok_def sp_text_def) linarith

lemma sp_read_text:
  assumes "sp_ok p" "0 \<le> n" "n \<le> sp_length p"
  shows "sp_read 0 (int_to_size n) p = Inr (take (nat n) (sp_text p))"
proof -
  have "int_to_size n = nat n" using assms by (intro int_to_size_nonneg) (auto simp: sp_ok_def SIZE_MOD_def)
  moreover have "nat (sp_ptr p) + nat n \<le> length (sp_object p)" using assms by (auto simp: sp_ok_def)
  moreover have "min (nat n) (nat (sp_length p)) = nat n" using assms(3) by simp
  ultimately show ?thesis using assms by (simp add: sp_read_def mem_read_def sp_text_def sp_ok_def)
qed

lemma memcmp_text:
  assumes "sp_ok p" "sp_ok q" "0 \<le> n" "n \<le> sp_length p" "n \<le> sp_length q"
  shows "memcmp p q n = Inr (first_difference (take (nat n) (sp_text p)) (take (nat n) (sp_text q)))"
  using assms by (simp add: memcmp_def sp_read_text)

lemma first_difference_eq: "length xs = length ys \<Longrightarrow> first_difference xs ys = 0 \<longleftrightarrow> xs = ys"
  by (induction xs ys rule: list_induct2) auto

lemma of_char_less_int: "(of_char c :: int) < of_char d \<longleftrightarrow> c < d"
proof -
  have "(of_char c :: int) = int (of_char c)" for c :: char by (simp add: of_nat_of_char)
  then show ?thesis by (simp only: less_char_def of_nat_less_iff)
qed

lemma Nil_less_iff: "[] < (xs :: string) \<longleftrightarrow> xs \<noteq> []"
  by (cases xs) simp_all

text \<open>The tests of the macro on texts: the common prefix decides, and the length where it does not.\<close>

lemma first_difference_less:
  "first_difference (take (min (length xs) (length ys)) xs) (take (min (length xs) (length ys)) ys) < 0 \<or>
   first_difference (take (min (length xs) (length ys)) xs) (take (min (length xs) (length ys)) ys) = 0 \<and> length xs < length ys
   \<longleftrightarrow> xs < ys"
  by (induction xs ys rule: first_difference.induct) (auto simp: of_char_less_int Nil_less_iff)

lemma first_difference_swap: "first_difference ys xs = - first_difference xs ys"
  by (induction xs ys rule: first_difference.induct) auto

lemma first_difference_greater:
  "first_difference (take (min (length xs) (length ys)) xs) (take (min (length xs) (length ys)) ys) > 0 \<or>
   first_difference (take (min (length xs) (length ys)) xs) (take (min (length xs) (length ys)) ys) = 0 \<and> length xs > length ys
   \<longleftrightarrow> xs > ys"
  using first_difference_less [of ys xs] first_difference_swap [of "take (min (length xs) (length ys)) xs"]
  by (auto simp: min.commute)

lemma first_difference_texts:
  assumes "sp_ok p" "sp_ok q"
  shows "memcmp p q (if sp_length p < sp_length q then sp_length p else sp_length q) =
    Inr (first_difference (take (min (length (sp_text p)) (length (sp_text q))) (sp_text p))
           (take (min (length (sp_text p)) (length (sp_text q))) (sp_text q)))"
proof -
  have "nat (if sp_length p < sp_length q then sp_length p else sp_length q) = min (length (sp_text p)) (length (sp_text q))"
    using assms by (simp add: length_sp_text sp_ok_def)
  moreover have "0 \<le> sp_length p" "0 \<le> sp_length q" using assms by (simp_all add: sp_ok_def)
  ultimately show ?thesis using assms by (subst memcmp_text) simp_all
qed

lemma sp_length_text: "sp_ok p \<Longrightarrow> sp_length p = int (length (sp_text p))"
  by (simp add: length_sp_text sp_ok_def)

lemma sp_less_text: "sp_ok p \<Longrightarrow> sp_ok q \<Longrightarrow> sp_less p q = Inr (sp_text p < sp_text q)"
  using first_difference_less [of "sp_text p" "sp_text q"]
  by (simp add: sp_less_def sp_predicate_def first_difference_texts) (simp add: sp_length_text)

lemma sp_greater_text: "sp_ok p \<Longrightarrow> sp_ok q \<Longrightarrow> sp_greater p q = Inr (sp_text q < sp_text p)"
  using first_difference_greater [of "sp_text p" "sp_text q"]
  by (simp add: sp_greater_def sp_predicate_def first_difference_texts) (simp add: sp_length_text)

lemma sp_eq_text: "sp_ok p \<Longrightarrow> sp_ok q \<Longrightarrow> sp_eq p q = Inr (sp_text p = sp_text q)"
proof (cases "sp_length p = sp_length q")
  case True
  assume ok: "sp_ok p" "sp_ok q"
  then have l: "length (sp_text p) = length (sp_text q)" using True by (simp add: length_sp_text)
  have "memcmp p q (sp_length p) = Inr (first_difference (sp_text p) (sp_text q))"
    using ok True l by (subst memcmp_text) (simp_all add: sp_length_text)
  then show ?thesis using True first_difference_eq [OF l] by (simp add: sp_eq_def)
next
  case False
  assume "sp_ok p" "sp_ok q"
  then show ?thesis using False by (auto simp: sp_eq_def sp_length_text)
qed

lemma sp_compare_text:
  assumes "sp_ok p" "sp_ok q"
  shows "\<exists>r. sp_compare p q = Inr r \<and> (r < 0 \<longleftrightarrow> sp_text p < sp_text q) \<and> (r = 0 \<longleftrightarrow> sp_text p = sp_text q)"
proof -
  let ?n = "min (length (sp_text p)) (length (sp_text q))"
  let ?d = "first_difference (take ?n (sp_text p)) (take ?n (sp_text q))"
  have c: "sp_compare p q = Inr (if ?d = 0 then (if length (sp_text p) < length (sp_text q) then -1
       else if length (sp_text p) > length (sp_text q) then 1 else ?d) else ?d)"
    using assms by (simp add: sp_compare_def first_difference_texts) (simp add: sp_length_text)
  moreover have "?d = 0 \<and> length (sp_text p) = length (sp_text q) \<longleftrightarrow> sp_text p = sp_text q"
    using first_difference_eq [of "take ?n (sp_text p)" "take ?n (sp_text q)"] by auto
  ultimately show ?thesis using first_difference_less [of "sp_text p" "sp_text q"] by auto
qed

lemma sp_le_ge_text:
  assumes "sp_ok p" "sp_ok q"
  shows "sp_le p q = Inr (sp_text p \<le> sp_text q)" "sp_ge p q = Inr (sp_text q \<le> sp_text p)"
proof -
  let ?n = "min (length (sp_text p)) (length (sp_text q))"
  let ?d = "first_difference (take ?n (sp_text p)) (take ?n (sp_text q))"
  have e: "?d = 0 \<and> length (sp_text p) = length (sp_text q) \<longleftrightarrow> sp_text p = sp_text q"
    using first_difference_eq [of "take ?n (sp_text p)" "take ?n (sp_text q)"] by auto
  have "sp_le p q = Inr ((?d < 0 \<or> ?d = 0 \<and> length (sp_text p) < length (sp_text q)) \<or> ?d = 0 \<and> length (sp_text p) = length (sp_text q))"
    using assms by (simp add: sp_le_def sp_predicate_def first_difference_texts) (auto simp: sp_length_text)
  then show "sp_le p q = Inr (sp_text p \<le> sp_text q)" by (simp only: e first_difference_less le_less)
  have "sp_ge p q = Inr ((?d > 0 \<or> ?d = 0 \<and> length (sp_text p) > length (sp_text q)) \<or> ?d = 0 \<and> length (sp_text p) = length (sp_text q))"
    using assms by (simp add: sp_ge_def sp_predicate_def first_difference_texts) (auto simp: sp_length_text)
  then show "sp_ge p q = Inr (sp_text q \<le> sp_text p)"
    by (simp only: e first_difference_greater le_less eq_commute [of "sp_text q"])
qed

lemma starts_with_text:
  assumes "sp_ok p" "sp_ok q"
  shows "starts_with p q = Inr (prefix (sp_text q) (sp_text p))"
proof (cases "sp_length p \<ge> sp_length q")
  case True
  then have l: "length (sp_text q) \<le> length (sp_text p)" using assms by (simp add: sp_length_text)
  have "memcmp p q (sp_length q) = Inr (first_difference (take (length (sp_text q)) (sp_text p)) (sp_text q))"
    using assms True by (subst memcmp_text) (simp_all add: sp_length_text)
  moreover have "take (length (sp_text q)) (sp_text p) = sp_text q \<longleftrightarrow> prefix (sp_text q) (sp_text p)"
    using take_is_prefix [of "length (sp_text q)" "sp_text p"] by (auto simp: prefix_def)
  ultimately show ?thesis using True l first_difference_eq [of "take (length (sp_text q)) (sp_text p)" "sp_text q"]
    by (simp add: starts_with_def)
next
  case False
  then have "\<not> prefix (sp_text q) (sp_text p)" using assms prefix_length_le [of "sp_text q" "sp_text p"] by (auto simp: sp_length_text)
  with False show ?thesis by (simp add: starts_with_def)
qed

lemma as_string_text: "sp_ok p \<Longrightarrow> as_string p = Inr (sp_text p)"
  using sp_read_text [of p "sp_length p"] length_sp_text [of p]
  by (auto simp: as_string_def sp_ok_def int_to_size_def SIZE_MOD_def MAX_SIZE_def)

section \<open>Making and shortening pieces\<close>

lemma StringPiece_string_text:
  "length str < 2 ^ 31 \<Longrightarrow> sp_ok (StringPiece_string str) \<and> sp_text (StringPiece_string str) = str"
  by (simp add: StringPiece_string_def sp_ok_def sp_text_def size_to_int_eq nat_add_distrib)

lemma strlen_append: "CHR 0x00 \<notin> set str \<Longrightarrow> strlen (str @ CHR 0x00 # rest) = Inr (length str)"
  by (induction str) auto

lemma StringPiece_cstr_text:
  assumes "CHR 0x00 \<notin> set str" "length str < 2 ^ 31"
  shows "\<exists>p. StringPiece_cstr (str @ CHR 0x00 # rest) = Inr p \<and> sp_ok p \<and> sp_text p = str"
  using assms by (simp add: StringPiece_cstr_def strlen_append sp_ok_def sp_text_def size_to_int_eq)

lemma remove_prefix_text:
  assumes "sp_ok p" "0 \<le> n" "n \<le> sp_length p"
  shows "sp_ok (remove_prefix n p) \<and> sp_text (remove_prefix n p) = drop (nat n) (sp_text p)"
  using assms by (auto simp: sp_ok_def sp_text_def remove_prefix_def drop_take nat_diff_distrib nat_add_distrib add.commute)

lemma remove_suffix_text:
  assumes "sp_ok p" "0 \<le> n" "n \<le> sp_length p"
  shows "sp_ok (remove_suffix n p) \<and> sp_text (remove_suffix n p) = take (length (sp_text p) - nat n) (sp_text p)"
  using assms length_sp_text [OF assms(1)] by (auto simp: sp_ok_def sp_text_def remove_suffix_def nat_diff_distrib min_def)

lemma sp_at_text:
  assumes "sp_ok p" "0 \<le> i" "i < sp_length p"
  shows "sp_at i p = Inr (sp_text p ! nat i)"
proof -
  have "nat (sp_ptr p + i) + 1 \<le> length (sp_object p)" using assms by (auto simp: sp_ok_def)
  then show ?thesis using assms
    by (auto simp: sp_at_def sp_read_def mem_read_def sp_text_def sp_ok_def hd_drop_conv_nth nat_add_distrib take_Suc hd_conv_nth)
qed

section \<open>Properties\<close>

text \<open>C36: The comparisons of two pieces are those of the texts they view. On pieces that lie inside their
  objects no comparison reads outside; \<^verbatim>\<open>==\<close> is equality of the texts, \<^verbatim>\<open><\<close>, \<^verbatim>\<open><=\<close>, \<^verbatim>\<open>>\<close> and \<^verbatim>\<open>>=\<close> are the
  lexicographic order on bytes taken as unsigned, \<^verbatim>\<open>compare\<close> has the sign of that order, and
  \<^verbatim>\<open>starts_with\<close> is the prefix relation.\<close>

theorem stringpiece_order:
  assumes "sp_ok p" "sp_ok q"
  shows "sp_eq p q = Inr (sp_text p = sp_text q) \<and> sp_neq p q = Inr (sp_text p \<noteq> sp_text q) \<and>
     sp_less p q = Inr (sp_text p < sp_text q) \<and> sp_le p q = Inr (sp_text p \<le> sp_text q) \<and>
     sp_greater p q = Inr (sp_text q < sp_text p) \<and> sp_ge p q = Inr (sp_text q \<le> sp_text p) \<and>
     (\<exists>r. sp_compare p q = Inr r \<and> (r < 0 \<longleftrightarrow> sp_text p < sp_text q) \<and> (r = 0 \<longleftrightarrow> sp_text p = sp_text q)) \<and>
     starts_with p q = Inr (prefix (sp_text q) (sp_text p))"
  using assms by (simp add: sp_eq_text sp_neq_def sp_less_text sp_le_ge_text sp_greater_text sp_compare_text starts_with_text)

theorem stringpiece_order_witness:
  "sp_less (StringPiece_string ''abc'') (remove_prefix 1 (StringPiece_string ''xabd'')) = Inr True \<and>
   starts_with (StringPiece_string ''abc'') (remove_suffix 1 (StringPiece_string ''abx'')) = Inr True"
proof -
  have ok: "sp_ok (StringPiece_string ''abc'')" "sp_ok (remove_prefix 1 (StringPiece_string ''xabd''))"
    "sp_ok (remove_suffix 1 (StringPiece_string ''abx''))"
    by (simp_all add: sp_ok_def remove_prefix_def remove_suffix_def StringPiece_string_def size_to_int_eq)
  then show ?thesis using stringpiece_order [OF ok(1,2)] stringpiece_order [OF ok(1,3)]
    by (simp add: sp_text_def StringPiece_string_def remove_prefix_def remove_suffix_def size_to_int_eq less_char_def)
qed

end
