(* ===== verification/ProcessInfo.thy ===== *)
theory ProcessInfo
  imports FileUtil StringPiece Timestamp
begin

text \<open>
  \<^verbatim>\<open>ProcessInfo\<close> (\<^verbatim>\<open>src/base/ProcessInfo.cc\<close>): what a process reads about itself from \<^verbatim>\<open>/proc\<close> and from the
  system, and the stack trace of \<^verbatim>\<open>Exception\<close> (\<^verbatim>\<open>src/base/Exception.cc\<close>). What a system call returns is an
  argument; the parsing of the texts, the directory scans with their filters and the conversions are
  the functions of the source. \<^verbatim>\<open>atoi\<close> is the number it reads, which is what C defines for a number that
  fits an \<^verbatim>\<open>int\<close>.
\<close>

section \<open>The texts of /proc\<close>

text \<open>\<^verbatim>\<open>std::string::find\<close> and \<^verbatim>\<open>substr\<close>; \<^verbatim>\<open>npos\<close> is \<open>None\<close>.\<close>

fun find_text :: "string \<Rightarrow> string \<Rightarrow> nat option" where
  "find_text pat [] = (if pat = [] then Some 0 else None)"
| "find_text pat (c # cs) = (if prefix pat (c # cs) then Some 0 else map_option Suc (find_text pat cs))"

definition find_char :: "char \<Rightarrow> string \<Rightarrow> nat option" where
  "find_char c s = find_text [c] s"

definition substr :: "string \<Rightarrow> nat \<Rightarrow> nat \<Rightarrow> string res" where
  "substr s pos n = (if pos \<le> length s then Inr (take n (drop pos s)) else Inl OutOfBounds)"

definition is_space :: "char \<Rightarrow> bool" where
  "is_space c \<longleftrightarrow> c = CHR '' '' \<or> 9 \<le> (of_char c :: nat) \<and> (of_char c :: nat) \<le> 13"

definition atoi :: "string \<Rightarrow> int" where
  "atoi s =
     (let t = dropWhile is_space s;
          neg = (t \<noteq> [] \<and> hd t = CHR ''-'');
          u = (if t \<noteq> [] \<and> (hd t = CHR ''-'' \<or> hd t = CHR ''+'') then tl t else t);
          n = int (parse_nat (takeWhile is_digit u))
      in if neg then - n else n)"

text \<open>\<^verbatim>\<open>procStatus\<close> and \<^verbatim>\<open>procStat\<close> read their file into an empty string and ignore the error.\<close>

definition proc_text :: "string \<Rightarrow> int \<times> int \<Rightarrow> (nat \<Rightarrow> nat \<Rightarrow> nat \<Rightarrow> read_result) \<Rightarrow> string res" where
  "proc_text storage r rd =
     bindR (readFile storage r rd (Inl 0) 65536 (False, False, False) []) (\<lambda>(_, result, _). Inr result)"

definition procname :: "string \<Rightarrow> string res" where
  "procname stat =
     (case (find_char (CHR ''('') stat, find_char (CHR '')'') stat) of
        (Some lp, Some rp) \<Rightarrow> substr stat (sz_add lp 1) (sz_sub (sz_sub rp lp) 1)
      | _ \<Rightarrow> Inr [])"

definition numThreads :: "string \<Rightarrow> int" where
  "numThreads status =
     (case find_text ''Threads:'' status of
        Some pos \<Rightarrow> atoi (drop (pos + 8) status)
      | None \<Rightarrow> 0)"

section \<open>Directory scans\<close>

text \<open>\<^verbatim>\<open>scandir\<close> calls the filter on every entry and selects those it returns non-zero for; \<open>None\<close> is a
  directory that cannot be opened. \<^verbatim>\<open>namelist\<close> stays NULL exactly when nothing is selected.\<close>

fun scan_entries :: "(string \<Rightarrow> 's \<Rightarrow> int \<times> 's) \<Rightarrow> string list \<Rightarrow> 's \<Rightarrow> string list \<times> 's" where
  "scan_entries filt [] s = ([], s)"
| "scan_entries filt (d # ds) s =
     (let (r, s1) = filt d s; (sel, s2) = scan_entries filt ds s1 in (if r \<noteq> 0 then d # sel else sel, s2))"

definition scanDir :: "string list option \<Rightarrow> (string \<Rightarrow> 's \<Rightarrow> int \<times> 's) \<Rightarrow> 's \<Rightarrow> (int \<times> 's) res" where
  "scanDir dir filt s =
     (case dir of
        None \<Rightarrow> Inr (-1, s)
      | Some entries \<Rightarrow>
          let (namelist, s1) = scan_entries filt entries s in
          bindR (assertR (namelist = []) ''namelist == NULL'') (\<lambda>_. Inr (int (length namelist), s1)))"

definition starts_digit :: "string \<Rightarrow> bool" where
  "starts_digit d_name \<longleftrightarrow> d_name \<noteq> [] \<and> is_digit (hd d_name)"

definition fdDirFilter :: "string \<Rightarrow> int \<Rightarrow> int \<times> int" where
  "fdDirFilter d_name n = (0, if starts_digit d_name then n + 1 else n)"

definition taskDirFilter :: "string \<Rightarrow> int list \<Rightarrow> int \<times> int list" where
  "taskDirFilter d_name pids = (0, if starts_digit d_name then pids @ [atoi d_name] else pids)"

definition openedFiles :: "string list option \<Rightarrow> int res" where
  "openedFiles dir = bindR (scanDir dir fdDirFilter 0) (\<lambda>(_, n). Inr n)"

definition threads :: "string list option \<Rightarrow> int list res" where
  "threads dir = bindR (scanDir dir taskDirFilter []) (\<lambda>(_, result). Inr (sort result))"

text \<open>\<^verbatim>\<open>getrlimit\<close> gives the limit or fails.\<close>

definition maxOpenFiles :: "nat option \<Rightarrow> string list option \<Rightarrow> int res" where
  "maxOpenFiles rl dir = (case rl of None \<Rightarrow> openedFiles dir | Some cur \<Rightarrow> Inr (size_to_int cur))"

section \<open>Names and paths\<close>

definition pidString :: "int \<Rightarrow> string" where
  "pidString pid = snprintf_buf 32 (show_int pid)"

definition username :: "string option \<Rightarrow> string" where
  "username result = (case result of Some pw_name \<Rightarrow> pw_name | None \<Rightarrow> ''unknownuser'')"

text \<open>\<^verbatim>\<open>gethostname\<close> is what it makes of the 64 bytes of the buffer; the string is read up to the NUL.\<close>

definition hostname :: "(string \<Rightarrow> string) \<Rightarrow> string res" where
  "hostname gethostname =
     (let buf = gethostname (''unknownhost'' @ replicate 53 (CHR 0x00)) in
      bindR (strlen buf) (\<lambda>n. Inr (take n buf)))"

definition exePath :: "int \<Rightarrow> string \<Rightarrow> string res" where
  "exePath n buf = (if n > 0 then mem_read 0 (nat n) buf else Inr [])"

section \<open>Exceptions\<close>

record Exception =
  ex_message :: string
  ex_stack :: string

text \<open>\<^verbatim>\<open>fillStackTrace\<close>, with the symbols \<^verbatim>\<open>backtrace_symbols\<close> returned, or NULL. The loop ends every frame with
  the letter n, not with a newline.\<close>

definition fillStackTrace :: "string list option \<Rightarrow> Exception \<Rightarrow> Exception" where
  "fillStackTrace strings e =
     (case strings of
        None \<Rightarrow> e
      | Some fs \<Rightarrow> fold (\<lambda>f e. e\<lparr>ex_stack := ex_stack e @ f @ ''n''\<rparr>) fs e)"

definition Exception_new :: "string list option \<Rightarrow> string \<Rightarrow> Exception" where
  "Exception_new strings msg = fillStackTrace strings \<lparr>ex_message = msg, ex_stack = []\<rparr>"

lemma stack_text: "ex_stack (Exception_new (Some fs) msg) = concat (map (\<lambda>f. f @ ''n'') fs) \<and> ex_message (Exception_new (Some fs) msg) = msg"
proof -
  have "ex_stack (fold (\<lambda>f e. e\<lparr>ex_stack := ex_stack e @ f @ ''n''\<rparr>) fs e) = ex_stack e @ concat (map (\<lambda>f. f @ ''n'') fs) \<and>
      ex_message (fold (\<lambda>f e. e\<lparr>ex_stack := ex_stack e @ f @ ''n''\<rparr>) fs e) = ex_message e" for e
    by (induction fs arbitrary: e) auto
  from this [of "\<lparr>ex_message = msg, ex_stack = []\<rparr>"] show ?thesis by (simp add: Exception_new_def fillStackTrace_def)
qed

section \<open>What the functions return\<close>

lemma find_char_append: "c \<notin> set pre \<Longrightarrow> find_char c (pre @ c # rest) = Some (length pre)"
  by (induction pre) (auto simp: find_char_def)

lemma find_char_next: "find_char c (xs @ c # rest) = Some (length (takeWhile (\<lambda>d. d \<noteq> c) xs))"
  by (induction xs) (auto simp: find_char_def)

lemma paren_not_digit [simp]: "\<not> is_digit (CHR ''('')" "\<not> is_digit (CHR '')'')"
  by (simp_all add: is_digit_def)

lemma show_nat_no_paren: "CHR ''('' \<notin> set (show_nat n)" "CHR '')'' \<notin> set (show_nat n)"
  using set_show_nat paren_not_digit by blast+

text \<open>The command name of \<^verbatim>\<open>/proc/self/stat\<close> is cut at its first closing parenthesis, and is whole when it
  has none.\<close>

theorem procname_text:
  assumes "length (show_nat pid @ '' ('' @ comm @ '') '' @ rest) < SIZE_MOD"
  shows "procname (show_nat pid @ '' ('' @ comm @ '') '' @ rest) = Inr (takeWhile (\<lambda>c. c \<noteq> CHR '')'') comm)"
proof -
  let ?p = "show_nat pid @ '' ''" and ?c = "takeWhile (\<lambda>c. c \<noteq> CHR '')'') comm"
  let ?s = "show_nat pid @ '' ('' @ comm @ '') '' @ rest"
  have s: "?s = ?p @ CHR ''('' # comm @ CHR '')'' # '' '' @ rest" by simp
  have lp: "find_char (CHR ''('') ?s = Some (length ?p)"
    unfolding s by (rule find_char_append) (simp add: show_nat_no_paren)
  have "find_char (CHR '')'') ((?p @ CHR ''('' # comm) @ CHR '')'' # '' '' @ rest) =
      Some (length (takeWhile (\<lambda>d. d \<noteq> CHR '')'') (?p @ CHR ''('' # comm)))"
    by (rule find_char_next)
  moreover have "takeWhile (\<lambda>d. d \<noteq> CHR '')'') (?p @ CHR ''('' # comm) = ?p @ CHR ''('' # ?c"
    by (subst takeWhile_append2) (auto simp: show_nat_no_paren)
  ultimately have rp: "find_char (CHR '')'') ?s = Some (length ?p + 1 + length ?c)" unfolding s by simp
  have lc: "length ?c \<le> length comm" by (rule length_takeWhile_le)
  have m: "sz_add (length ?p) 1 = length ?p + 1" using assms by (intro sz_add_eq) simp
  have n: "sz_sub (sz_sub (length ?p + 1 + length ?c) (length ?p)) 1 = length ?c"
    using assms lc by (simp add: sz_sub_eq)
  have "procname ?s = substr ?s (length ?p + 1) (length ?c)" unfolding procname_def lp rp by (simp only: m n prod.case option.case)
  also have "\<dots> = Inr (take (length ?c) (comm @ '') '' @ rest))" by (simp add: substr_def)
  also have "take (length ?c) (comm @ '') '' @ rest) = take (length ?c) comm" using lc by simp
  also have "\<dots> = ?c" by (rule takeWhile_eq_take [symmetric])
  finally show ?thesis .
qed

lemma atoi_show: "atoi (show_nat n) = int n"
proof -
  obtain c cs where s: "show_nat n = c # cs" by (cases "show_nat n") simp_all
  have d: "is_digit x" if "x \<in> set (show_nat n)" for x using that by (rule set_show_nat)
  then have "is_digit c" by (simp add: s)
  then have "\<not> is_space c" "c \<noteq> CHR ''-''" "c \<noteq> CHR ''+''" by (auto simp: is_digit_def is_space_def)
  moreover have "takeWhile is_digit (show_nat n) = show_nat n" using d by (simp add: takeWhile_eq_all_conv)
  ultimately show ?thesis by (simp add: atoi_def s) (metis parse_show_nat s)
qed

lemma scan_entries_filter:
  "scan_entries fdDirFilter ds n = ([], n + int (length (filter starts_digit ds)))"
  "scan_entries taskDirFilter ds pids = ([], pids @ map atoi (filter starts_digit ds))"
  by (induction ds arbitrary: n pids) (auto simp: fdDirFilter_def taskDirFilter_def Let_def)

text \<open>The scans fail no assertion; \<^verbatim>\<open>threads()\<close> is the sorted list of the numbered entries.\<close>

theorem threads_sorted:
  "threads (Some (map show_nat pids @ [''.'', ''..''])) = Inr (sort (map int pids)) \<and>
   openedFiles (Some (map show_nat pids @ [''.'', ''..''])) = Inr (int (length pids))"
proof -
  have d: "starts_digit (show_nat n)" for n
    using set_show_nat [of "hd (show_nat n)" n] by (simp add: starts_digit_def)
  have "\<not> starts_digit ''.''" "\<not> starts_digit ''..''" by (simp_all add: starts_digit_def is_digit_def)
  moreover have "filter starts_digit (map show_nat pids) = map show_nat pids" using d by (simp add: filter_id_conv)
  ultimately have f: "filter starts_digit (map show_nat pids @ [''.'', ''..'']) = map show_nat pids" by simp
  have "map atoi (map show_nat pids) = map int pids" by (simp add: atoi_show)
  then show ?thesis by (simp only: threads_def openedFiles_def scanDir_def scan_entries_filter f option.case Let_def prod.case)
    (simp add: comp_def atoi_show)
qed

end
