(* ===== verification/Download.thy ===== *)
theory Download
  imports ProcessInfo
begin

text \<open>
  The parallel download of \<^verbatim>\<open>src/example/curl/download.cc\<close>: the header callbacks that learn the length, the
  four range requests, and the pieces that write into one file. A file is a partial map from positions
  to bytes, so that a hole stays visible. What libcurl delivers is the input of the step relation:
  each request gets the bytes of its own range, in chunks of any size and in any order among the
  requests. Results of \<^verbatim>\<open>fopen\<close> and \<^verbatim>\<open>pwrite\<close> are arguments.
\<close>

section \<open>Pieces\<close>

type_synonym out_file = "nat \<Rightarrow> char option"

definition pwrite :: "nat \<Rightarrow> string \<Rightarrow> out_file \<Rightarrow> out_file" where
  "pwrite off data out = (\<lambda>p. if off \<le> p \<and> p < off + length data then Some (data ! (p - off)) else out p)"

record Piece =
  pi_offset :: int
  pi_range :: string
  pi_live :: bool

definition Piece_new :: "int \<Rightarrow> string \<Rightarrow> Piece" where
  "Piece_new offset rangeS = \<lparr>pi_offset = offset, pi_range = rangeS, pi_live = True\<rparr>"

text \<open>\<open>num\<close> is what \<^verbatim>\<open>pwrite\<close> returned; the piece goes on behind the bytes it wrote.\<close>

definition Piece_onData :: "int \<Rightarrow> string \<Rightarrow> Piece \<Rightarrow> out_file \<Rightarrow> (Piece \<times> out_file) res" where
  "Piece_onData num data p out =
     bindR (assertR (num > 0) ''num > 0'') (\<lambda>_.
       Inr (p\<lparr>pi_offset := pi_offset p + num\<rparr>, pwrite (nat (pi_offset p)) (take (nat num) data) out))"

section \<open>The downloader\<close>

record Downloader =
  dl_found :: bool
  dl_acceptRanges :: bool
  dl_length :: int
  dl_pieces :: "Piece list"
  dl_concurrent :: int
  dl_out :: out_file
  dl_pos :: nat
  dl_quit :: bool

definition kConcurrent :: int where "kConcurrent = 4"

definition Downloader_new :: Downloader where
  "Downloader_new = \<lparr>dl_found = False, dl_acceptRanges = False, dl_length = 0, dl_pieces = [], dl_concurrent = 0,
     dl_out = Map.empty, dl_pos = 0, dl_quit = False\<rparr>"

definition startWith :: "string \<Rightarrow> string \<Rightarrow> bool" where
  "startWith str pre \<longleftrightarrow> length str \<ge> length pre \<and> take (length pre) str = pre"

definition onHeader :: "string \<Rightarrow> Downloader \<Rightarrow> Downloader" where
  "onHeader line s =
     (let s1 = (if startWith line ''HTTP/1.1 200'' \<or> startWith line ''HTTP/1.0 200'' then s\<lparr>dl_found := True\<rparr> else s) in
      if line = ''Accept-Ranges: bytes'' @ [CHR 0x0D, CHR 0x0A] then s1\<lparr>dl_acceptRanges := True\<rparr>
      else if startWith line ''Content-Length:''
      then s1\<lparr>dl_length := atoi (drop (length ''Content-Length:'') line)\<rparr>
      else s1)"

definition range_text :: "int \<Rightarrow> int \<Rightarrow> string" where
  "range_text len i =
     (let pieceLen = len sdiv kConcurrent in
      if i < kConcurrent - 1
      then show_int (i * pieceLen) @ ''-'' @ show_int ((i + 1) * pieceLen - 1)
      else show_int (i * pieceLen) @ ''-'' @ show_int (len - 1))"

text \<open>\<open>fopen\<close> says whether the output file could be made. When it could not, the guard object still calls
  \<^verbatim>\<open>fclose\<close> on the null pointer at the end of the function.\<close>

definition concurrentDownload :: "bool \<Rightarrow> Downloader \<Rightarrow> Downloader res" where
  "concurrentDownload fopen s =
     (let pieceLen = dl_length s sdiv kConcurrent in
      if fopen then
        Inr (s\<lparr>dl_out := Map.empty,
               dl_pieces := dl_pieces s @ map (\<lambda>i. Piece_new (i * pieceLen) (range_text (dl_length s) i)) [0..kConcurrent - 1]\<rparr>)
      else Inl (Fatal ''fclose(NULL)''))"

definition onHeaderDone :: "bool \<Rightarrow> Downloader \<Rightarrow> Downloader res" where
  "onHeaderDone fopen s =
     (if dl_acceptRanges s \<and> dl_length s \<ge> kConcurrent * 4096
      then concurrentDownload fopen (s\<lparr>dl_concurrent := kConcurrent\<rparr>)
      else if dl_found s then
        if fopen then Inr (s\<lparr>dl_out := Map.empty, dl_pos := 0, dl_concurrent := 1\<rparr>)
        else Inr (s\<lparr>dl_quit := True\<rparr>)
      else Inr (s\<lparr>dl_quit := True\<rparr>))"

text \<open>The single download writes with \<^verbatim>\<open>fwrite\<close> at the end of the file.\<close>

definition Downloader_onData :: "string \<Rightarrow> Downloader \<Rightarrow> Downloader" where
  "Downloader_onData data s = s\<lparr>dl_out := pwrite (dl_pos s) data (dl_out s), dl_pos := dl_pos s + length data\<rparr>"

definition onDownloadDone :: "Downloader \<Rightarrow> Downloader" where
  "onDownloadDone s =
     (let c = dl_concurrent s - 1 in
      if c \<le> 0 then s\<lparr>dl_concurrent := c, dl_quit := True\<rparr> else s\<lparr>dl_concurrent := c\<rparr>)"

definition Piece_onDone :: "nat \<Rightarrow> Downloader \<Rightarrow> Downloader" where
  "Piece_onDone i s = onDownloadDone (s\<lparr>dl_pieces := (dl_pieces s)[i := (dl_pieces s ! i)\<lparr>pi_live := False\<rparr>]\<rparr>)"

section \<open>The ranges\<close>

definition range_start :: "int \<Rightarrow> nat \<Rightarrow> int" where
  "range_start len i = int i * (len div 4)"

definition range_end :: "int \<Rightarrow> nat \<Rightarrow> int" where
  "range_end len i = (if i < 3 then (int i + 1) * (len div 4) else len)"

lemma sdiv_kConcurrent: "0 \<le> len \<Longrightarrow> len sdiv kConcurrent = len div 4"
  by (cases "len = 0") (simp_all add: kConcurrent_def signed_divide_int_def)

lemma range_text_eq:
  "0 \<le> len \<Longrightarrow> i < 4 \<Longrightarrow> range_text len (int i) = show_int (range_start len i) @ ''-'' @ show_int (range_end len i - 1)"
  unfolding range_text_def Let_def
  by (simp only: sdiv_kConcurrent) (auto simp: range_start_def range_end_def kConcurrent_def)

lemma range_order: "4 \<le> len \<Longrightarrow> i < 4 \<Longrightarrow> 0 \<le> range_start len i \<and> range_start len i < range_end len i \<and> range_end len i \<le> len"
  by (cases "i = 3") (auto simp: range_start_def range_end_def less_Suc_eq numeral_eq_Suc)

lemma range_next: "i < 3 \<Longrightarrow> range_end len i = range_start len (Suc i)"
  by (simp add: range_start_def range_end_def algebra_simps)

text \<open>Every position of the file lies in exactly one range.\<close>

lemma range_cover:
  assumes "4 \<le> len" "0 \<le> p" "p < len"
  shows "\<exists>i < 4. range_start len i \<le> p \<and> p < range_end len i"
proof -
  have "p < range_end len 3" "range_start len 0 \<le> p" using assms by (simp_all add: range_end_def range_start_def)
  then show ?thesis using range_next [of 0 len] range_next [of 1 len] range_next [of 2 len]
    by (cases "p < range_end len 0"; cases "p < range_end len 1"; cases "p < range_end len 2")
      (auto simp: numeral_2_eq_2 numeral_3_eq_3 intro: exI [of _ 0] exI [of _ 1] exI [of _ 2] exI [of _ 3])
qed

lemma range_start_mono: "0 \<le> len \<Longrightarrow> i \<le> j \<Longrightarrow> range_start len i \<le> range_start len j"
  by (simp add: range_start_def mult_right_mono)

lemma range_unique:
  assumes "0 \<le> len" "i < 4" "j < 4" "range_start len i \<le> p" "p < range_end len i" "range_start len j \<le> p" "p < range_end len j"
  shows "i = j"
proof (rule ccontr)
  have sep: "range_end len a \<le> range_start len b" if "a < b" "b < 4" for a b
    using that assms(1) range_next [of a len] range_start_mono [of len "Suc a" b] by simp
  assume "i \<noteq> j"
  then show False using sep [of i j] sep [of j i] assms by (cases "i < j") auto
qed

section \<open>The download as a step relation\<close>

text \<open>A server that honours the range sends the bytes of the range; libcurl calls the data callback with
  them in order, and the done callback once, after the last. The disk takes every chunk whole.\<close>

inductive dl_step :: "string \<Rightarrow> Downloader \<Rightarrow> Downloader \<Rightarrow> bool" for body where
  dl_data: "i < length (dl_pieces s) \<Longrightarrow> p = dl_pieces s ! i \<Longrightarrow> pi_live p \<Longrightarrow> data \<noteq> [] \<Longrightarrow>
      pi_offset p + int (length data) \<le> range_end (int (length body)) i \<Longrightarrow>
      data = take (length data) (drop (nat (pi_offset p)) body) \<Longrightarrow>
      Piece_onData (int (length data)) data p (dl_out s) = Inr (p', out') \<Longrightarrow>
      dl_step body s (s\<lparr>dl_pieces := (dl_pieces s)[i := p'], dl_out := out'\<rparr>)"
| dl_done: "i < length (dl_pieces s) \<Longrightarrow> pi_live (dl_pieces s ! i) \<Longrightarrow>
      pi_offset (dl_pieces s ! i) = range_end (int (length body)) i \<Longrightarrow> dl_step body s (Piece_onDone i s)"

text \<open>The state after the headers of a file of at least 16 KiB on a server that accepts ranges.\<close>

definition dl_init :: "string \<Rightarrow> Downloader \<Rightarrow> bool" where
  "dl_init body s \<longleftrightarrow> 4 * 4096 \<le> length body \<and>
     (\<exists>found. onHeaderDone True (Downloader_new\<lparr>dl_found := found, dl_acceptRanges := True, dl_length := int (length body)\<rparr>) = Inr s)"

text \<open>The positions the pieces have written so far.\<close>

definition written :: "Downloader \<Rightarrow> int \<Rightarrow> nat \<Rightarrow> bool" where
  "written s len p \<longleftrightarrow> (\<exists>i < 4. range_start len i \<le> int p \<and> int p < pi_offset (dl_pieces s ! i))"

definition live_pieces :: "Downloader \<Rightarrow> nat" where
  "live_pieces s = card {i. i < 4 \<and> pi_live (dl_pieces s ! i)}"

definition dl_inv :: "string \<Rightarrow> Downloader \<Rightarrow> bool" where
  "dl_inv body s \<longleftrightarrow> (let len = int (length body) in
     4 * 4096 \<le> length body \<and> length (dl_pieces s) = 4 \<and>
     (\<forall>i < 4. range_start len i \<le> pi_offset (dl_pieces s ! i) \<and> pi_offset (dl_pieces s ! i) \<le> range_end len i \<and>
        pi_range (dl_pieces s ! i) = show_int (range_start len i) @ ''-'' @ show_int (range_end len i - 1) \<and>
        (\<not> pi_live (dl_pieces s ! i) \<longrightarrow> pi_offset (dl_pieces s ! i) = range_end len i)) \<and>
     dl_out s = (\<lambda>p. if written s len p then Some (body ! p) else None) \<and>
     dl_concurrent s = int (live_pieces s) \<and> (dl_quit s \<longleftrightarrow> live_pieces s = 0))"

lemma upto_pieces: "[0..kConcurrent - 1] = map int [0, 1, 2, 3]"
  by (simp add: kConcurrent_def upto.simps)

lemma pieces_list:
  assumes "0 \<le> len"
  shows "map (\<lambda>i. Piece_new (i * (len sdiv kConcurrent)) (range_text len i)) [0..kConcurrent - 1] =
    map (\<lambda>i. Piece_new (range_start len i) (show_int (range_start len i) @ ''-'' @ show_int (range_end len i - 1))) [0, 1, 2, 3]"
  unfolding upto_pieces map_map
proof (rule map_cong [OF refl])
  fix i :: nat assume "i \<in> set [0, 1, 2, 3]"
  then have "i < 4" by auto
  then show "((\<lambda>i. Piece_new (i * (len sdiv kConcurrent)) (range_text len i)) \<circ> int) i =
      Piece_new (range_start len i) (show_int (range_start len i) @ ''-'' @ show_int (range_end len i - 1))"
    using range_text_eq [OF assms] sdiv_kConcurrent [OF assms] by (simp add: range_start_def)
qed

lemma dl_inv_init: "dl_init body s \<Longrightarrow> dl_inv body s"
proof -
  assume a: "dl_init body s"
  let ?len = "int (length body)"
  have len: "4 * 4096 \<le> length body" using a by (simp add: dl_init_def)
  then have k: "kConcurrent * 4096 \<le> ?len" by (simp add: kConcurrent_def)
  have p: "dl_pieces s = map (\<lambda>i. Piece_new (range_start ?len i) (show_int (range_start ?len i) @ ''-'' @ show_int (range_end ?len i - 1))) [0, 1, 2, 3]"
    "dl_out s = Map.empty" "dl_concurrent s = 4" "\<not> dl_quit s"
    using a k pieces_list [of ?len]
    by (auto simp: dl_init_def onHeaderDone_def concurrentDownload_def Downloader_new_def Let_def) (simp add: kConcurrent_def)
  have nth: "dl_pieces s ! i = Piece_new (range_start ?len i) (show_int (range_start ?len i) @ ''-'' @ show_int (range_end ?len i - 1))" if "i < 4" for i
    using that by (auto simp: p(1) less_Suc_eq numeral_eq_Suc)
  have "{i. i < 4 \<and> pi_live (dl_pieces s ! i)} = {..<4}" using nth by (auto simp: Piece_new_def)
  then have "live_pieces s = 4" by (simp add: live_pieces_def)
  then show ?thesis using len p(2-4) nth range_order [of ?len]
    by (auto simp: dl_inv_def Let_def written_def p(1) Piece_new_def less_imp_le intro: less_imp_le)
qed

lemma written_data:
  assumes "dl_inv body s" "i < 4" "p = dl_pieces s ! i" "0 \<le> n"
  shows "written (s\<lparr>dl_pieces := (dl_pieces s)[i := p\<lparr>pi_offset := pi_offset p + n\<rparr>], dl_out := out'\<rparr>) (int (length body)) q \<longleftrightarrow>
    written s (int (length body)) q \<or> pi_offset p \<le> int q \<and> int q < pi_offset p + n" (is "?L \<longleftrightarrow> ?R")
proof -
  have len: "length (dl_pieces s) = 4" and st: "range_start (int (length body)) i \<le> pi_offset p"
    using assms by (simp_all add: dl_inv_def Let_def)
  have nth: "(dl_pieces s)[i := p\<lparr>pi_offset := pi_offset p + n\<rparr>] ! j = (if j = i then p\<lparr>pi_offset := pi_offset p + n\<rparr> else dl_pieces s ! j)"
    if "j < 4" for j using that len by (simp add: nth_list_update)
  show ?thesis
  proof
    assume ?L
    then obtain j where "j < 4" "range_start (int (length body)) j \<le> int q"
        "int q < pi_offset ((dl_pieces s)[i := p\<lparr>pi_offset := pi_offset p + n\<rparr>] ! j)"
      by (auto simp: written_def)
    then show ?R using nth [of j] assms(3) by (cases "j = i") (auto simp: written_def not_le)
  next
    assume ?R
    then consider j where "j < 4" "range_start (int (length body)) j \<le> int q" "int q < pi_offset (dl_pieces s ! j)"
      | "pi_offset p \<le> int q" "int q < pi_offset p + n" by (auto simp: written_def)
    then show ?L
    proof cases
      case (1 j)
      then show ?thesis using nth [of j] assms(3) assms(4) by (auto simp: written_def intro!: exI [of _ j])
    next
      case 2
      then show ?thesis using nth [of i] assms(2) st by (auto simp: written_def intro!: exI [of _ i])
    qed
  qed
qed

lemma dl_inv_data:
  assumes inv: "dl_inv body s" and i: "i < length (dl_pieces s)" and p: "p = dl_pieces s ! i" "pi_live p"
    and n: "pi_offset p + int (length data) \<le> range_end (int (length body)) i"
    and d: "data = take (length data) (drop (nat (pi_offset p)) body)"
    and r: "Piece_onData (int (length data)) data p (dl_out s) = Inr (p', out')"
  shows "dl_inv body (s\<lparr>dl_pieces := (dl_pieces s)[i := p'], dl_out := out'\<rparr>)"
proof -
  let ?len = "int (length body)" and ?n = "int (length data)"
  have i4: "i < 4" and len: "length (dl_pieces s) = 4" using inv i by (simp_all add: dl_inv_def Let_def)
  have p': "p' = p\<lparr>pi_offset := pi_offset p + ?n\<rparr>" "out' = pwrite (nat (pi_offset p)) data (dl_out s)"
    using r by (auto simp: Piece_onData_def split: if_splits)
  let ?s = "s\<lparr>dl_pieces := (dl_pieces s)[i := p'], dl_out := out'\<rparr>"
  have off: "0 \<le> pi_offset p" "range_start ?len i \<le> pi_offset p"
    using inv i4 p(1) range_order [of ?len i] by (auto simp: dl_inv_def Let_def)
  have live: "pi_live (dl_pieces ?s ! j) = pi_live (dl_pieces s ! j)" if "j < 4" for j
    using that len p by (cases "j = i") (simp_all add: p')
  then have "{i. i < 4 \<and> pi_live (dl_pieces ?s ! i)} = {i. i < 4 \<and> pi_live (dl_pieces s ! i)}" by blast
  then have lp: "live_pieces ?s = live_pieces s" by (simp only: live_pieces_def)
  have out: "dl_out ?s q = (if written ?s ?len q then Some (body ! q) else None)" for q
  proof -
    have w: "written ?s ?len q \<longleftrightarrow> written s ?len q \<or> pi_offset p \<le> int q \<and> int q < pi_offset p + ?n"
      unfolding p'(1) by (rule written_data [OF inv i4 p(1)]) simp
    have o: "dl_out s q = (if written s ?len q then Some (body ! q) else None)" using inv by (simp add: dl_inv_def Let_def)
    show ?thesis
    proof (cases "pi_offset p \<le> int q \<and> int q < pi_offset p + ?n")
      case True
      then have q: "nat (pi_offset p) \<le> q" "q - nat (pi_offset p) < length data" "q < nat (pi_offset p) + length data" using off by auto
      have "length data \<le> length (drop (nat (pi_offset p)) body)" using d by (metis length_take min.cobounded1)
      then have "data ! (q - nat (pi_offset p)) = body ! q" using q by (subst d) (simp add: nth_drop)
      then have "dl_out ?s q = Some (body ! q)" using q by (simp add: p'(2) pwrite_def)
      then show ?thesis using True w by presburger
    next
      case False
      then have "\<not> (nat (pi_offset p) \<le> q \<and> q < nat (pi_offset p) + length data)" using off by auto
      then have "dl_out ?s q = dl_out s q" by (auto simp: p'(2) pwrite_def)
      then show ?thesis using False w o by presburger
    qed
  qed
  have "range_start ?len j \<le> pi_offset (dl_pieces ?s ! j) \<and> pi_offset (dl_pieces ?s ! j) \<le> range_end ?len j \<and>
      pi_range (dl_pieces ?s ! j) = show_int (range_start ?len j) @ ''-'' @ show_int (range_end ?len j - 1) \<and>
      (\<not> pi_live (dl_pieces ?s ! j) \<longrightarrow> pi_offset (dl_pieces ?s ! j) = range_end ?len j)" if "j < 4" for j
    using that inv len p n off(2) by (cases "j = i") (auto simp: dl_inv_def Let_def p' nth_list_update)
  then show ?thesis using inv lp out unfolding dl_inv_def Let_def by (auto simp: fun_eq_iff)
qed

lemma dl_inv_done:
  assumes inv: "dl_inv body s" and i: "i < length (dl_pieces s)" "pi_live (dl_pieces s ! i)"
    and e: "pi_offset (dl_pieces s ! i) = range_end (int (length body)) i"
  shows "dl_inv body (Piece_onDone i s)"
proof -
  let ?len = "int (length body)" and ?s = "Piece_onDone i s"
  have len: "length (dl_pieces s) = 4" and i4: "i < 4" using inv i by (simp_all add: dl_inv_def Let_def)
  have pc: "dl_pieces ?s = (dl_pieces s)[i := (dl_pieces s ! i)\<lparr>pi_live := False\<rparr>]"
    by (simp add: Piece_onDone_def onDownloadDone_def Let_def)
  have nth: "dl_pieces ?s ! j = (if j = i then (dl_pieces s ! i)\<lparr>pi_live := False\<rparr> else dl_pieces s ! j)" if "j < 4" for j
    using that len by (simp add: pc nth_list_update)
  have "{j. j < 4 \<and> pi_live (dl_pieces s ! j)} = insert i {j. j < 4 \<and> pi_live (dl_pieces ?s ! j)}"
    using i(2) i4 nth by (auto split: if_splits)
  moreover have "i \<notin> {j. j < 4 \<and> pi_live (dl_pieces ?s ! j)}" using nth [of i] by auto
  ultimately have lp: "live_pieces s = Suc (live_pieces ?s)" by (simp add: live_pieces_def)
  have "pi_offset (dl_pieces ?s ! j) = pi_offset (dl_pieces s ! j)" if "j < 4" for j using nth [OF that] by simp
  then have "written ?s ?len q \<longleftrightarrow> written s ?len q" for q by (auto simp: written_def)
  moreover have "dl_out ?s = dl_out s" by (simp add: Piece_onDone_def onDownloadDone_def Let_def)
  ultimately have "dl_out ?s = (\<lambda>p. if written ?s ?len p then Some (body ! p) else None)"
    using inv by (simp add: dl_inv_def Let_def)
  moreover have "dl_concurrent ?s = int (live_pieces ?s)" "dl_quit ?s \<longleftrightarrow> live_pieces ?s = 0"
    using inv lp by (auto simp: dl_inv_def Let_def Piece_onDone_def onDownloadDone_def)
  moreover have "length (dl_pieces ?s) = 4" using len pc by simp
  ultimately show ?thesis using inv nth e unfolding dl_inv_def Let_def by auto
qed

interpretation download: transition_system "dl_init body" "dl_step body" "dl_inv body"
  by unfold_locales (auto elim!: dl_step.cases intro: dl_inv_init dl_inv_data dl_inv_done)

section \<open>Properties\<close>

lemma all_written:
  assumes "dl_inv body s" "live_pieces s = 0"
  shows "dl_out s = (\<lambda>p. if p < length body then Some (body ! p) else None)"
proof -
  let ?len = "int (length body)"
  have l4: "4 \<le> ?len" using assms(1) by (simp add: dl_inv_def Let_def)
  have "finite {i. i < 4 \<and> pi_live (dl_pieces s ! i)}" by simp
  then have "\<not> pi_live (dl_pieces s ! i)" if "i < 4" for i using that assms(2) by (auto simp: live_pieces_def)
  then have e: "pi_offset (dl_pieces s ! i) = range_end ?len i" if "i < 4" for i
    using that assms(1) by (auto simp: dl_inv_def Let_def)
  have "written s ?len p \<longleftrightarrow> p < length body" for p
  proof
    assume "written s ?len p"
    then show "p < length body" using e range_order [OF l4] by (fastforce simp: written_def)
  next
    assume "p < length body"
    then show "written s ?len p" using range_cover [OF l4, of "int p"] e by (auto simp: written_def)
  qed
  then show ?thesis using assms(1) by (simp add: dl_inv_def Let_def)
qed

lemma download_progress:
  assumes "dl_inv body s" "\<not> dl_quit s"
  shows "\<exists>t. dl_step body s t"
proof -
  let ?len = "int (length body)"
  have "{i. i < 4 \<and> pi_live (dl_pieces s ! i)} \<noteq> {}" using assms by (auto simp: dl_inv_def Let_def live_pieces_def)
  then obtain i where i: "i < 4" "pi_live (dl_pieces s ! i)" by blast
  have inv: "length (dl_pieces s) = 4" "range_start ?len i \<le> pi_offset (dl_pieces s ! i)" "pi_offset (dl_pieces s ! i) \<le> range_end ?len i" "4 \<le> ?len"
    using assms(1) i(1) by (auto simp: dl_inv_def Let_def)
  show ?thesis
  proof (cases "pi_offset (dl_pieces s ! i) = range_end ?len i")
    case True
    then show ?thesis using dl_done [of i s body] i inv(1) by auto
  next
    case False
    let ?p = "dl_pieces s ! i"
    have b: "0 \<le> pi_offset ?p" "pi_offset ?p < ?len" "pi_offset ?p + 1 \<le> range_end ?len i"
      using False inv range_order [OF inv(4) i(1)] by auto
    let ?d = "[body ! nat (pi_offset ?p)]"
    have "nat (pi_offset ?p) < length body" using b by simp
    then have "?d = take (length ?d) (drop (nat (pi_offset ?p)) body)" by (simp add: take_Suc_conv_app_nth)
    moreover have "Piece_onData (int (length ?d)) ?d ?p (dl_out s) =
        Inr (?p\<lparr>pi_offset := pi_offset ?p + 1\<rparr>, pwrite (nat (pi_offset ?p)) ?d (dl_out s))"
      by (simp add: Piece_onData_def)
    moreover have "pi_offset ?p + int (length ?d) \<le> range_end ?len i" "i < length (dl_pieces s)" using b(3) i(1) inv(1) by simp_all
    ultimately show ?thesis using dl_data [OF _ refl i(2)] by blast
  qed
qed

lemma range_texts:
  assumes "4 \<le> n"
  shows "map (\<lambda>i. show_int (range_start (int n) i) @ ''-'' @ show_int (range_end (int n) i - 1)) [0, 1, 2, 3] =
    (let q = n div 4 in
        [show_nat 0 @ ''-'' @ show_nat (q - 1), show_nat q @ ''-'' @ show_nat (2 * q - 1),
         show_nat (2 * q) @ ''-'' @ show_nat (3 * q - 1), show_nat (3 * q) @ ''-'' @ show_nat (n - 1)])"
proof -
  have a: "show_int (int m) = show_nat m" for m by (simp add: show_int_def)
  have b: "show_int (int m - 1) = show_nat (m - 1)" if "0 < m" for m
  proof -
    have "int m - 1 = int (m - 1)" using that by simp
    then show ?thesis by (simp only: a)
  qed
  have s: "range_start (int n) i = int (i * (n div 4))" for i by (simp add: range_start_def zdiv_int)
  have e: "range_end (int n) i = int (if i < 3 then (i + 1) * (n div 4) else n)" for i by (simp add: range_end_def zdiv_int algebra_simps)
  have q: "0 < n div 4" using assms by (simp add: div_greater_zero_iff)
  show ?thesis unfolding s e Let_def using q assms by (simp add: a b mult_2 del: of_nat_mult)
qed


lemma dl_start:
  assumes "4 * 4096 \<le> length body"
  shows "\<exists>s. reach (dl_init body) (dl_step body) s \<and> \<not> dl_quit s"
proof -
  let ?s0 = "Downloader_new\<lparr>dl_found := True, dl_acceptRanges := True, dl_length := int (length body)\<rparr>"
  have "kConcurrent * 4096 \<le> int (length body)" using assms by (simp add: kConcurrent_def)
  then obtain s where s: "onHeaderDone True ?s0 = Inr s" "\<not> dl_quit s"
    by (simp add: onHeaderDone_def concurrentDownload_def Downloader_new_def Let_def)
  then have "dl_init body s" using assms unfolding dl_init_def by blast
  then have "reach (dl_init body) (dl_step body) s" by (rule reach_init)
  with s(2) show ?thesis by blast
qed


end
