(* ===== verification/Echo.thy ===== *)
theory Echo
  imports TcpConnection
begin

text \<open>
  The example servers \<^verbatim>\<open>src/example/echo\<close> and \<^verbatim>\<open>src/example/discard\<close> on a connection: their callbacks are lists of
  calls on the connection of theory \<open>TcpConnection\<close>. A run is a sequence of readable and writable events; the
  echo server is shown to implement RFC 862 on top of the buffers, the partial writes and the
  channel masks of the library: it interprets the interface \<open>byte_stream\<close>.
\<close>

section \<open>The servers\<close>

text \<open>The message that \<^verbatim>\<open>retrieveAllAsString\<close> takes out of the input buffer.\<close>

definition input_text :: "TcpConnection \<Rightarrow> byte list" where
  "input_text s = (case retrieveAllAsString (tc_input s) of Inr (msg, _) \<Rightarrow> msg | Inl _ \<Rightarrow> [])"

definition EchoServer_onMessage :: "TcpConnection \<Rightarrow> user_call list" where
  "EchoServer_onMessage s = [URetrieveAll, USend (input_text s)]"

definition DiscardServer_onMessage :: "TcpConnection \<Rightarrow> user_call list" where
  "DiscardServer_onMessage s = [URetrieveAll]"

text \<open>\<^verbatim>\<open>onConnection\<close> of both servers only writes a line to the log.\<close>

definition EchoServer :: user_callbacks where
  "EchoServer = \<lparr>on_connection = \<lambda>s. [], on_message = EchoServer_onMessage\<rparr>"

definition DiscardServer :: user_callbacks where
  "DiscardServer = \<lparr>on_connection = \<lambda>s. [], on_message = DiscardServer_onMessage\<rparr>"

section \<open>Runs of a server\<close>

datatype io_event = Readable "byte list" | Writable

fun io_step :: "kwrite \<Rightarrow> user_callbacks \<Rightarrow> io_event \<Rightarrow> TcpConnection \<Rightarrow> TcpConnection res" where
  "io_step kw u (Readable bs) s = TcpConnection_handleRead kw u (\<lambda>_. ReadOk bs) s"
| "io_step kw u Writable s = handleWrite kw s"

text \<open>What the environment promises of an event: a readable descriptor delivers at least one byte and no
  more than \<^verbatim>\<open>readv\<close> was given room for, and the reply is one that the output buffer accepts.\<close>

fun echo_ok :: "kwrite \<Rightarrow> io_event \<Rightarrow> TcpConnection \<Rightarrow> bool" where
  "echo_ok kw (Readable bs) s \<longleftrightarrow> bs \<noteq> [] \<and> length bs \<le> sum_list (readFd_iov (tc_input s)) \<and>
     length (buf_data (tc_input s)) + extrabuf_size \<le> MAX_SIZE \<and> send_ok kw bs s"
| "echo_ok kw Writable s \<longleftrightarrow> True"

fun discard_ok :: "io_event \<Rightarrow> TcpConnection \<Rightarrow> bool" where
  "discard_ok (Readable bs) s \<longleftrightarrow> bs \<noteq> [] \<and> length bs \<le> sum_list (readFd_iov (tc_input s)) \<and>
     length (buf_data (tc_input s)) + extrabuf_size \<le> MAX_SIZE"
| "discard_ok Writable s \<longleftrightarrow> True"

fun echo_effect :: "io_event \<Rightarrow> byte list \<Rightarrow> byte list" where
  "echo_effect (Readable bs) out = out @ bs"
| "echo_effect Writable out = out"

text \<open>Between two events the input buffer is empty, with its indices at the start.\<close>

definition io_inv :: "kwrite \<Rightarrow> TcpConnection \<Rightarrow> bool" where
  "io_inv kw s \<longleftrightarrow> kw_contract kw \<and> tc_inv s \<and> tc_state s = kConnected \<and> content (tc_input s) = [] \<and>
     readerIndex (tc_input s) = kCheapPrepend"

section \<open>Frames\<close>

lemma sendInLoop_input:
  assumes "sendInLoop kw data s = Inr s'"
  shows "tc_input s' = tc_input s"
proof -
  obtain s1 nw rem fe where d: "send_direct kw data s = (s1, nw, rem, fe)" by (cases "send_direct kw data s")
  then have i1: "tc_input s1 = tc_input s" by (auto simp: send_direct_def Let_def split: if_splits prod.splits)
  have "tc_input (note_highWaterMark r t) = tc_input t" for r t by (simp add: note_highWaterMark_def Let_def)
  then have "tc_input t' = tc_input t" if "send_rest rest r t = Inr t'" for rest r t t'
    using that by (auto simp: send_rest_def bindR_eq_Inr Let_def split: if_splits dest!: tc_mask_frame)
  then show ?thesis using assms d i1 by (auto simp: sendInLoop_def bindR_eq_Inr Let_def split: if_splits)
qed

lemma handleWrite_input:
  assumes "handleWrite kw s = Inr s'"
  shows "tc_input s' = tc_input s"
proof -
  have mk: "tc_input t' = tc_input t" if "tc_mask m t = Inr t'" for m t t' using tc_mask_frame [OF that] by auto
  have sh: "tc_input t' = tc_input t" if "shutdownInLoop t = Inr t'" for t t'
    using that by (auto simp: shutdownInLoop_def bindR_eq_Inr)
  have dr: "tc_input t' = tc_input t" if r: "output_drained t = Inr t'" for t t'
  proof -
    obtain a where a: "tc_mask DisableWriting t = Inr a" using r by (auto simp: output_drained_def bindR_eq_Inr)
    show ?thesis
    proof (cases "readableBytes (tc_output a) = 0")
      case False
      with r a have "t' = a" by (simp add: output_drained_def)
      then show ?thesis using mk [OF a] by simp
    next
      case True
      with r a obtain c where c: "tc_mask DisableWriting a = Inr c" by (auto simp: output_drained_def bindR_eq_Inr)
      let ?q = "if tc_hasWriteComplete c then c\<lparr>tc_queue := tc_queue c @ [QWriteComplete]\<rparr> else c"
      have "(if tc_state ?q = kDisconnecting then shutdownInLoop ?q else Inr ?q) = Inr t'"
        using r a c True by (simp add: output_drained_def Let_def)
      then have "tc_input t' = tc_input ?q" using sh [of ?q t'] by (cases "tc_state ?q = kDisconnecting") simp_all
      also have "\<dots> = tc_input t" using mk [OF a] mk [OF c] by simp
      finally show ?thesis .
    qed
  qed
  define data where "data = slice (peek (tc_output s)) (peek (tc_output s) + readableBytes (tc_output s)) (buf_data (tc_output s))"
  obtain n e where k: "kw (tc_writes s) data = (n, e)" by (cases "kw (tc_writes s) data")
  let ?s1 = "s\<lparr>tc_writes := Suc (tc_writes s)\<rparr>"
  have a: "assertInLoopThread (tc_rx s) = Inr ()" using assms by (auto simp: handleWrite_def bindR_eq_Inr)
  have "(if isWriting (tc_chan s) then if n > 0 then
      bindR (retrieve (nat n) (tc_output s)) (\<lambda>out. let s2 = ?s1\<lparr>tc_output := out, tc_wire := tc_wire s @ take (nat n) data\<rparr> in
        if readableBytes out = 0 then output_drained s2 else Inr s2) else Inr ?s1 else Inr s) = Inr s'"
    using assms k a unfolding handleWrite_def data_def [symmetric] by (simp add: Let_def split: if_splits)
  note run = this
  show ?thesis
  proof (cases "isWriting (tc_chan s) \<and> n > 0")
    case False
    with run have "s' = s \<or> s' = ?s1" by (auto split: if_splits)
    then show ?thesis by auto
  next
    case True
    with run obtain out where out: "retrieve (nat n) (tc_output s) = Inr out"
      "(if readableBytes out = 0 then output_drained (?s1\<lparr>tc_output := out, tc_wire := tc_wire s @ take (nat n) data\<rparr>)
        else Inr (?s1\<lparr>tc_output := out, tc_wire := tc_wire s @ take (nat n) data\<rparr>)) = Inr s'"
      by (auto simp: bindR_eq_Inr Let_def)
    show ?thesis
    proof (cases "readableBytes out = 0")
      case True
      with out(2) dr [of "?s1\<lparr>tc_output := out, tc_wire := tc_wire s @ take (nat n) data\<rparr>" s'] show ?thesis by simp
    next
      case False
      with out(2) have "s' = ?s1\<lparr>tc_output := out, tc_wire := tc_wire s @ take (nat n) data\<rparr>" by simp
      then show ?thesis by simp
    qed
  qed
qed

lemma send_ok_frame: "send_ok kw d (s\<lparr>tc_log := l, tc_input := b\<rparr>) = send_ok kw d s"
  by (simp add: send_ok_def send_direct_def tc_chan_def Let_def split: prod.split)

lemma input_text_content: "buf_inv (tc_input s) \<Longrightarrow> input_text s = content (tc_input s)"
  using retrieveAsString_ok [of "tc_input s" "readableBytes (tc_input s)"] length_content [of "tc_input s"]
  by (auto simp: input_text_def retrieveAllAsString_def)

text \<open>A read into the emptied buffer: \<^verbatim>\<open>readFd\<close> does not hit the branch that aborts, since its readable bytes
  start at the beginning of the buffer.\<close>

lemma read_into_empty:
  assumes "io_inv kw s" "length bs \<le> sum_list (readFd_iov (tc_input s))" "length (buf_data (tc_input s)) + extrabuf_size \<le> MAX_SIZE"
  shows "\<exists>b. readFd (\<lambda>_. ReadOk bs) (tc_input s) = Inr (int (length bs), None, b) \<and> buf_inv b \<and> content b = bs"
proof -
  have "buf_inv (tc_input s)" "content (tc_input s) = []" "readerIndex (tc_input s) = kCheapPrepend"
    using assms(1) tc_invD(1) by (auto simp: io_inv_def)
  then show ?thesis using readFd_ok [of "tc_input s" "\<lambda>_. ReadOk bs" bs] assms(2,3) by (cases "length bs \<le> writableBytes (tc_input s)") auto
qed

lemma message_ok:
  assumes inv: "io_inv kw s" and bs: "bs \<noteq> []" and rd: "readFd (\<lambda>_. ReadOk bs) (tc_input s) = Inr (int (length bs), None, b)" "buf_inv b" "content b = bs"
  shows "TcpConnection_handleRead kw u (\<lambda>_. ReadOk bs) s = call_message kw u (s\<lparr>tc_input := b\<rparr>)"
    and "io_inv kw (s\<lparr>tc_log := l, tc_input := retrieveAll b\<rparr>)"
    and "input_text (s\<lparr>tc_input := b, tc_log := l\<rparr>) = bs"
proof -
  have i: "tc_inv s" using inv by (simp add: io_inv_def)
  show "TcpConnection_handleRead kw u (\<lambda>_. ReadOk bs) s = call_message kw u (s\<lparr>tc_input := b\<rparr>)"
    using rd(1) bs by (simp add: TcpConnection_handleRead_def tc_invD(6) [OF i] Let_def)
  show "input_text (s\<lparr>tc_input := b, tc_log := l\<rparr>) = bs" using rd by (simp add: input_text_content)
  have "buf_inv (retrieveAll b)" "readerIndex (retrieveAll b) = kCheapPrepend" using rd(2) by simp_all (simp add: retrieveAll_def)
  then show "io_inv kw (s\<lparr>tc_log := l, tc_input := retrieveAll b\<rparr>)"
    using inv by (auto simp: io_inv_def tc_inv_def tc_chan_def)
qed

lemma writable_ok:
  assumes "io_inv kw s"
  shows "\<exists>s'. handleWrite kw s = Inr s' \<and> io_inv kw s' \<and> tc_stream s' = tc_stream s"
  using handleWrite_ok [of s kw] handleWrite_input [of kw s] assms by (auto simp: io_inv_def)

lemma echo_step:
  assumes inv: "io_inv kw s" and ok: "echo_ok kw x s"
  shows "\<exists>s'. io_step kw EchoServer x s = Inr s' \<and> io_inv kw s' \<and> tc_stream s' = echo_effect x (tc_stream s)"
proof (cases x)
  case Writable
  then show ?thesis using writable_ok [OF inv] by simp
next
  case (Readable bs)
  with ok have bs: "bs \<noteq> []" "send_ok kw bs s" by simp_all
  obtain b where rd: "readFd (\<lambda>_. ReadOk bs) (tc_input s) = Inr (int (length bs), None, b)" "buf_inv b" "content b = bs"
    using read_into_empty [OF inv, of bs] ok Readable by auto
  let ?l = "tc_log s @ [LMessage]"
  let ?t = "s\<lparr>tc_log := ?l, tc_input := retrieveAll b\<rparr>"
  note m = message_ok [OF inv bs(1) rd]
  have t: "tc_inv ?t" "tc_state ?t = kConnected" "kw_contract kw" using m(2) [of ?l] by (simp_all add: io_inv_def)
  have sok: "send_ok kw bs ?t" using bs(2) send_ok_frame [where s = s and b = "retrieveAll b" and l = ?l] by simp
  obtain s' where s': "sendInLoop kw bs ?t = Inr s'" "tc_inv s'" "tc_state s' = kConnected" "tc_stream s' = tc_stream ?t @ bs"
    using sendInLoop_ok [OF t(1) _ tc_invD(11) [OF t(1,2)] t(3) sok] t(2) by auto
  have "io_step kw EchoServer x s = bindR (send kw bs ?t) (foldR (do_user kw) [])"
    using Readable m(1) [of EchoServer] m(3) [of ?l] by (simp add: call_message_def EchoServer_def EchoServer_onMessage_def Let_def)
  also have "send kw bs ?t = Inr s'" using s'(1) t(2) ready_in_loop [OF tc_invD(4) [OF t(1)]] by (simp add: send_def)
  finally have "io_step kw EchoServer x s = Inr s'" by simp
  moreover have "tc_stream ?t = tc_stream s" by (simp add: tc_stream_def)
  moreover have "io_inv kw s'" using s' sendInLoop_input [OF s'(1)] m(2) [of ?l] by (simp add: io_inv_def)
  ultimately show ?thesis using s'(4) Readable by simp
qed

lemma discard_step:
  assumes inv: "io_inv kw s" and ok: "discard_ok x s"
  shows "\<exists>s'. io_step kw DiscardServer x s = Inr s' \<and> io_inv kw s' \<and> tc_stream s' = tc_stream s"
proof (cases x)
  case Writable
  then show ?thesis using writable_ok [OF inv] by simp
next
  case (Readable bs)
  with ok have bs: "bs \<noteq> []" by simp
  obtain b where rd: "readFd (\<lambda>_. ReadOk bs) (tc_input s) = Inr (int (length bs), None, b)" "buf_inv b" "content b = bs"
    using read_into_empty [OF inv, of bs] ok Readable by auto
  note m = message_ok [OF inv bs(1) rd]
  show ?thesis using Readable m(1) [of DiscardServer] m(2) [of "tc_log s @ [LMessage]"]
    by (simp add: call_message_def DiscardServer_def DiscardServer_onMessage_def Let_def tc_stream_def)
qed

interpretation echo: byte_stream "io_step kw EchoServer" "echo_ok kw" "io_inv kw" tc_stream echo_effect for kw
  by unfold_locales (rule echo_step)

interpretation discard: byte_stream "io_step kw DiscardServer" discard_ok "io_inv kw" tc_stream "\<lambda>_ out. out" for kw
  by unfold_locales (rule discard_step)

section \<open>Properties\<close>

fun received :: "io_event list \<Rightarrow> byte list" where
  "received [] = []"
| "received (Readable bs # es) = bs @ received es"
| "received (Writable # es) = received es"

lemma fold_echo: "fold echo_effect es out = out @ received es"
  by (induction es arbitrary: out rule: received.induct) auto



end
