(* ===== verification/Curl.thy ===== *)
theory Curl
  imports EventLoop
begin

text \<open>
  \<^verbatim>\<open>curl::Request\<close> and \<^verbatim>\<open>curl::Curl\<close> (\<^verbatim>\<open>src/example/curl/Curl.h\<close>, \<^verbatim>\<open>src/example/curl/Curl.cc\<close>): the glue between libcurl's
  multi interface and the event loop. libcurl itself is outside: its calls of the socket, timer and
  data callbacks are the input, with the handles and descriptors it passes; the table that
  \<^verbatim>\<open>curl_multi_assign\<close> keeps is a field. An easy handle is a number and stands for the request stored with
  \<^verbatim>\<open>CURLOPT_PRIVATE\<close>. The channels live on the reactor of theory \<open>PollPoller\<close>.
\<close>

section \<open>Requests\<close>

datatype rq_call = DataCb string | HeaderCb string | DoneCb int

record Request =
  rq_url :: string
  rq_channel :: "chan option"
  rq_noBody :: bool
  rq_rangeOpt :: "string option"
  rq_hasData :: bool
  rq_hasHeader :: bool
  rq_hasDone :: bool

record Curl =
  cu_rx :: Reactor
  cu_requests :: "nat \<Rightarrow> Request option"
  cu_socketp :: "int \<Rightarrow> chan option"
  cu_kept :: "chan list"
  cu_timers :: "int list"
  cu_running :: int
  cu_prevRunning :: int
  cu_calls :: "(nat \<times> rq_call) list"

definition Curl_new :: "Reactor \<Rightarrow> Curl" where
  "Curl_new rx = \<lparr>cu_rx = rx, cu_requests = Map.empty, cu_socketp = Map.empty, cu_kept = [], cu_timers = [],
     cu_running = 0, cu_prevRunning = 0, cu_calls = []\<rparr>"

definition Request_new :: "string \<Rightarrow> Request" where
  "Request_new url = \<lparr>rq_url = url, rq_channel = None, rq_noBody = False, rq_rangeOpt = None,
     rq_hasData = False, rq_hasHeader = False, rq_hasDone = False\<rparr>"

text \<open>\<^verbatim>\<open>getUrl\<close>: a request with the new easy handle \<open>h\<close>, or the abort of \<^verbatim>\<open>CHECK_NOTNULL\<close>.\<close>

definition getUrl :: "nat option \<Rightarrow> string \<Rightarrow> Curl \<Rightarrow> Curl res" where
  "getUrl easy url s =
     (case easy of None \<Rightarrow> Inl (Fatal ''curl_easy_init()'')
      | Some h \<Rightarrow> Inr (s\<lparr>cu_requests := (cu_requests s)(h \<mapsto> Request_new url)\<rparr>))"

definition on_request :: "nat \<Rightarrow> (Request \<Rightarrow> Request) \<Rightarrow> Curl \<Rightarrow> Curl" where
  "on_request h f s = s\<lparr>cu_requests := (cu_requests s)(h := map_option f (cu_requests s h))\<rparr>"

definition headerOnly :: "nat \<Rightarrow> Curl \<Rightarrow> Curl" where
  "headerOnly h = on_request h (\<lambda>r. r\<lparr>rq_noBody := True\<rparr>)"

definition setRange :: "nat \<Rightarrow> string \<Rightarrow> Curl \<Rightarrow> Curl" where
  "setRange h rangeOpt = on_request h (\<lambda>r. r\<lparr>rq_rangeOpt := Some rangeOpt\<rparr>)"

definition setDataCallback :: "nat \<Rightarrow> Curl \<Rightarrow> Curl" where
  "setDataCallback h = on_request h (\<lambda>r. r\<lparr>rq_hasData := True\<rparr>)"

definition setDoneCallback :: "nat \<Rightarrow> Curl \<Rightarrow> Curl" where
  "setDoneCallback h = on_request h (\<lambda>r. r\<lparr>rq_hasDone := True\<rparr>)"

definition setHeaderCallback :: "nat \<Rightarrow> Curl \<Rightarrow> Curl" where
  "setHeaderCallback h = on_request h (\<lambda>r. r\<lparr>rq_hasHeader := True\<rparr>)"

text \<open>The destructor, before \<^verbatim>\<open>curl_multi_remove_handle\<close>.\<close>

definition Request_dtor :: "nat \<Rightarrow> Curl \<Rightarrow> Curl res" where
  "Request_dtor h s =
     (case cu_requests s h of None \<Rightarrow> Inl OutOfBounds
      | Some req \<Rightarrow>
          bindR (assertR (case rq_channel req of None \<Rightarrow> True | Some c \<Rightarrow> isNoneEvent (heap (cu_rx s) c))
                   ''!channel_ || channel_->isNoneEvent()'') (\<lambda>_.
          Inr (s\<lparr>cu_requests := (cu_requests s)(h := None)\<rparr>)))"

text \<open>The channel made by \<^verbatim>\<open>setChannel\<close> is a new object at the address \<open>c\<close>.\<close>

definition setChannel :: "chan \<Rightarrow> int \<Rightarrow> nat \<Rightarrow> Request \<Rightarrow> Curl \<Rightarrow> Curl res" where
  "setChannel c fd h req s =
     bindR (assertR (rq_channel req = None) ''channel_.get() == NULL'') (\<lambda>_.
     let rx = cu_rx s;
         rx1 = rx\<lparr>heap := (heap rx)(c := Channel_tie h (Channel_new (rx_loop rx) fd))\<rparr> in
     Inr (s\<lparr>cu_rx := rx1, cu_requests := (cu_requests s)(h \<mapsto> req\<lparr>rq_channel := Some c\<rparr>)\<rparr>))"

text \<open>\<^verbatim>\<open>removeChannel\<close>: the functor queued with the channel keeps the object until the loop runs it.\<close>

definition Request_removeChannel :: "nat \<Rightarrow> Request \<Rightarrow> Curl \<Rightarrow> Curl res" where
  "Request_removeChannel h req s =
     (case rq_channel req of None \<Rightarrow> Inl OutOfBounds
      | Some c \<Rightarrow>
          bindR (Channel_mask DisableAll c (cu_rx s)) (\<lambda>rx.
          bindR (Channel_remove c rx) (\<lambda>rx.
          Inr (s\<lparr>cu_rx := rx, cu_kept := cu_kept s @ [c],
                 cu_requests := (cu_requests s)(h \<mapsto> req\<lparr>rq_channel := None\<rparr>)\<rparr>))))"

definition emit :: "nat \<Rightarrow> rq_call \<Rightarrow> Curl \<Rightarrow> Curl" where
  "emit h call s = s\<lparr>cu_calls := cu_calls s @ [(h, call)]\<rparr>"

definition Request_done :: "nat \<Rightarrow> Request \<Rightarrow> int \<Rightarrow> Curl \<Rightarrow> Curl" where
  "Request_done h req code s = (if rq_hasDone req then emit h (DoneCb code) s else s)"

definition dataCallback :: "nat \<Rightarrow> Request \<Rightarrow> string \<Rightarrow> Curl \<Rightarrow> Curl" where
  "dataCallback h req buffer s = (if rq_hasData req then emit h (DataCb buffer) s else s)"

definition headerCallback :: "nat \<Rightarrow> Request \<Rightarrow> string \<Rightarrow> Curl \<Rightarrow> Curl" where
  "headerCallback h req buffer s = (if rq_hasHeader req then emit h (HeaderCb buffer) s else s)"

text \<open>The functions libcurl calls with data; they report all of it as taken.\<close>

definition writeData :: "string \<Rightarrow> nat \<Rightarrow> nat \<Rightarrow> nat \<Rightarrow> Request \<Rightarrow> Curl \<Rightarrow> (nat \<times> Curl) res" where
  "writeData buffer sz nmemb h req s =
     bindR (assertR (sz = 1) ''size == 1'') (\<lambda>_.
     bindR (mem_read 0 nmemb buffer) (\<lambda>bs. Inr (nmemb, dataCallback h req bs s)))"

definition headerData :: "string \<Rightarrow> nat \<Rightarrow> nat \<Rightarrow> nat \<Rightarrow> Request \<Rightarrow> Curl \<Rightarrow> (nat \<times> Curl) res" where
  "headerData buffer sz nmemb h req s =
     bindR (assertR (sz = 1) ''size == 1'') (\<lambda>_.
     bindR (mem_read 0 nmemb buffer) (\<lambda>bs. Inr (nmemb, headerCallback h req bs s)))"

section \<open>The callbacks of the multi handle\<close>

datatype poll_what = POLL_NONE | POLL_IN | POLL_OUT | POLL_INOUT | POLL_REMOVE

fun wants_out :: "poll_what \<Rightarrow> bool" where
  "wants_out POLL_OUT \<longleftrightarrow> True"
| "wants_out POLL_INOUT \<longleftrightarrow> True"
| "wants_out _ \<longleftrightarrow> False"

text \<open>The channel of a descriptor: the one \<^verbatim>\<open>socketp\<close> points to, or a new one that is read from the start.
  \<open>newc\<close> is the address of the channel that the call makes when it makes one; \<^verbatim>\<open>socketp\<close> is what was
  assigned to the descriptor.\<close>

definition socket_channel :: "chan \<Rightarrow> int \<Rightarrow> nat \<Rightarrow> Request \<Rightarrow> Curl \<Rightarrow> (chan \<times> Curl) res" where
  "socket_channel newc fd h req s =
     (case cu_socketp s fd of
        Some c \<Rightarrow> Inr (c, s)
      | None \<Rightarrow>
          bindR (setChannel newc fd h req s) (\<lambda>s1.
          bindR (Channel_mask EnableReading newc (cu_rx s1)) (\<lambda>rx.
          Inr (newc, s1\<lparr>cu_rx := rx, cu_socketp := (cu_socketp s1)(fd \<mapsto> newc)\<rparr>))))"

definition socketCallback :: "chan \<Rightarrow> nat \<Rightarrow> int \<Rightarrow> poll_what \<Rightarrow> Curl \<Rightarrow> Curl res" where
  "socketCallback newc h fd what s =
     (case cu_requests s h of None \<Rightarrow> Inl OutOfBounds
      | Some req \<Rightarrow>
          if what = POLL_REMOVE then
            bindR (assertR (rq_channel req = cu_socketp s fd) ''req->getChannel() == ch'') (\<lambda>_.
            bindR (Request_removeChannel h req s) (\<lambda>s1.
            Inr (s1\<lparr>cu_socketp := (cu_socketp s1)(fd := None)\<rparr>)))
          else
            bindR (socket_channel newc fd h req s) (\<lambda>(ch, s1).
            bindR (assertR (map_option rq_channel (cu_requests s1 h) = Some (Some ch)) ''req->getChannel() == ch'') (\<lambda>_.
            bindR (Channel_mask (if wants_out what then EnableWriting else DisableWriting) ch (cu_rx s1)) (\<lambda>rx.
            Inr (s1\<lparr>cu_rx := rx\<rparr>)))))"

definition timerCallback :: "int \<Rightarrow> Curl \<Rightarrow> Curl" where
  "timerCallback ms s = s\<lparr>cu_timers := cu_timers s @ [wrap_s 32 ms]\<rparr>"

text \<open>The loop of \<^verbatim>\<open>onTimer\<close>, \<^verbatim>\<open>onRead\<close> and \<^verbatim>\<open>onWrite\<close>. \<open>act k\<close> is the \<open>k\<close>-th call of \<^verbatim>\<open>curl_multi_socket_action\<close>, with all
  callbacks it makes; it tells whether it returned \<^verbatim>\<open>CURLM_CALL_MULTI_PERFORM\<close>. Nothing bounds the loop.\<close>

partial_function (option) perform :: "(nat \<Rightarrow> Curl \<Rightarrow> (bool \<times> Curl) res) \<Rightarrow> nat \<Rightarrow> Curl \<Rightarrow> Curl res option" where
  "perform act k s =
     (case act k s of
        Inl e \<Rightarrow> Some (Inl e)
      | Inr (again, s1) \<Rightarrow> if again then perform act (k + 1) s1 else Some (Inr s1))"

text \<open>\<^verbatim>\<open>checkFinish\<close>. A message is a handle with a result, or \<open>None\<close> when it is not \<^verbatim>\<open>CURLMSG_DONE\<close>.\<close>

fun read_msgs :: "(nat \<times> int) option list \<Rightarrow> Curl \<Rightarrow> Curl res" where
  "read_msgs [] s = Inr s"
| "read_msgs (None # ms) s = read_msgs ms s"
| "read_msgs (Some (h, r) # ms) s =
     (case cu_requests s h of None \<Rightarrow> Inl OutOfBounds
      | Some req \<Rightarrow> read_msgs ms (Request_done h req r s))"

definition checkFinish :: "(nat \<times> int) option list \<Rightarrow> Curl \<Rightarrow> Curl res" where
  "checkFinish msgs s =
     bindR (if cu_prevRunning s > cu_running s \<or> cu_running s = 0 then read_msgs msgs s else Inr s) (\<lambda>s1.
     Inr (s1\<lparr>cu_prevRunning := cu_running s1\<rparr>))"

definition on_activity :: "(nat \<Rightarrow> Curl \<Rightarrow> (bool \<times> Curl) res) \<Rightarrow> (nat \<times> int) option list \<Rightarrow> Curl \<Rightarrow> Curl res option" where
  "on_activity act msgs s = map_option (\<lambda>r. bindR r (checkFinish msgs)) (perform act 0 s)"

section \<open>Invariant\<close>

definition owner :: "Curl \<Rightarrow> nat \<Rightarrow> chan \<Rightarrow> bool" where
  "owner s h c \<longleftrightarrow> (\<exists>req. cu_requests s h = Some req \<and> rq_channel req = Some c)"

definition watched :: "Curl \<Rightarrow> chan \<Rightarrow> bool" where
  "watched s c \<longleftrightarrow> registered (cu_rx s) c \<and> on_loop (cu_rx s) c \<and> has_ev (ch_events (heap (cu_rx s) c)) kReadEvent \<and>
     cu_socketp s (ch_fd (heap (cu_rx s) c)) = Some c"

definition cu_inv :: "Curl \<Rightarrow> bool" where
  "cu_inv s \<longleftrightarrow> poller_inv (cu_rx s) \<and> (\<forall>h c. owner s h c \<longrightarrow> watched s c) \<and>
     (\<forall>h1 h2 c. owner s h1 c \<longrightarrow> owner s h2 c \<longrightarrow> h1 = h2) \<and>
     (\<forall>fd c. cu_socketp s fd = Some c \<longrightarrow> ch_fd (heap (cu_rx s) c) = fd \<and> (\<exists>h. owner s h c))"

text \<open>What libcurl promises of a call of the socket callback: it comes with a live handle; a removal is of
  the socket of that handle; a known socket is still the handle's; a new socket is given to a handle
  that has none, with a descriptor the poller does not know. A channel is not removed while it waits
  in the list of active channels.\<close>

definition new_rx :: "chan \<Rightarrow> nat \<Rightarrow> int \<Rightarrow> Curl \<Rightarrow> Reactor" where
  "new_rx newc h fd s = (cu_rx s)\<lparr>heap := (heap (cu_rx s))(newc := Channel_tie h (Channel_new (rx_loop (cu_rx s)) fd))\<rparr>"

definition cb_ok :: "chan \<Rightarrow> nat \<Rightarrow> int \<Rightarrow> poll_what \<Rightarrow> Curl \<Rightarrow> bool" where
  "cb_ok newc h fd what s \<longleftrightarrow>
     (if what = POLL_REMOVE then
        \<exists>c. owner s h c \<and> cu_socketp s fd = Some c \<and>
          (rx_eventHandling (cu_rx s) \<longrightarrow> rx_current (cu_rx s) = Some c \<or> c \<notin> set (rx_active (cu_rx s)))
      else
        case cu_socketp s fd of
          Some c \<Rightarrow> owner s h c
        | None \<Rightarrow> (\<exists>req. cu_requests s h = Some req \<and> rq_channel req = None) \<and> (\<forall>h'. \<not> owner s h' newc) \<and>
            poller_inv (new_rx newc h fd s) \<and> fresh (new_rx newc h fd s) newc \<and> on_loop (new_rx newc h fd s) newc)"

lemma cu_invD:
  assumes "cu_inv s"
  shows "poller_inv (cu_rx s)" "owner s h c \<Longrightarrow> watched s c" "owner s h1 c \<Longrightarrow> owner s h2 c \<Longrightarrow> h1 = h2"
    "cu_socketp s fd = Some c \<Longrightarrow> ch_fd (heap (cu_rx s) c) = fd \<and> (\<exists>h. owner s h c)"
  using assms unfolding cu_inv_def by blast+

lemma owner_rx [simp]: "owner (s\<lparr>cu_rx := rx\<rparr>) h c = owner s h c"
  by (simp add: owner_def)

text \<open>The last statement of the callback, on a channel that is registered already.\<close>

lemma write_mask_ok:
  assumes inv: "cu_inv s" and o: "owner s h c"
  shows "\<exists>rx. Channel_mask (if w then EnableWriting else DisableWriting) c (cu_rx s) = Inr rx \<and> cu_inv (s\<lparr>cu_rx := rx\<rparr>) \<and>
     (isWriting (heap rx c) \<longleftrightarrow> w) \<and> ch_fd (heap rx c) = ch_fd (heap (cu_rx s) c)"
proof -
  let ?m = "if w then EnableWriting else DisableWriting"
  have w: "watched s c" and p: "poller_inv (cu_rx s)" using cu_invD [OF inv] o by blast+
  then obtain rx where rx: "Channel_mask ?m c (cu_rx s) = Inr rx" "poller_inv rx" "heap rx = heap (masked ?m c (cu_rx s))"
    "channels rx = channels (cu_rx s)" "PollPoller.PollPoller.more rx = PollPoller.PollPoller.more (cu_rx s)"
    using Channel_mask_registered [OF p, of c ?m] by (auto simp: watched_def)
  have fd: "ch_fd (heap rx d) = ch_fd (heap (cu_rx s) d)" "ch_loop (heap rx d) = ch_loop (heap (cu_rx s) d)" for d
    using rx(3) by simp_all
  have ev: "has_ev (ch_events (heap rx d)) kReadEvent = has_ev (ch_events (heap (cu_rx s) d)) kReadEvent" for d
    unfolding rx(3) by (simp del: mask_of.simps)
  have reg: "registered rx d = registered (cu_rx s) d" for d by (simp add: registered_def fd rx(4))
  have "watched (s\<lparr>cu_rx := rx\<rparr>) d = watched s d" for d
    using on_loop_frame [OF rx(5), of d] fd by (simp add: watched_def reg ev)
  then have "cu_inv (s\<lparr>cu_rx := rx\<rparr>)" using inv rx(2) fd by (simp add: cu_inv_def)
  moreover have "isWriting (heap rx c) \<longleftrightarrow> w" unfolding rx(3) isWriting_def by (simp del: mask_of.simps)
  ultimately show ?thesis using rx(1) fd by blast
qed

lemma new_socket_ok:
  assumes inv: "cu_inv s" and n: "cu_socketp s fd = None" and req: "cu_requests s h = Some req" "rq_channel req = None"
    and free: "\<forall>h'. \<not> owner s h' newc"
    and new: "poller_inv (new_rx newc h fd s)" "fresh (new_rx newc h fd s) newc" "on_loop (new_rx newc h fd s) newc"
  shows "\<exists>rx s1. setChannel newc fd h req s = Inr s1 \<and> Channel_mask EnableReading newc (cu_rx s1) = Inr rx \<and>
    cu_inv (s1\<lparr>cu_rx := rx, cu_socketp := (cu_socketp s1)(fd \<mapsto> newc)\<rparr>) \<and>
    owner (s1\<lparr>cu_rx := rx, cu_socketp := (cu_socketp s1)(fd \<mapsto> newc)\<rparr>) h newc"
proof -
  let ?rx = "new_rx newc h fd s"
  let ?s1 = "s\<lparr>cu_rx := ?rx, cu_requests := (cu_requests s)(h \<mapsto> req\<lparr>rq_channel := Some newc\<rparr>)\<rparr>"
  have s1: "setChannel newc fd h req s = Inr ?s1" using req(2) by (simp add: setChannel_def new_rx_def Let_def)
  have hn: "ch_fd (heap ?rx newc) = fd" by (simp add: new_rx_def Channel_tie_def Channel_new_def)
  have ho: "heap ?rx d = heap (cu_rx s) d" if "d \<noteq> newc" for d using that by (simp add: new_rx_def)
  have cr: "channels ?rx = channels (cu_rx s)" "PollPoller.PollPoller.more ?rx = PollPoller.PollPoller.more (cu_rx s)"
    by (simp_all add: new_rx_def)
  obtain rx where rx: "Channel_mask EnableReading newc ?rx = Inr rx" "poller_inv rx" "registered rx newc" "on_loop rx newc"
    "ch_events (heap rx newc) = mask_of EnableReading (ch_events (heap ?rx newc))" "ch_fd (heap rx newc) = fd"
    "\<forall>d. d \<noteq> newc \<longrightarrow> heap rx d = heap ?rx d" "channels rx = (channels ?rx)(fd \<mapsto> newc)"
    "PollPoller.PollPoller.more rx = PollPoller.PollPoller.more ?rx"
    using Channel_mask_fresh [OF new(1,3,2), of EnableReading] unfolding hn by blast
  let ?t = "?s1\<lparr>cu_rx := rx, cu_socketp := (cu_socketp s)(fd \<mapsto> newc)\<rparr>"
  have fr: "channels (cu_rx s) fd = None" using new(2) hn by (simp add: fresh_def cr)
  have ow: "owner ?t h' c \<longleftrightarrow> (if h' = h then c = newc else owner s h' c)" for h' c by (auto simp: owner_def)
  have "watched ?t newc" using rx(3-6) by (simp add: watched_def del: mask_of.simps)
  moreover have "watched ?t c" if o: "owner s h' c" for h' c
  proof -
    have ne: "c \<noteq> newc" using o free by blast
    have w: "watched s c" using cu_invD(2) [OF inv o] .
    have hc: "heap rx c = heap (cu_rx s) c" using ne rx(7) ho by simp
    have "ch_fd (heap (cu_rx s) c) \<noteq> fd" using w fr by (auto simp: watched_def registered_def)
    then show ?thesis using w hc on_loop_frame [of rx "cu_rx s" c] rx(8,9) cr by (simp add: watched_def registered_def)
  qed
  moreover have "ch_fd (heap rx c) = fd' \<and> (\<exists>h. owner ?t h c)" if p: "cu_socketp ?t fd' = Some c" for fd' c
  proof (cases "fd' = fd")
    case True
    then show ?thesis using p rx(6) ow [of h newc] by auto
  next
    case False
    then have "cu_socketp s fd' = Some c" using p by simp
    then obtain h' where h': "ch_fd (heap (cu_rx s) c) = fd'" "owner s h' c" using cu_invD(4) [OF inv] by blast
    then have "c \<noteq> newc" "h' \<noteq> h" using free req by (auto simp: owner_def)
    then show ?thesis using h' rx(7) ho ow [of h' c] by auto
  qed
  ultimately have "cu_inv ?t" unfolding cu_inv_def using rx(2) ow free cu_invD(3) [OF inv] by (auto split: if_splits)
  then show ?thesis using s1 rx(1) ow [of h newc] by (intro exI [of _ rx] exI [of _ ?s1]) simp
qed

lemma remove_socket_ok:
  assumes inv: "cu_inv s" and req: "cu_requests s h = Some req" "rq_channel req = Some c" and sp: "cu_socketp s fd = Some c"
    and act: "rx_eventHandling (cu_rx s) \<longrightarrow> rx_current (cu_rx s) = Some c \<or> c \<notin> set (rx_active (cu_rx s))"
  shows "\<exists>s1. Request_removeChannel h req s = Inr s1 \<and> cu_socketp s1 = cu_socketp s \<and> cu_inv (s1\<lparr>cu_socketp := (cu_socketp s)(fd := None)\<rparr>) \<and>
    channels (cu_rx s1) fd = None \<and> (\<forall>d. \<not> owner s1 h d)"
proof -
  have o: "owner s h c" using req by (simp add: owner_def)
  have w: "watched s c" and p: "poller_inv (cu_rx s)" and fd: "ch_fd (heap (cu_rx s) c) = fd"
    using cu_invD [OF inv] o sp by blast+
  have r: "registered (cu_rx s) c" "on_loop (cu_rx s) c" using w by (simp_all add: watched_def)
  obtain rx where rx: "Channel_mask DisableAll c (cu_rx s) = Inr rx" "poller_inv rx" "registered rx c" "on_loop rx c"
    "heap rx = heap (masked DisableAll c (cu_rx s))" "channels rx = channels (cu_rx s)"
    "PollPoller.PollPoller.more rx = PollPoller.PollPoller.more (cu_rx s)" "pfd_fd (entry_of rx c) = - fd - 1"
    using Channel_mask_registered [OF p r(2,1), of DisableAll] fd by auto
  have "0 \<le> fd" using structD(1) [of "cu_rx s" fd c] p r(1) fd by (simp add: poller_inv_def registered_def)
  then have idle: "isNoneEvent (heap rx c)" "pfd_fd (entry_of rx c) < 0" using rx(5,8) by (simp_all add: isNoneEvent_def)
  have "rx_eventHandling rx \<longrightarrow> rx_current rx = Some c \<or> c \<notin> set (rx_active rx)" using act reactor_fields [OF rx(7)] by simp
  then obtain ry where ry: "Channel_remove c rx = Inr ry" "poller_inv ry" "channels ry = (channels rx)(ch_fd (heap rx c) := None)"
    "\<forall>d. d \<noteq> c \<longrightarrow> registered rx d \<longrightarrow> registered ry d \<and> entry_of ry d = entry_of rx d"
    "\<forall>d. \<exists>k. heap ry d = (heap rx d)\<lparr>ch_index := k\<rparr>" "PollPoller.PollPoller.more ry = PollPoller.PollPoller.more rx"
    using Channel_remove_ok [OF rx(2,4,3) idle] by blast
  have hp: "ch_fd (heap ry d) = ch_fd (heap (cu_rx s) d)" "ch_loop (heap ry d) = ch_loop (heap (cu_rx s) d)"
    "d \<noteq> c \<Longrightarrow> ch_events (heap ry d) = ch_events (heap (cu_rx s) d)" for d
  proof -
    obtain k where "heap ry d = (heap rx d)\<lparr>ch_index := k\<rparr>" using ry(5) by blast
    then show "ch_fd (heap ry d) = ch_fd (heap (cu_rx s) d)" "ch_loop (heap ry d) = ch_loop (heap (cu_rx s) d)"
      "d \<noteq> c \<Longrightarrow> ch_events (heap ry d) = ch_events (heap (cu_rx s) d)" using rx(5) by simp_all
  qed
  let ?s1 = "s\<lparr>cu_rx := ry, cu_kept := cu_kept s @ [c], cu_requests := (cu_requests s)(h \<mapsto> req\<lparr>rq_channel := None\<rparr>)\<rparr>"
  let ?t = "?s1\<lparr>cu_socketp := (cu_socketp s)(fd := None)\<rparr>"
  have ow: "owner ?t h' d \<longleftrightarrow> h' \<noteq> h \<and> owner s h' d" for h' d by (auto simp: owner_def)
  have ne: "d \<noteq> c" "ch_fd (heap (cu_rx s) d) \<noteq> fd" if o': "owner s h' d" "h' \<noteq> h" for h' d
  proof -
    show d: "d \<noteq> c" using o' cu_invD(3) [OF inv _ o] by blast
    have "registered (cu_rx s) d" using cu_invD(2) [OF inv o'(1)] by (simp add: watched_def)
    then show "ch_fd (heap (cu_rx s) d) \<noteq> fd" using d r(1) fd by (auto simp: registered_def)
  qed
  have "watched ?t d" if o': "owner s h' d" "h' \<noteq> h" for h' d
  proof -
    have "watched s d" using cu_invD(2) [OF inv o'(1)] .
    moreover have "registered rx d = registered (cu_rx s) d" using rx(5,6) by (simp add: registered_def)
    ultimately show ?thesis using ne [OF o'] ry(4) hp on_loop_frame [of ry "cu_rx s" d] ry(6) rx(7)
      by (auto simp: watched_def)
  qed
  moreover have "ch_fd (heap ry d) = fd' \<and> (\<exists>h. owner ?t h d)" if p: "cu_socketp ?t fd' = Some d" for fd' d
  proof -
    have q: "fd' \<noteq> fd" "cu_socketp s fd' = Some d" using p by (auto split: if_splits)
    then obtain h' where "ch_fd (heap (cu_rx s) d) = fd'" "owner s h' d" using cu_invD(4) [OF inv] by blast
    moreover from this have "h' \<noteq> h" using q(1) fd req by (auto simp: owner_def)
    ultimately show ?thesis using hp ow by auto
  qed
  ultimately have "cu_inv ?t" unfolding cu_inv_def using ry(2) ow cu_invD(3) [OF inv] by auto
  moreover have "Request_removeChannel h req s = Inr ?s1" using req rx(1) ry(1) by (simp add: Request_removeChannel_def)
  moreover have "channels ry fd = None" using ry(3) rx(5) fd by simp
  ultimately show ?thesis by (intro exI [of _ ?s1]) (simp add: owner_def)
qed

lemma socketCallback_ok:
  assumes inv: "cu_inv s" and ok: "cb_ok newc h fd what s"
  shows "\<exists>s'. socketCallback newc h fd what s = Inr s' \<and> cu_inv s' \<and>
     (if what = POLL_REMOVE then cu_socketp s' fd = None \<and> channels (cu_rx s') fd = None \<and> (\<forall>c. \<not> owner s' h c)
      else \<exists>c. cu_socketp s' fd = Some c \<and> owner s' h c \<and> (isWriting (heap (cu_rx s') c) \<longleftrightarrow> wants_out what))"
proof (cases "what = POLL_REMOVE")
  case True
  then obtain c req where c: "cu_requests s h = Some req" "rq_channel req = Some c" "cu_socketp s fd = Some c"
    "rx_eventHandling (cu_rx s) \<longrightarrow> rx_current (cu_rx s) = Some c \<or> c \<notin> set (rx_active (cu_rx s))"
    using ok by (auto simp: cb_ok_def owner_def)
  from remove_socket_ok [OF inv this] obtain s1 where "Request_removeChannel h req s = Inr s1" "cu_socketp s1 = cu_socketp s"
    "cu_inv (s1\<lparr>cu_socketp := (cu_socketp s)(fd := None)\<rparr>)" "channels (cu_rx s1) fd = None" "\<forall>d. \<not> owner s1 h d" by blast
  then show ?thesis using True c by (simp add: socketCallback_def owner_def)
next
  case False
  have "\<exists>c s1 req. cu_requests s h = Some req \<and> (socket_channel newc fd h req s) = Inr (c, s1) \<and>
      cu_inv s1 \<and> owner s1 h c \<and> cu_socketp s1 fd = Some c"
  proof (cases "cu_socketp s fd")
    case (Some c)
    then show ?thesis using ok False inv by (auto simp: cb_ok_def owner_def socket_channel_def)
  next
    case None
    then obtain req where req: "cu_requests s h = Some req" "rq_channel req = None" "\<forall>h'. \<not> owner s h' newc"
      "poller_inv (new_rx newc h fd s)" "fresh (new_rx newc h fd s) newc" "on_loop (new_rx newc h fd s) newc"
      using ok False by (auto simp: cb_ok_def)
    from new_socket_ok [OF inv None this] req(1) None show ?thesis by (auto simp: socket_channel_def)
  qed
  then obtain c s1 req where s1: "cu_requests s h = Some req" "(socket_channel newc fd h req s) = Inr (c, s1)"
      "cu_inv s1" "owner s1 h c" "cu_socketp s1 fd = Some c" by blast
  obtain rx where rx: "Channel_mask (if wants_out what then EnableWriting else DisableWriting) c (cu_rx s1) = Inr rx"
    "cu_inv (s1\<lparr>cu_rx := rx\<rparr>)" "isWriting (heap rx c) \<longleftrightarrow> wants_out what"
    using write_mask_ok [OF s1(3,4)] by blast
  have "map_option rq_channel (cu_requests s1 h) = Some (Some c)" using s1(4) by (auto simp: owner_def)
  then have "socketCallback newc h fd what s = Inr (s1\<lparr>cu_rx := rx\<rparr>)"
    unfolding socketCallback_def using False s1(1,2) rx(1) by simp
  then show ?thesis using False rx s1(4,5) by auto
qed

section \<open>Steps\<close>

text \<open>What happens to the object in a run. The rest of the program may change the reactor, but not the
  channels of the requests.\<close>

inductive cu_step :: "Curl \<Rightarrow> Curl \<Rightarrow> bool" where
  cu_socket: "cb_ok newc h fd what s \<Longrightarrow> socketCallback newc h fd what s = Inr s' \<Longrightarrow> cu_step s s'"
| cu_get: "cu_requests s h = None \<Longrightarrow> getUrl (Some h) url s = Inr s' \<Longrightarrow> cu_step s s'"
| cu_option: "(\<And>r. rq_channel (f r) = rq_channel r) \<Longrightarrow> cu_step s (on_request h f s)"
| cu_dtor: "Request_dtor h s = Inr s' \<Longrightarrow> cu_step s s'"
| cu_data: "writeData buffer sz nmemb h req s = Inr (n, s') \<Longrightarrow> cu_step s s'"
| cu_header: "headerData buffer sz nmemb h req s = Inr (n, s') \<Longrightarrow> cu_step s s'"
| cu_timer: "cu_step s (timerCallback ms s)"
| cu_running: "cu_step s (s\<lparr>cu_running := n\<rparr>)"
| cu_finish: "checkFinish msgs s = Inr s' \<Longrightarrow> cu_step s s'"
| cu_others: "poller_inv rx \<Longrightarrow> (\<And>h c. owner s h c \<Longrightarrow> watched (s\<lparr>cu_rx := rx\<rparr>) c \<and> ch_fd (heap rx c) = ch_fd (heap (cu_rx s) c)) \<Longrightarrow>
    cu_step s (s\<lparr>cu_rx := rx\<rparr>)"

definition cu_init :: "Curl \<Rightarrow> bool" where
  "cu_init s \<longleftrightarrow> (\<exists>rx. poller_inv rx \<and> s = Curl_new rx)"

lemma cu_inv_frame:
  assumes "cu_inv s" "cu_rx s' = cu_rx s" "cu_socketp s' = cu_socketp s" "\<And>h c. owner s' h c \<longleftrightarrow> owner s h c"
  shows "cu_inv s'"
  using assms by (simp add: cu_inv_def watched_def)

lemma read_msgs_frame: "read_msgs msgs s = Inr s' \<Longrightarrow> \<exists>cs. s' = s\<lparr>cu_calls := cs\<rparr>"
proof (induction msgs s rule: read_msgs.induct)
  case (1 s)
  then show ?case by (intro exI [of _ "cu_calls s"]) simp
next
  case (3 h r ms s)
  then show ?case by (auto simp: Request_done_def emit_def split: option.splits if_splits)
qed simp

lemma checkFinish_frame:
  assumes "checkFinish msgs s = Inr s'"
  shows "\<exists>cs. s' = s\<lparr>cu_calls := cs, cu_prevRunning := cu_running s\<rparr>"
proof (cases "cu_prevRunning s > cu_running s \<or> cu_running s = 0")
  case True
  then obtain s1 where s1: "read_msgs msgs s = Inr s1" "s' = s1\<lparr>cu_prevRunning := cu_running s1\<rparr>"
    using assms by (auto simp: checkFinish_def bindR_eq_Inr)
  then obtain cs where "s1 = s\<lparr>cu_calls := cs\<rparr>" using read_msgs_frame by blast
  then show ?thesis using s1(2) by auto
next
  case False
  then have "s' = s\<lparr>cu_calls := cu_calls s, cu_prevRunning := cu_running s\<rparr>" using assms by (simp add: checkFinish_def)
  then show ?thesis by blast
qed

lemma dtor_inv:
  assumes inv: "cu_inv s" and r: "Request_dtor h s = Inr s'"
  shows "cu_inv s'"
proof -
  obtain req where req: "cu_requests s h = Some req" "s' = s\<lparr>cu_requests := (cu_requests s)(h := None)\<rparr>"
    "case rq_channel req of None \<Rightarrow> True | Some c \<Rightarrow> isNoneEvent (heap (cu_rx s) c)"
    using r by (auto simp: Request_dtor_def split: option.splits if_splits)
  have "rq_channel req = None"
  proof (rule ccontr)
    assume "rq_channel req \<noteq> None"
    then obtain c where c: "rq_channel req = Some c" by blast
    then have "owner s h c" using req(1) by (simp add: owner_def)
    then have "watched s c" by (rule cu_invD(2) [OF inv])
    then show False using req(3) c by (simp add: watched_def isNoneEvent_def has_ev_def kNoneEvent_def)
  qed
  then have "owner s' h' c \<longleftrightarrow> owner s h' c" for h' c using req(1,2) by (auto simp: owner_def)
  then show ?thesis using cu_inv_frame [OF inv] req(2) by simp
qed

lemma cu_inv_step: "cu_inv s \<Longrightarrow> cu_step s s' \<Longrightarrow> cu_inv s'"
proof (erule cu_step.cases)
  fix newc h fd what t t' assume "cu_inv s" "s = t" "s' = t'" "cb_ok newc h fd what t" "socketCallback newc h fd what t = Inr t'"
  then show "cu_inv s'" using socketCallback_ok [of t newc h fd what] by auto
next
  fix t h url t' assume a: "cu_inv s" "s = t" "s' = t'" "cu_requests t h = None" "getUrl (Some h) url t = Inr t'"
  have s': "s' = s\<lparr>cu_requests := (cu_requests s)(h \<mapsto> Request_new url)\<rparr>" using a by (simp add: getUrl_def)
  have "owner s' h' c \<longleftrightarrow> owner s h' c" for h' c
    using a(2,4) by (cases "h' = h") (simp_all add: s' owner_def Request_new_def)
  then show "cu_inv s'" using cu_inv_frame [OF a(1)] s' by simp
next
  fix f :: "Request \<Rightarrow> Request" and h t assume a: "cu_inv s" "s = t" "s' = on_request h f t" "\<And>r. rq_channel (f r) = rq_channel r"
  have "owner s' h' c \<longleftrightarrow> owner s h' c" for h' c
    using a(4) by (cases "h' = h"; cases "cu_requests t h") (simp_all add: a(2,3) owner_def on_request_def)
  then show "cu_inv s'" using cu_inv_frame [OF a(1)] a(2,3) by (simp add: on_request_def)
next
  fix h t t' assume "cu_inv s" "s = t" "s' = t'" "Request_dtor h t = Inr t'"
  then show "cu_inv s'" using dtor_inv by blast
next
  fix msgs t t' assume a: "cu_inv s" "s = t" "s' = t'" "checkFinish msgs t = Inr t'"
  obtain cs where "s' = s\<lparr>cu_calls := cs, cu_prevRunning := cu_running s\<rparr>" using checkFinish_frame a(2-4) by blast
  then show "cu_inv s'" using cu_inv_frame [OF a(1)] by (simp add: owner_def)
next
  fix rx t assume a: "cu_inv s" "s = t" "s' = t\<lparr>cu_rx := rx\<rparr>" "poller_inv rx"
    "\<And>h c. owner t h c \<Longrightarrow> watched (t\<lparr>cu_rx := rx\<rparr>) c \<and> ch_fd (heap rx c) = ch_fd (heap (cu_rx t) c)"
  then show "cu_inv s'" unfolding cu_inv_def by (auto; metis)
qed (auto intro!: cu_inv_frame [of s] simp: writeData_def headerData_def dataCallback_def headerCallback_def emit_def
    timerCallback_def owner_def bindR_eq_Inr split: if_splits)

lemma cu_inv_init: "cu_init s \<Longrightarrow> cu_inv s"
  by (auto simp: cu_init_def Curl_new_def cu_inv_def owner_def)

interpretation curl: transition_system cu_init cu_step cu_inv
  by unfold_locales (fact cu_inv_init, fact cu_inv_step)

section \<open>Completion\<close>

lemma perform_returns:
  assumes "\<And>i. i < n \<Longrightarrow> act (k + i) (f i) = Inr (True, f (Suc i))" "act (k + n) (f n) = Inr (False, t)"
  shows "perform act k (f 0) = Some (Inr t)"
  using assms
proof (induction n arbitrary: k f)
  case 0
  then show ?case by (subst perform.simps) simp
next
  case (Suc n)
  have "perform act (k + 1) (f (Suc 0)) = Some (Inr t)"
    by (rule Suc.IH [of "k + 1" "\<lambda>i. f (Suc i)"]) (use Suc.prems(1) [of "Suc _"] Suc.prems(2) in auto)
  moreover have "act k (f 0) = Inr (True, f (Suc 0))" using Suc.prems(1) [of 0] by simp
  ultimately show ?case by (subst perform.simps) simp
qed

fun done_calls :: "(nat \<times> int) option list \<Rightarrow> (nat \<times> rq_call) list" where
  "done_calls [] = []"
| "done_calls (None # ms) = done_calls ms"
| "done_calls (Some (h, r) # ms) = (h, DoneCb r) # done_calls ms"

lemma read_msgs_calls:
  assumes "\<And>h r. Some (h, r) \<in> set msgs \<Longrightarrow> \<exists>req. cu_requests s h = Some req \<and> rq_hasDone req"
  shows "read_msgs msgs s = Inr (s\<lparr>cu_calls := cu_calls s @ done_calls msgs\<rparr>)"
  using assms
proof (induction msgs s rule: read_msgs.induct)
  case (3 h r ms s)
  obtain req where req: "cu_requests s h = Some req" "rq_hasDone req" using "3.prems" [of h r] by auto
  have f: "Request_done h req r s = s\<lparr>cu_calls := cu_calls s @ [(h, DoneCb r)]\<rparr>" using req(2) by (simp add: Request_done_def emit_def)
  have "\<exists>q. cu_requests (Request_done h req r s) h' = Some q \<and> rq_hasDone q" if "Some (h', r') \<in> set ms" for h' r'
    unfolding f using "3.prems" [of h' r'] that by simp
  then have "read_msgs ms (Request_done h req r s) = Inr ((Request_done h req r s)\<lparr>cu_calls := cu_calls (Request_done h req r s) @ done_calls ms\<rparr>)"
    by (rule "3.IH" [OF req(1)])
  then show ?case using req(1) by (simp add: f)
qed simp_all

text \<open>The done callbacks of finished transfers run once each and in order, but only in a call that sees
  the number of running transfers drop or reach zero: a transfer that finishes while another one
  starts is not noticed.\<close>

theorem checkFinish_outcome:
  assumes "\<And>h r. Some (h, r) \<in> set msgs \<Longrightarrow> \<exists>req. cu_requests s h = Some req \<and> rq_hasDone req"
  shows "\<exists>s'. checkFinish msgs s = Inr s' \<and> cu_prevRunning s' = cu_running s \<and>
     cu_calls s' = (if cu_prevRunning s > cu_running s \<or> cu_running s = 0
                    then cu_calls s @ done_calls msgs else cu_calls s)"
  using read_msgs_calls [OF assms] by (simp add: checkFinish_def)

section \<open>Properties\<close>

text \<open>A second socket for a request that still has one aborts in \<^verbatim>\<open>setChannel\<close>, and so does the destruction of a
  request whose socket is watched.\<close>

theorem second_socket_aborts:
  assumes "owner s h c" "cu_socketp s fd = None" "what \<noteq> POLL_REMOVE"
  shows "socketCallback newc h fd what s = Inl (AssertFailed ''channel_.get() == NULL'')"
  using assms by (auto simp: socketCallback_def socket_channel_def setChannel_def owner_def)


text \<open>One request on the loop of the examples, whose socket libcurl wants to be written.\<close>

definition curl_example :: Curl where
  "curl_example = (Curl_new rx_example)\<lparr>cu_requests := [1 \<mapsto> Request_new ''u'']\<rparr>"


end
