(* ===== verification/Loop.thy ===== *)
theory Loop
  imports EventLoop
begin

text \<open>
  The \<^verbatim>\<open>EventLoop\<close> object as a whole (\<^verbatim>\<open>src/net/EventLoop.cc\<close>, \<^verbatim>\<open>src/net/TimerQueue.cc\<close>): its construction, the rounds of
  \<^verbatim>\<open>loop()\<close> over the poller of theory \<open>PollPoller\<close>, the channels of theory \<open>Channel\<close> and the timer
  queue of theory \<open>TimerQueue\<close>, and its destruction. Theory \<open>EventLoop\<close> treats the functor queue with the other
  threads at every point of a round; here the rounds are whole, the other threads act between
  them, and everything a round calls is there.

  The program that uses the loop is \<open>prog\<close>: for every callback (of a functor, a timer or
  a channel) the list of calls it makes on the loop, which may depend on the state.
  The answers of \<^verbatim>\<open>poll(2)\<close> and the clock readings of a round are a record \<open>env\<close>. The fields
  \<open>lp_handled\<close>, \<open>lp_queued\<close> and \<open>lp_ran\<close> are histories.
\<close>

section \<open>State\<close>

text \<open>\<^verbatim>\<open>addTimerInLoop\<close> and \<^verbatim>\<open>cancelInLoop\<close> are functors when another thread called \<^verbatim>\<open>addTimer\<close> and \<^verbatim>\<open>cancel\<close>.\<close>

datatype LFn = UserFn nat | AddTimerInLoop addr | CancelInLoop TimerId

record Loop = Reactor +
  lp_looping :: bool
  lp_quit :: bool
  lp_calling :: bool
  lp_iteration :: int
  lp_pollReturnTime :: Timestamp
  lp_tq :: TimerQueue
  lp_efd :: nat
  lp_pending :: "LFn list"
  lp_handled :: "chan list"
  lp_queued :: "LFn list"
  lp_ran :: "LFn list"

text \<open>The addresses of the two channels of the loop itself.\<close>

definition timer_chan :: chan where
  "timer_chan = 0"

definition wakeup_chan :: chan where
  "wakeup_chan = 1"

section \<open>Construction\<close>

definition createTimerfd :: "int \<Rightarrow> int res" where
  "createTimerfd r = (if r < 0 then Inl (Fatal ''Failed in timerfd_create'') else Inr r)"

definition createEventfd :: "int \<Rightarrow> int res" where
  "createEventfd r = (if r < 0 then Inl (Fatal ''Failed in eventfd'') else Inr r)"

definition put_channel :: "chan \<Rightarrow> Channel \<Rightarrow> 'z PollPoller_scheme \<Rightarrow> 'z PollPoller_scheme" where
  "put_channel c ch s = s\<lparr>heap := (heap s)(c := ch)\<rparr>"

definition TimerQueue_ctor :: "int \<Rightarrow> Loop \<Rightarrow> Loop res" where
  "TimerQueue_ctor r s =
     bindR (createTimerfd r) (\<lambda>timerfd.
     Channel_mask EnableReading timer_chan (put_channel timer_chan (Channel_new (rx_loop s) timerfd) (s\<lparr>lp_tq := TimerQueue_new\<rparr>)))"

definition Loop_fields :: "nat \<Rightarrow> nat \<Rightarrow> Loop" where
  "Loop_fields this tid =
     \<lparr>pollfds = [], channels = (\<lambda>_. None), heap = (\<lambda>_. Channel_new this (- 1)), rx_loop = this, rx_threadId = tid, rx_tid = tid,
      rx_eventHandling = False, rx_active = [], rx_current = None, lp_looping = False, lp_quit = False, lp_calling = False,
      lp_iteration = 0, lp_pollReturnTime = Timestamp_invalid, lp_tq = TimerQueue_new, lp_efd = 0, lp_pending = [],
      lp_handled = [], lp_queued = [], lp_ran = []\<rparr>"

text \<open>\<open>t_loop\<close> is \<^verbatim>\<open>t_loopInThisThread\<close>; \<open>r1\<close> and \<open>r2\<close> are what \<^verbatim>\<open>timerfd_create\<close> and \<^verbatim>\<open>eventfd\<close> return.\<close>

definition EventLoop_ctor :: "nat option \<Rightarrow> nat \<Rightarrow> nat \<Rightarrow> int \<Rightarrow> int \<Rightarrow> (Loop \<times> nat option) res" where
  "EventLoop_ctor t_loop this tid r1 r2 =
     bindR (TimerQueue_ctor r1 (Loop_fields this tid)) (\<lambda>s.
     bindR (createEventfd r2) (\<lambda>wakeupFd.
     let s1 = put_channel wakeup_chan (Channel_new this wakeupFd) s in
     bindR (case t_loop of
              Some _ \<Rightarrow> Inl (Fatal ''Another EventLoop exists in this thread'')
            | None \<Rightarrow> Inr (Some this)) (\<lambda>t_loop'.
     bindR (Channel_mask EnableReading wakeup_chan s1) (\<lambda>s2. Inr (s2, t_loop')))))"

section \<open>Members\<close>

definition Loop_wakeup :: "Loop \<Rightarrow> Loop" where
  "Loop_wakeup s = (if lp_efd s < 2 ^ 64 - 2 then s\<lparr>lp_efd := lp_efd s + 1\<rparr> else s)"

definition Loop_handleRead :: "Loop \<Rightarrow> Loop" where
  "Loop_handleRead s = s\<lparr>lp_efd := 0\<rparr>"

definition Loop_queueInLoop :: "bool \<Rightarrow> LFn \<Rightarrow> Loop \<Rightarrow> Loop" where
  "Loop_queueInLoop inLoopThread cb s =
     (let s1 = s\<lparr>lp_pending := lp_pending s @ [cb], lp_queued := lp_queued s @ [cb]\<rparr> in
      if \<not> inLoopThread \<or> lp_calling s1 then Loop_wakeup s1 else s1)"

definition Loop_quit :: "bool \<Rightarrow> Loop \<Rightarrow> Loop" where
  "Loop_quit inLoopThread s = (let s1 = s\<lparr>lp_quit := True\<rparr> in if \<not> inLoopThread then Loop_wakeup s1 else s1)"

text \<open>A call of the timer queue, in the loop thread.\<close>

definition on_tq :: "(TimerQueue \<Rightarrow> TimerQueue res) \<Rightarrow> Loop \<Rightarrow> Loop res" where
  "on_tq f s = bindR (assertInLoopThread s) (\<lambda>_. bindR (f (lp_tq s)) (\<lambda>q. Inr (s\<lparr>lp_tq := q\<rparr>)))"

text \<open>\<^verbatim>\<open>addTimer\<close> and \<^verbatim>\<open>cancel\<close> in another thread: the timer is allocated there and inserted by a functor.\<close>

definition other_addTimer :: "addr \<Rightarrow> nat \<Rightarrow> Timestamp \<Rightarrow> rat \<Rightarrow> Loop \<Rightarrow> Loop" where
  "other_addTimer a cb w interval s =
     Loop_queueInLoop False (AddTimerInLoop a) (s\<lparr>lp_tq := new_timer a cb w interval (lp_tq s)\<rparr>)"

definition other_cancel :: "TimerId \<Rightarrow> Loop \<Rightarrow> Loop" where
  "other_cancel i s = Loop_queueInLoop False (CancelInLoop i) s"

definition TimerQueue_addTimer :: "bool \<Rightarrow> Timestamp \<Rightarrow> addr \<Rightarrow> nat \<Rightarrow> Timestamp \<Rightarrow> rat \<Rightarrow> Loop \<Rightarrow> Loop res" where
  "TimerQueue_addTimer inLoopThread now a cb w interval s =
     (if inLoopThread then on_tq (do_call (CallAdd now a cb w interval)) s else Inr (other_addTimer a cb w interval s))"

definition EventLoop_cancel :: "bool \<Rightarrow> TimerId \<Rightarrow> Loop \<Rightarrow> Loop res" where
  "EventLoop_cancel inLoopThread i s = (if inLoopThread then on_tq (cancelInLoop i) s else Inr (other_cancel i s))"

section \<open>The calls of the program\<close>

datatype lp_call =
    LTimer tq_call
  | LQueue nat
  | LQuit
  | LNew chan int
  | LMask mask_op chan
  | LRemove chan

fun lp_do :: "lp_call \<Rightarrow> Loop \<Rightarrow> Loop res" where
  "lp_do (LTimer (CallAdd now a cb w interval)) s = TimerQueue_addTimer True now a cb w interval s"
| "lp_do (LTimer (CallCancel i)) s = EventLoop_cancel True i s"
| "lp_do (LQueue n) s = Inr (Loop_queueInLoop True (UserFn n) s)"
| "lp_do LQuit s = Inr (Loop_quit True s)"
| "lp_do (LNew c fd) s = Inr (put_channel c (Channel_new (rx_loop s) fd) s)"
| "lp_do (LMask m c) s = Channel_mask m c s"
| "lp_do (LRemove c) s = Channel_remove c s"

datatype task = OnFunctor nat | OnTimer nat | OnRead chan | OnWrite chan | OnClose chan | OnError chan

definition run_task :: "(task \<Rightarrow> Loop \<Rightarrow> lp_call list) \<Rightarrow> task \<Rightarrow> Loop \<Rightarrow> Loop res" where
  "run_task prog k s = foldR lp_do (prog k s) s"

section \<open>A round\<close>

record env =
  ev_kp :: "pollfd list \<Rightarrow> int \<times> 16 word list"
  ev_pollTime :: Timestamp
  ev_now :: Timestamp
  ev_now2 :: Timestamp
  ev_clock :: "addr \<Rightarrow> Timestamp"

text \<open>\<^verbatim>\<open>TimerQueue::handleRead\<close> with callbacks that may call any member of the loop.\<close>

definition run_expired :: "(task \<Rightarrow> Loop \<Rightarrow> lp_call list) \<Rightarrow> entry \<Rightarrow> Loop \<Rightarrow> Loop res" where
  "run_expired prog e s = bindR (deref (snd e) (lp_tq s)) (\<lambda>t. run_task prog (OnTimer (tm_callback t)) s)"

definition timer_handleRead :: "(rat \<Rightarrow> rat) \<Rightarrow> (task \<Rightarrow> Loop \<Rightarrow> lp_call list) \<Rightarrow> env \<Rightarrow> Loop \<Rightarrow> Loop res" where
  "timer_handleRead fl prog ev s =
     bindR (assertInLoopThread s) (\<lambda>_.
     bindR (getExpired (ev_now ev) (lp_tq s)) (\<lambda>(expired, q1).
     bindR (foldR (run_expired prog) expired (s\<lparr>lp_tq := q1\<lparr>callingExpiredTimers := True, cancelingTimers := {}\<rparr>\<rparr>)) (\<lambda>s2.
     on_tq (TimerQueue_reset fl expired (ev_now ev) (ev_now2 ev)) (s2\<lparr>lp_tq := (lp_tq s2)\<lparr>callingExpiredTimers := False\<rparr>\<rparr>))))"

definition loop_cbs :: "(rat \<Rightarrow> rat) \<Rightarrow> (task \<Rightarrow> Loop \<Rightarrow> lp_call list) \<Rightarrow> env \<Rightarrow> chan \<Rightarrow> Loop callbacks" where
  "loop_cbs fl prog ev c =
     (if c = timer_chan
      then \<lparr>cb_read = Some (\<lambda>_. timer_handleRead fl prog ev), cb_write = None, cb_close = None, cb_error = None\<rparr>
      else if c = wakeup_chan
      then \<lparr>cb_read = Some (\<lambda>_ s. Inr (Loop_handleRead s)), cb_write = None, cb_close = None, cb_error = None\<rparr>
      else \<lparr>cb_read = Some (\<lambda>_. run_task prog (OnRead c)), cb_write = Some (run_task prog (OnWrite c)),
            cb_close = Some (run_task prog (OnClose c)), cb_error = Some (run_task prog (OnError c))\<rparr>)"

definition dispatch ::
    "(rat \<Rightarrow> rat) \<Rightarrow> (task \<Rightarrow> Loop \<Rightarrow> lp_call list) \<Rightarrow> (nat \<Rightarrow> Loop \<Rightarrow> bool) \<Rightarrow> env \<Rightarrow> chan \<Rightarrow> Loop \<Rightarrow> Loop res" where
  "dispatch fl prog alive ev c s =
     handleEvent (\<lambda>s. heap s c) (put_channel c) alive (loop_cbs fl prog ev c) (lp_pollReturnTime s)
       (s\<lparr>rx_current := Some c, lp_handled := lp_handled s @ [c]\<rparr>)"

definition run_fn :: "(task \<Rightarrow> Loop \<Rightarrow> lp_call list) \<Rightarrow> env \<Rightarrow> LFn \<Rightarrow> Loop \<Rightarrow> Loop res" where
  "run_fn prog ev f s =
     (let s1 = s\<lparr>lp_ran := lp_ran s @ [f]\<rparr> in
      case f of
        UserFn n \<Rightarrow> run_task prog (OnFunctor n) s1
      | AddTimerInLoop a \<Rightarrow> on_tq (addTimerInLoop (ev_clock ev a) a) s1
      | CancelInLoop i \<Rightarrow> on_tq (cancelInLoop i) s1)"

definition Loop_doPendingFunctors :: "(task \<Rightarrow> Loop \<Rightarrow> lp_call list) \<Rightarrow> env \<Rightarrow> Loop \<Rightarrow> Loop res" where
  "Loop_doPendingFunctors prog ev s =
     (let functors = lp_pending s;
          s1 = s\<lparr>lp_calling := True, lp_pending := []\<rparr>
      in bindR (foldR (run_fn prog ev) functors s1) (\<lambda>s2. Inr (s2\<lparr>lp_calling := False\<rparr>)))"

definition loop_round ::
    "(rat \<Rightarrow> rat) \<Rightarrow> (task \<Rightarrow> Loop \<Rightarrow> lp_call list) \<Rightarrow> (nat \<Rightarrow> Loop \<Rightarrow> bool) \<Rightarrow> env \<Rightarrow> Loop \<Rightarrow> Loop res" where
  "loop_round fl prog alive ev s =
     bindR (PollPoller_poll (ev_kp ev) (ev_pollTime ev) (s\<lparr>rx_active := []\<rparr>)) (\<lambda>(t, active, s1).
     bindR (foldR (dispatch fl prog alive ev) active
              (s1\<lparr>rx_active := active, lp_pollReturnTime := t, lp_iteration := lp_iteration s1 + 1, rx_eventHandling := True\<rparr>)) (\<lambda>s2.
     Loop_doPendingFunctors prog ev (s2\<lparr>rx_current := None, rx_eventHandling := False\<rparr>)))"

section \<open>The loop\<close>

definition loop_enter :: "Loop \<Rightarrow> Loop res" where
  "loop_enter s =
     bindR (assertR (\<not> lp_looping s) ''!looping_'') (\<lambda>_.
     bindR (assertInLoopThread s) (\<lambda>_. Inr (s\<lparr>lp_looping := True, lp_quit := False\<rparr>)))"

text \<open>What happens to the loop: a round, or a call in another thread between two rounds.\<close>

datatype lp_input =
    Round env
  | OtherQueue nat
  | OtherAddTimer addr nat Timestamp rat
  | OtherCancel TimerId
  | OtherQuit

fun loop_input :: "(rat \<Rightarrow> rat) \<Rightarrow> (task \<Rightarrow> Loop \<Rightarrow> lp_call list) \<Rightarrow> (nat \<Rightarrow> Loop \<Rightarrow> bool) \<Rightarrow> lp_input \<Rightarrow> Loop \<Rightarrow> Loop res" where
  "loop_input fl prog alive (Round ev) s =
     (if \<not> lp_looping s then Inr s
      else if lp_quit s then Inr (s\<lparr>lp_looping := False\<rparr>)
      else loop_round fl prog alive ev s)"
| "loop_input fl prog alive (OtherQueue n) s = Inr (Loop_queueInLoop False (UserFn n) s)"
| "loop_input fl prog alive (OtherAddTimer a cb w interval) s = TimerQueue_addTimer False Timestamp_invalid a cb w interval s"
| "loop_input fl prog alive (OtherCancel i) s = EventLoop_cancel False i s"
| "loop_input fl prog alive OtherQuit s = Inr (Loop_quit False s)"

definition loop_run ::
    "(rat \<Rightarrow> rat) \<Rightarrow> (task \<Rightarrow> Loop \<Rightarrow> lp_call list) \<Rightarrow> (nat \<Rightarrow> Loop \<Rightarrow> bool) \<Rightarrow> lp_input list \<Rightarrow> Loop \<Rightarrow> Loop res" where
  "loop_run fl prog alive xs s = bindR (loop_enter s) (foldR (loop_input fl prog alive) xs)"

section \<open>Destruction\<close>

text \<open>The timers of the queue are deleted; deleting one twice would be a fault.\<close>

definition delete_timer :: "entry \<Rightarrow> TimerQueue \<Rightarrow> TimerQueue res" where
  "delete_timer e q = bindR (deref (snd e) q) (\<lambda>_. Inr (q\<lparr>theap := (theap q)(snd e := None)\<rparr>))"

definition TimerQueue_dtor :: "TimerQueue \<Rightarrow> TimerQueue res" where
  "TimerQueue_dtor q = foldR delete_timer (timers q) q"

text \<open>The members go in the reverse order of their declaration: the wakeup channel, then the timer
  queue with its channel.\<close>

definition EventLoop_dtor :: "Loop \<Rightarrow> (TimerQueue \<times> nat option) res" where
  "EventLoop_dtor s =
     bindR (Channel_destroy (heap s wakeup_chan)) (\<lambda>_.
     bindR (TimerQueue_dtor (lp_tq s)) (\<lambda>q.
     bindR (Channel_destroy (heap s timer_chan)) (\<lambda>_. Inr (q, None))))"

section \<open>Invariant\<close>

text \<open>A channel of the loop itself is registered, reads, and is not ignored by the poller.\<close>

definition own_ok :: "Loop \<Rightarrow> chan \<Rightarrow> bool" where
  "own_ok s c \<longleftrightarrow> registered s c \<and> ch_loop (heap s c) = rx_loop s \<and> ch_events (heap s c) = kReadEvent \<and>
     \<not> ch_tied (heap s c) \<and> pfd_fd (entry_of s c) = ch_fd (heap s c)"

fun add_addrs :: "LFn list \<Rightarrow> addr list" where
  "add_addrs [] = []"
| "add_addrs (AddTimerInLoop a # fs) = a # add_addrs fs"
| "add_addrs (_ # fs) = add_addrs fs"

lemma add_addrs_append [simp]: "add_addrs (fs @ gs) = add_addrs fs @ add_addrs gs"
  by (induction fs rule: add_addrs.induct) auto

text \<open>\<open>xs\<close> are the timers of the round that are being run, \<open>fs\<close> the functors taken out that have
  still to run. The timers that wait in the functor queue for their insertion are allocated
  and nowhere else.\<close>

definition loop_tq :: "entry list \<Rightarrow> LFn list \<Rightarrow> TimerQueue \<Rightarrow> bool" where
  "loop_tq xs fs q \<longleftrightarrow> (\<exists>fl. map snd fl = add_addrs fs \<and> tq_inv (xs @ fl) q)"

definition loop_inv :: "entry list \<Rightarrow> LFn list \<Rightarrow> Loop \<Rightarrow> bool" where
  "loop_inv xs fs s \<longleftrightarrow> poller_inv s \<and> isInLoopThread s \<and> own_ok s timer_chan \<and> own_ok s wakeup_chan \<and>
     loop_tq xs (fs @ lp_pending s) (lp_tq s) \<and> lp_queued s = lp_ran s @ fs @ lp_pending s"

lemma loop_invD:
  assumes "loop_inv xs fs s"
  shows "poller_inv s" "isInLoopThread s" "own_ok s timer_chan" "own_ok s wakeup_chan"
    "loop_tq xs (fs @ lp_pending s) (lp_tq s)" "lp_queued s = lp_ran s @ fs @ lp_pending s"
  using assms by (simp_all add: loop_inv_def)

text \<open>What no call of the program touches.\<close>

definition loop_frame :: "Loop \<Rightarrow> Loop \<Rightarrow> bool" where
  "loop_frame s t \<longleftrightarrow> rx_active t = rx_active s \<and> rx_current t = rx_current s \<and> rx_eventHandling t = rx_eventHandling s \<and>
     lp_handled t = lp_handled s \<and> lp_ran t = lp_ran s \<and> lp_calling t = lp_calling s \<and> lp_looping t = lp_looping s \<and>
     lp_iteration t = lp_iteration s \<and> lp_pollReturnTime t = lp_pollReturnTime s \<and> (\<exists>gs. lp_pending t = lp_pending s @ gs)"

lemma loop_frame_refl [simp]: "loop_frame s s"
  by (simp add: loop_frame_def)

lemma loop_frame_trans: "loop_frame s t \<Longrightarrow> loop_frame t u \<Longrightarrow> loop_frame s u"
  by (auto simp: loop_frame_def)

lemma loop_fields:
  fixes s s' :: Loop
  assumes "PollPoller.PollPoller.more s' = PollPoller.PollPoller.more s"
  shows "rx_loop s' = rx_loop s" "rx_active s' = rx_active s" "rx_current s' = rx_current s" "rx_eventHandling s' = rx_eventHandling s"
    "isInLoopThread s' = isInLoopThread s" "lp_handled s' = lp_handled s" "lp_ran s' = lp_ran s" "lp_calling s' = lp_calling s"
    "lp_looping s' = lp_looping s" "lp_iteration s' = lp_iteration s" "lp_pending s' = lp_pending s" "lp_tq s' = lp_tq s"
    "lp_queued s' = lp_queued s" "lp_pollReturnTime s' = lp_pollReturnTime s" "lp_quit s' = lp_quit s"
  using assms by (cases s; cases s'; simp add: isInLoopThread_def)+

text \<open>A change of the poller alone.\<close>

lemma loop_inv_poller:
  assumes "loop_inv xs fs s" "poller_inv s'" "own_ok s' timer_chan" "own_ok s' wakeup_chan"
    and "PollPoller.PollPoller.more s' = PollPoller.PollPoller.more s"
  shows "loop_inv xs fs s' \<and> loop_frame s s'"
  using assms(1-4) loop_fields [OF assms(5)] by (simp add: loop_inv_def loop_frame_def)

text \<open>A change outside the poller.\<close>

definition same_poller :: "Loop \<Rightarrow> Loop \<Rightarrow> bool" where
  "same_poller s s' \<longleftrightarrow> pollfds s' = pollfds s \<and> channels s' = channels s \<and> heap s' = heap s \<and> rx_loop s' = rx_loop s \<and>
     rx_threadId s' = rx_threadId s \<and> rx_tid s' = rx_tid s"

lemma same_poller_inv:
  assumes "same_poller s s'"
  shows "poller_inv s' = poller_inv s" "own_ok s' c = own_ok s c" "isInLoopThread s' = isInLoopThread s"
proof -
  have e: "entry_of s' d = entry_of s d" "registered s' d = registered s d" for d
    using assms by (simp_all add: same_poller_def entry_of_def registered_def)
  have "poller_struct s' = poller_struct s"
    unfolding poller_struct_def e using assms by (simp add: same_poller_def)
  then show "poller_inv s' = poller_inv s" unfolding poller_inv_def e using assms by (simp add: same_poller_def)
  show "own_ok s' c = own_ok s c" unfolding own_ok_def e using assms by (simp add: same_poller_def)
  show "isInLoopThread s' = isInLoopThread s" using assms by (simp add: same_poller_def isInLoopThread_def)
qed

lemma loop_inv_change:
  assumes "loop_inv xs fs s" "same_poller s s'" "loop_tq ys (gs @ lp_pending s') (lp_tq s')"
    and "lp_queued s' = lp_ran s' @ gs @ lp_pending s'"
  shows "loop_inv ys gs s'"
  using assms(1,3,4) same_poller_inv [OF assms(2)] by (simp add: loop_inv_def)

lemma loop_inv_tq:
  assumes "loop_inv xs fs s" "loop_tq ys (fs @ lp_pending s) q"
  shows "loop_inv ys fs (s\<lparr>lp_tq := q\<rparr>) \<and> loop_frame s (s\<lparr>lp_tq := q\<rparr>)"
  using loop_inv_change [OF assms(1), of "s\<lparr>lp_tq := q\<rparr>"] assms(2) loop_invD(6) [OF assms(1)]
  by (simp add: same_poller_def loop_frame_def)

section \<open>What the program may call\<close>

text \<open>The protocol of the classes: \<^verbatim>\<open>new\<close> delivers an address that is not in use, a channel that is
  changed belongs to the program and is registered or new, and one that is removed was disabled
  and is not waiting on the active list for its turn.\<close>

fun lp_call_ok :: "lp_call \<Rightarrow> Loop \<Rightarrow> bool" where
  "lp_call_ok (LTimer c) s \<longleftrightarrow> call_ok c (lp_tq s)"
| "lp_call_ok (LQueue n) s \<longleftrightarrow> True"
| "lp_call_ok LQuit s \<longleftrightarrow> True"
| "lp_call_ok (LNew c fd) s \<longleftrightarrow> c \<notin> ran (channels s)"
| "lp_call_ok (LMask m c) s \<longleftrightarrow> c \<noteq> timer_chan \<and> c \<noteq> wakeup_chan \<and> on_loop s c \<and> (registered s c \<or> fresh s c)"
| "lp_call_ok (LRemove c) s \<longleftrightarrow> c \<noteq> timer_chan \<and> c \<noteq> wakeup_chan \<and> rx_ready s c \<and> rx_idle s c"

abbreviation lp_calls_ok :: "lp_call list \<Rightarrow> Loop \<Rightarrow> bool" where
  "lp_calls_ok \<equiv> steps_ok lp_do lp_call_ok"

text \<open>Where a callback runs: a functor after the events of the round, the others during the events,
  with their channel as the current one.\<close>

fun task_ctx :: "task \<Rightarrow> Loop \<Rightarrow> bool" where
  "task_ctx (OnFunctor n) s \<longleftrightarrow> \<not> rx_eventHandling s"
| "task_ctx (OnTimer n) s \<longleftrightarrow> rx_eventHandling s \<and> rx_current s = Some timer_chan"
| "task_ctx (OnRead c) s \<longleftrightarrow> rx_eventHandling s \<and> rx_current s = Some c"
| "task_ctx (OnWrite c) s \<longleftrightarrow> rx_eventHandling s \<and> rx_current s = Some c"
| "task_ctx (OnClose c) s \<longleftrightarrow> rx_eventHandling s \<and> rx_current s = Some c"
| "task_ctx (OnError c) s \<longleftrightarrow> rx_eventHandling s \<and> rx_current s = Some c"

definition prog_ok :: "(task \<Rightarrow> Loop \<Rightarrow> lp_call list) \<Rightarrow> bool" where
  "prog_ok prog \<longleftrightarrow> (\<forall>k xs fs s. loop_inv xs fs s \<longrightarrow> task_ctx k s \<longrightarrow> lp_calls_ok (prog k s) s)"

lemma prog_okD: "prog_ok prog \<Longrightarrow> loop_inv xs fs s \<Longrightarrow> task_ctx k s \<Longrightarrow> lp_calls_ok (prog k s) s"
  by (auto simp: prog_ok_def)

section \<open>Single calls\<close>

lemma on_tq_ok:
  assumes "loop_inv xs fs s" "f (lp_tq s) = Inr q" "loop_tq ys (fs @ lp_pending s) q"
  shows "\<exists>s'. on_tq f s = Inr s' \<and> loop_inv ys fs s' \<and> loop_frame s s'"
  using loop_inv_tq [OF assms(1,3)] loop_invD(2) [OF assms(1)] assms(2) by (simp add: on_tq_def assertInLoopThread_def)

lemma own_ok_put: "own_ok s d \<Longrightarrow> d \<noteq> c \<Longrightarrow> own_ok (put_channel c ch s) d"
  by (simp add: own_ok_def put_channel_def registered_def entry_of_def)

lemma put_channel_new:
  assumes "poller_inv s" "c \<notin> ran (channels s)"
  shows "poller_inv (put_channel c ch s)"
proof -
  have ne: "d \<noteq> c" if "channels s g = Some d" for g d using that assms(2) by (auto simp: ran_def)
  have h: "channels (put_channel c ch s) = channels s" "pollfds (put_channel c ch s) = pollfds s"
    "d \<noteq> c \<Longrightarrow> heap (put_channel c ch s) d = heap s d" for d by (simp_all add: put_channel_def)
  have st: "poller_struct s" using assms(1) by (simp add: poller_inv_def)
  have "poller_struct (put_channel c ch s)"
    unfolding poller_struct_def entry_of_def h(1,2)
  proof (intro conjI allI impI)
    show "length (pollfds s) < 2 ^ 31" using st by (simp add: poller_struct_def)
  next
    fix i assume "i < length (pollfds s)"
    then obtain d where "channels s (watched_fd (pollfds s ! i)) = Some d" "ch_index (heap s d) = int i"
      by (rule struct_entry [OF st])
    with ne h(3) show "\<exists>d. channels s (watched_fd (pollfds s ! i)) = Some d \<and> ch_index (heap (put_channel c ch s) d) = int i"
      by auto
  next
    fix g d assume g: "channels s g = Some d"
    from structD [OF st g] h(3) [OF ne [OF g]]
    show "0 \<le> g" "ch_fd (heap (put_channel c ch s) d) = g" "0 \<le> ch_index (heap (put_channel c ch s) d)"
      "nat (ch_index (heap (put_channel c ch s) d)) < length (pollfds s)"
      "watched_fd (pollfds s ! nat (ch_index (heap (put_channel c ch s) d))) = g" by (simp_all add: entry_of_def)
  qed
  moreover have "pfd_events (entry_of (put_channel c ch s) d) = ucast (ch_events (heap (put_channel c ch s) d))"
    if "registered (put_channel c ch s) d" for d
  proof -
    have d: "d \<noteq> c" using that ne by (auto simp: registered_def h(1))
    then have "registered s d" using that by (simp add: registered_def h)
    with assms(1) d show ?thesis by (simp add: poller_inv_def entry_of_def h)
  qed
  ultimately show ?thesis by (simp add: poller_inv_def)
qed

lemma own_ok_frame:
  assumes "own_ok s d" "registered s' d" "entry_of s' d = entry_of s d" "heap s' d = (heap s d)\<lparr>ch_index := k\<rparr>" "rx_loop s' = rx_loop s"
  shows "own_ok s' d"
  using assms by (simp add: own_ok_def)

lemma LMask_ok:
  assumes i: "loop_inv xs fs s" and c: "c \<noteq> timer_chan" "c \<noteq> wakeup_chan" "on_loop s c" "registered s c \<or> fresh s c"
  shows "\<exists>s'. Channel_mask m c s = Inr s' \<and> loop_inv xs fs s' \<and> loop_frame s s'"
proof -
  note p = loop_invD(1) [OF i]
  obtain s' where s': "Channel_mask m c s = Inr s'" "poller_inv s'" "PollPoller.PollPoller.more s' = PollPoller.PollPoller.more s"
    using Channel_mask_registered [OF p c(3), of m] Channel_mask_fresh [OF p c(3), of m] c(4) by blast
  have own: "own_ok s' d" if "own_ok s d" "d \<noteq> c" for d
  proof (rule own_ok_frame [where k = "ch_index (heap s d)", OF that(1)])
    have "registered s d" using that(1) by (simp add: own_ok_def)
    from Channel_mask_others [OF p c(3,4) s'(1) this that(2)]
    show "registered s' d" "entry_of s' d = entry_of s d" "heap s' d = (heap s d)\<lparr>ch_index := ch_index (heap s d)\<rparr>" by simp_all
  qed (rule loop_fields(1) [OF s'(3)])
  from loop_inv_poller [OF i s'(2) own own s'(3)] loop_invD(3,4) [OF i] c(1,2) s'(1) show ?thesis by simp
qed

lemma LRemove_ok:
  assumes i: "loop_inv xs fs s" and c: "c \<noteq> timer_chan" "c \<noteq> wakeup_chan" "rx_ready s c" "rx_idle s c"
  shows "\<exists>s'. Channel_remove c s = Inr s' \<and> loop_inv xs fs s' \<and> loop_frame s s'"
proof -
  obtain s' where s': "Channel_remove c s = Inr s'" "poller_inv s'" "PollPoller.PollPoller.more s' = PollPoller.PollPoller.more s"
    and others: "\<forall>d. d \<noteq> c \<longrightarrow> registered s d \<longrightarrow> registered s' d \<and> entry_of s' d = entry_of s d"
      "\<forall>d. \<exists>k. heap s' d = (heap s d)\<lparr>ch_index := k\<rparr>"
    using Channel_remove_ok [of s c] loop_invD(1) [OF i] c(3,4) by (auto simp: rx_ready_def rx_idle_def)
  have own: "own_ok s' d" if o: "own_ok s d" "d \<noteq> c" for d
  proof -
    obtain k where k: "heap s' d = (heap s d)\<lparr>ch_index := k\<rparr>" using others(2) by blast
    have "registered s d" using o(1) by (simp add: own_ok_def)
    then show ?thesis using own_ok_frame [OF o(1) _ _ k loop_fields(1) [OF s'(3)]] others(1) o(2) by blast
  qed
  from loop_inv_poller [OF i s'(2) own own s'(3)] loop_invD(3,4) [OF i] c(1,2) s'(1) show ?thesis by simp
qed

lemma Loop_wakeup_fields [simp]:
  "pollfds (Loop_wakeup s) = pollfds s" "channels (Loop_wakeup s) = channels s" "heap (Loop_wakeup s) = heap s"
  "rx_loop (Loop_wakeup s) = rx_loop s" "rx_threadId (Loop_wakeup s) = rx_threadId s" "rx_tid (Loop_wakeup s) = rx_tid s"
  "rx_active (Loop_wakeup s) = rx_active s" "rx_current (Loop_wakeup s) = rx_current s"
  "rx_eventHandling (Loop_wakeup s) = rx_eventHandling s" "lp_pending (Loop_wakeup s) = lp_pending s"
  "lp_tq (Loop_wakeup s) = lp_tq s" "lp_queued (Loop_wakeup s) = lp_queued s" "lp_ran (Loop_wakeup s) = lp_ran s"
  "lp_handled (Loop_wakeup s) = lp_handled s" "lp_calling (Loop_wakeup s) = lp_calling s" "lp_quit (Loop_wakeup s) = lp_quit s"
  "lp_looping (Loop_wakeup s) = lp_looping s" "lp_iteration (Loop_wakeup s) = lp_iteration s"
  "lp_pollReturnTime (Loop_wakeup s) = lp_pollReturnTime s"
  by (simp_all add: Loop_wakeup_def)

lemma queue_ok:
  assumes "loop_inv xs fs s" "loop_tq xs (fs @ lp_pending s @ [f]) (lp_tq s)"
  shows "loop_inv xs fs (Loop_queueInLoop b f s) \<and> loop_frame s (Loop_queueInLoop b f s)"
proof -
  have "same_poller s (Loop_queueInLoop b f s)" "lp_pending (Loop_queueInLoop b f s) = lp_pending s @ [f]"
    "lp_tq (Loop_queueInLoop b f s) = lp_tq s" "lp_queued (Loop_queueInLoop b f s) = lp_queued s @ [f]"
    "lp_ran (Loop_queueInLoop b f s) = lp_ran s" "loop_frame s (Loop_queueInLoop b f s)"
    by (simp_all add: Loop_queueInLoop_def Let_def same_poller_def loop_frame_def)
  then show ?thesis
    using loop_inv_change [OF assms(1), of "Loop_queueInLoop b f s" xs fs] assms(2) loop_invD(6) [OF assms(1)] by simp
qed

lemma quit_ok:
  assumes "loop_inv xs fs s"
  shows "loop_inv xs fs (Loop_quit b s) \<and> loop_frame s (Loop_quit b s)"
proof -
  have "same_poller s (Loop_quit b s)" "lp_pending (Loop_quit b s) = lp_pending s"
    "lp_tq (Loop_quit b s) = lp_tq s" "lp_queued (Loop_quit b s) = lp_queued s"
    "lp_ran (Loop_quit b s) = lp_ran s" "loop_frame s (Loop_quit b s)"
    by (simp_all add: Loop_quit_def Let_def same_poller_def loop_frame_def)
  then show ?thesis
    using loop_inv_change [OF assms, of "Loop_quit b s" xs fs] loop_invD(5,6) [OF assms] by simp
qed

lemma loop_tq_user [simp]: "loop_tq xs (fs @ gs @ [UserFn n]) q = loop_tq xs (fs @ gs) q"
  by (simp add: loop_tq_def)

lemma lp_do_timer: "lp_do (LTimer c) s = on_tq (do_call c) s"
  by (cases c) (simp_all add: TimerQueue_addTimer_def EventLoop_cancel_def on_tq_def)

lemma lp_do_ok:
  assumes i: "loop_inv xs fs s" and ok: "lp_call_ok c s"
  shows "\<exists>s'. lp_do c s = Inr s' \<and> loop_inv xs fs s' \<and> loop_frame s s'"
proof (cases c)
  case (LTimer t)
  obtain fl where fl: "map snd fl = add_addrs (fs @ lp_pending s)" "tq_inv (xs @ fl) (lp_tq s)"
    using loop_invD(5) [OF i] by (auto simp: loop_tq_def)
  then obtain q where "do_call t (lp_tq s) = Inr q" "tq_inv (xs @ fl) q" using do_call_ok [of "xs @ fl" _ t] ok LTimer by auto
  with fl(1) LTimer on_tq_ok [OF i, of "do_call t" q xs] show ?thesis by (auto simp: loop_tq_def lp_do_timer)
next
  case (LQueue n)
  then show ?thesis using queue_ok [OF i, of "UserFn n" True] loop_invD(5) [OF i] by simp
next
  case LQuit
  then show ?thesis using quit_ok [OF i, of True] by simp
next
  case (LNew d fd)
  then have d: "d \<notin> ran (channels s)" using ok by simp
  then have "d \<noteq> timer_chan" "d \<noteq> wakeup_chan"
    using loop_invD(3,4) [OF i] by (auto simp: own_ok_def registered_def ran_def)
  then show ?thesis
    using LNew loop_inv_poller [OF i put_channel_new [OF loop_invD(1) [OF i] d] own_ok_put [OF loop_invD(3) [OF i]]
        own_ok_put [OF loop_invD(4) [OF i]]] by (simp add: put_channel_def)
next
  case (LMask m d)
  then show ?thesis using LMask_ok [OF i, of d m] ok by simp
next
  case (LRemove d)
  then show ?thesis using LRemove_ok [OF i, of d] ok by simp
qed

lemma lp_calls_ok_run:
  assumes "loop_inv xs fs s" "lp_calls_ok cs s"
  shows "\<exists>s'. foldR lp_do cs s = Inr s' \<and> loop_inv xs fs s' \<and> loop_frame s s'"
  by (rule steps_ok_total [where I = "\<lambda>t. loop_inv xs fs t \<and> loop_frame s t", OF _ assms(2)])
    (use assms(1) lp_do_ok loop_frame_trans loop_frame_refl in blast)+

lemma run_task_ok:
  assumes "prog_ok prog" "loop_inv xs fs s" "task_ctx k s"
  shows "\<exists>s'. run_task prog k s = Inr s' \<and> loop_inv xs fs s' \<and> loop_frame s s'"
  using lp_calls_ok_run [OF assms(2) prog_okD [OF assms]] by (simp add: run_task_def)

section \<open>Rounds\<close>

lemma loop_tq_flags: "loop_tq xs fs q \<Longrightarrow> loop_tq xs fs (q\<lparr>callingExpiredTimers := b, cancelingTimers := c\<rparr>)"
  using tq_inv_flags by (auto simp: loop_tq_def)

lemma loop_tq_expired: "loop_tq xs fs q \<Longrightarrow> e \<in> set xs \<Longrightarrow> \<exists>t. deref (snd e) q = Inr t"
  using tq_invD(3) [of _ q e] by (fastforce simp: loop_tq_def entry_ok_def deref_def)

lemma loop_tq_getExpired:
  assumes "loop_tq [] fs q"
  shows "\<exists>xs q'. getExpired now q = Inr (xs, q') \<and> loop_tq xs fs q'"
proof -
  obtain fl where fl: "map snd fl = add_addrs fs" "tq_inv fl q" using assms by (auto simp: loop_tq_def)
  from getExpired_ok [OF fl(2), of now] fl(1) show ?thesis unfolding loop_tq_def by blast
qed

lemma loop_tq_reset:
  assumes "loop_tq xs fs q"
  shows "\<exists>q'. TimerQueue_reset F xs now now2 q = Inr q' \<and> loop_tq [] fs q'"
proof -
  obtain fl where fl: "map snd fl = add_addrs fs" "tq_inv (xs @ fl) q" using assms by (auto simp: loop_tq_def)
  from TimerQueue_reset_ok [OF fl(2), of F now now2] fl(1) show ?thesis by (auto simp: loop_tq_def)
qed

lemma timer_handleRead_ok:
  assumes p: "prog_ok prog" and i: "loop_inv [] fs s" and ctx: "task_ctx (OnTimer 0) s"
  shows "\<exists>s'. timer_handleRead F prog ev s = Inr s' \<and> loop_inv [] fs s' \<and> loop_frame s s'"
proof -
  obtain xs q1 where q1: "getExpired (ev_now ev) (lp_tq s) = Inr (xs, q1)" "loop_tq xs (fs @ lp_pending s) q1"
    using loop_tq_getExpired [OF loop_invD(5) [OF i]] by blast
  define s1 where "s1 = s\<lparr>lp_tq := q1\<lparr>callingExpiredTimers := True, cancelingTimers := {}\<rparr>\<rparr>"
  have s1: "loop_inv xs fs s1 \<and> loop_frame s s1" unfolding s1_def by (rule loop_inv_tq [OF i loop_tq_flags [OF q1(2)]])
  have "\<exists>s2. foldR (run_expired prog) xs s1 = Inr s2 \<and> loop_inv xs fs s2 \<and> loop_frame s s2"
  proof (rule foldR_total [where I = "\<lambda>s2. loop_inv xs fs s2 \<and> loop_frame s s2", OF s1])
    fix e r
    assume e: "e \<in> set xs" and r: "loop_inv xs fs r \<and> loop_frame s r"
    then obtain t where "deref (snd e) (lp_tq r) = Inr t" using loop_tq_expired loop_invD(5) by blast
    moreover have "task_ctx (OnTimer n) r" for n using r ctx by (simp add: loop_frame_def)
    ultimately show "\<exists>s2. run_expired prog e r = Inr s2 \<and> loop_inv xs fs s2 \<and> loop_frame s s2"
      using run_task_ok [OF p conjunct1 [OF r]] r loop_frame_trans by (fastforce simp: run_expired_def)
  qed
  then obtain s2 where s2: "foldR (run_expired prog) xs s1 = Inr s2" "loop_inv xs fs s2" "loop_frame s s2" by blast
  define s3 where "s3 = s2\<lparr>lp_tq := (lp_tq s2)\<lparr>callingExpiredTimers := False\<rparr>\<rparr>"
  have s3: "loop_inv xs fs s3" "loop_frame s2 s3"
    using loop_inv_tq [OF s2(2) loop_tq_flags [OF loop_invD(5) [OF s2(2)], of "cancelingTimers (lp_tq s2)" False]]
    by (simp_all add: s3_def)
  obtain q where "TimerQueue_reset F xs (ev_now ev) (ev_now2 ev) (lp_tq s3) = Inr q" "loop_tq [] (fs @ lp_pending s3) q"
    using loop_tq_reset [OF loop_invD(5) [OF s3(1)]] by blast
  then obtain s4 where "on_tq (TimerQueue_reset F xs (ev_now ev) (ev_now2 ev)) s3 = Inr s4" "loop_inv [] fs s4" "loop_frame s3 s4"
    using on_tq_ok [OF s3(1)] by blast
  moreover have "loop_frame s s4" using s2(3) s3(2) calculation(3) loop_frame_trans by blast
  ultimately show ?thesis
    using q1(1) s2(1) loop_invD(2) [OF i] by (simp add: timer_handleRead_def assertInLoopThread_def s1_def s3_def)
qed

lemma mark_ok:
  assumes "loop_inv xs fs s"
  shows "loop_inv xs fs (put_channel c ((heap s c)\<lparr>ch_eventHandling := b\<rparr>) s) \<and>
     loop_frame s (put_channel c ((heap s c)\<lparr>ch_eventHandling := b\<rparr>) s)" (is "loop_inv _ _ ?s \<and> _")
proof -
  have u: "?s = heap_upd c (\<lambda>ch. ch\<lparr>ch_eventHandling := b\<rparr>) s" by (simp add: put_channel_def heap_upd_def)
  have h: "entry_of ?s d = entry_of s d" "registered ?s d = registered s d" "ch_events (heap ?s d) = ch_events (heap s d)"
    "own_ok ?s d = own_ok s d" for d
    by (simp_all add: put_channel_def entry_of_def registered_def own_ok_def)
  have "poller_struct ?s" unfolding u by (rule struct_heap_upd) (use loop_invD(1) [OF assms] in \<open>simp_all add: poller_inv_def\<close>)
  then have "poller_inv ?s" using loop_invD(1) [OF assms] by (simp add: poller_inv_def h)
  then show ?thesis using loop_inv_poller [OF assms, of ?s] loop_invD(3,4) [OF assms] h(4) by (simp add: put_channel_def)
qed

lemma keeps_frame:
  assumes "\<And>s. loop_inv [] [] s \<Longrightarrow> task_ctx (OnRead c) s \<Longrightarrow> \<exists>s'. f s = Inr s' \<and> loop_inv [] [] s' \<and> loop_frame s s'"
    and "task_ctx (OnRead c) s0"
  shows "keeps (\<lambda>s. loop_inv [] [] s \<and> loop_frame s0 s) f"
proof (rule keepsI)
  fix w assume w: "loop_inv [] [] w \<and> loop_frame s0 w"
  then have "task_ctx (OnRead c) w" using assms(2) by (simp add: loop_frame_def)
  with assms(1) [of w] w show "\<exists>w'. f w = Inr w' \<and> loop_inv [] [] w' \<and> loop_frame s0 w'" using loop_frame_trans by blast
qed

lemma dispatch_ok:
  assumes p: "prog_ok prog" and i: "loop_inv [] [] s" and ev: "rx_eventHandling s"
  shows "\<exists>s'. dispatch F prog alive env c s = Inr s' \<and> loop_inv [] [] s' \<and>
     loop_frame (s\<lparr>rx_current := Some c, lp_handled := lp_handled s @ [c]\<rparr>) s'" (is "\<exists>s'. _ \<and> _ \<and> loop_frame ?s s'")
proof -
  have s: "loop_inv [] [] ?s"
    by (rule loop_inv_change [OF i]) (use loop_invD [OF i] in \<open>simp_all add: same_poller_def\<close>)
  have ctx: "task_ctx (OnRead c) ?s" using ev by simp
  have task: "keeps (\<lambda>w. loop_inv [] [] w \<and> loop_frame ?s w) (run_task prog k)"
    if "\<And>w. task_ctx (OnRead c) w \<Longrightarrow> task_ctx k w" for k
    by (rule keeps_frame [OF _ ctx]) (use run_task_ok [OF p] that in blast)
  have "keeps (\<lambda>w. loop_inv [] [] w \<and> loop_frame ?s w)
      (handleEvent (\<lambda>s. heap s c) (put_channel c) alive (loop_cbs F prog env c) (lp_pollReturnTime s))"
  proof (rule handleEvent_keeps)
    show "keeps (\<lambda>w. loop_inv [] [] w \<and> loop_frame ?s w) (\<lambda>w. Inr (put_channel c ((heap w c)\<lparr>ch_eventHandling := b\<rparr>) w))" for b
      by (rule keeps_frame [OF _ ctx]) (use mark_ok in blast)
  next
    fix g t assume g: "cb_read (loop_cbs F prog env c) = Some g"
    show "keeps (\<lambda>w. loop_inv [] [] w \<and> loop_frame ?s w) (g t)"
    proof (cases "c = timer_chan \<or> c = wakeup_chan")
      case False
      then show ?thesis using g task [of "OnRead c"] by (auto simp: loop_cbs_def)
    next
      case True
      then show ?thesis
      proof
        assume c: "c = timer_chan"
        then have "g t = timer_handleRead F prog env" using g by (auto simp: loop_cbs_def)
        then show ?thesis
          by (simp only:) (rule keeps_frame [OF _ ctx], rule timer_handleRead_ok [OF p], simp_all add: c)
      next
        assume c: "c = wakeup_chan"
        then have "g t = (\<lambda>s. Inr (Loop_handleRead s))" using g by (auto simp: loop_cbs_def timer_chan_def wakeup_chan_def)
        moreover have "loop_inv [] [] (Loop_handleRead w) \<and> loop_frame w (Loop_handleRead w)" if "loop_inv [] [] w" for w
          using loop_inv_change [OF that, of "Loop_handleRead w" "[]" "[]"] loop_invD(5,6) [OF that]
          by (simp add: Loop_handleRead_def same_poller_def loop_frame_def)
        ultimately show ?thesis using keeps_frame [OF _ ctx] by simp
      qed
    qed
  next
    fix g
    assume "cb_write (loop_cbs F prog env c) = Some g \<or> cb_close (loop_cbs F prog env c) = Some g \<or>
      cb_error (loop_cbs F prog env c) = Some g"
    then have "g \<in> {run_task prog (OnWrite c), run_task prog (OnClose c), run_task prog (OnError c)}"
      by (auto simp: loop_cbs_def split: if_splits)
    then show "keeps (\<lambda>w. loop_inv [] [] w \<and> loop_frame ?s w) g"
      using task [of "OnWrite c"] task [of "OnClose c"] task [of "OnError c"] by auto
  qed
  from keeps_run [OF this, of ?s] s show ?thesis by (simp add: dispatch_def)
qed

lemma dispatch_all:
  assumes "prog_ok prog" "loop_inv [] [] s" "rx_eventHandling s"
  shows "\<exists>s'. foldR (dispatch F prog alive ev) cs s = Inr s' \<and> loop_inv [] [] s' \<and>
     loop_frame (s\<lparr>rx_current := rx_current s', lp_handled := lp_handled s @ cs\<rparr>) s'"
  using assms(2,3)
proof (induction cs arbitrary: s)
  case Nil
  then show ?case by simp
next
  case (Cons c cs)
  obtain t where t: "dispatch F prog alive ev c s = Inr t" "loop_inv [] [] t"
    "loop_frame (s\<lparr>rx_current := Some c, lp_handled := lp_handled s @ [c]\<rparr>) t"
    using dispatch_ok [OF assms(1) Cons.prems] by blast
  moreover have "rx_eventHandling t" using t(3) Cons.prems(2) by (simp add: loop_frame_def)
  ultimately obtain s' where "foldR (dispatch F prog alive ev) cs t = Inr s'" "loop_inv [] [] s'"
    "loop_frame (t\<lparr>rx_current := rx_current s', lp_handled := lp_handled t @ cs\<rparr>) s'"
    using Cons.IH [of t] by blast
  then show ?case using t(1,3) by (auto simp: loop_frame_def)
qed

lemma tq_inv_tl: "tq_inv (e # fl) q \<Longrightarrow> tq_inv fl q"
  by (simp add: tq_inv_def)

lemma loop_tq_run_fn:
  assumes "loop_tq [] (f # fs) q"
  shows "loop_tq [] fs q"
    and "f = AddTimerInLoop a \<Longrightarrow> \<exists>q'. addTimerInLoop now a q = Inr q' \<and> loop_tq [] fs q'"
    and "f = CancelInLoop i \<Longrightarrow> \<exists>q'. cancelInLoop i q = Inr q' \<and> loop_tq [] fs q'"
proof -
  obtain fl where fl: "map snd fl = add_addrs (f # fs)" "tq_inv fl q" using assms by (auto simp: loop_tq_def)
  show tl: "loop_tq [] fs q"
    using fl tq_inv_tl by (cases f) (auto simp: loop_tq_def)
  show "\<exists>q'. addTimerInLoop now a q = Inr q' \<and> loop_tq [] fs q'" if f: "f = AddTimerInLoop a"
  proof -
    obtain e gl where g: "fl = e # gl" "snd e = a" "map snd gl = add_addrs fs" using fl(1) f by auto
    have "a \<notin> snd ` set (gl @ timers q)" using tq_invD(2) [OF fl(2)] g(1,2) by auto
    moreover have "entry_ok q e" using tq_invD(3) [OF fl(2), of e] g(1) by simp
    ultimately obtain t where "theap q a = Some t" "a < UINTPTR_MAX" "a \<notin> snd ` set (gl @ timers q)" "tq_inv gl q"
      using g fl(2) tq_inv_tl by (auto simp: entry_ok_def)
    from addTimerInLoop_ok [OF this(4,1,3,2), of now] g(3) show ?thesis by (auto simp: loop_tq_def)
  qed
  show "\<exists>q'. cancelInLoop i q = Inr q' \<and> loop_tq [] fs q'" if f: "f = CancelInLoop i"
    using cancelInLoop_ok [OF fl(2), of i] fl(1) f by (auto simp: loop_tq_def)
qed

lemma run_fn_ok:
  assumes p: "prog_ok prog" and i: "loop_inv [] (f # fs) s" and ev: "\<not> rx_eventHandling s"
  shows "\<exists>s'. run_fn prog env f s = Inr s' \<and> loop_inv [] fs s' \<and> loop_frame (s\<lparr>lp_ran := lp_ran s @ [f]\<rparr>) s'"
proof -
  define s1 where "s1 = s\<lparr>lp_ran := lp_ran s @ [f]\<rparr>"
  note tq = loop_tq_run_fn [of f "fs @ lp_pending s" "lp_tq s"]
  have t: "loop_tq [] (f # fs @ lp_pending s) (lp_tq s)" using loop_invD(5) [OF i] by simp
  have s1: "loop_inv [] fs s1"
    by (rule loop_inv_change [OF i]) (use loop_invD(6) [OF i] tq(1) [OF t] in \<open>simp_all add: s1_def same_poller_def\<close>)
  have same: "lp_tq s1 = lp_tq s" "lp_pending s1 = lp_pending s" by (simp_all add: s1_def)
  show ?thesis
  proof (cases f)
    case (UserFn n)
    then show ?thesis using run_task_ok [OF p s1, of "OnFunctor n"] ev by (simp add: run_fn_def s1_def)
  next
    case (AddTimerInLoop a)
    then obtain q where "addTimerInLoop (ev_clock env a) a (lp_tq s) = Inr q" "loop_tq [] (fs @ lp_pending s) q"
      using tq(2) [OF t] by blast
    with on_tq_ok [OF s1, of "addTimerInLoop (ev_clock env a) a"] AddTimerInLoop same show ?thesis
      by (simp add: run_fn_def s1_def)
  next
    case (CancelInLoop j)
    then obtain q where "cancelInLoop j (lp_tq s) = Inr q" "loop_tq [] (fs @ lp_pending s) q" using tq(3) [OF t] by blast
    with on_tq_ok [OF s1, of "cancelInLoop j"] CancelInLoop same show ?thesis by (simp add: run_fn_def s1_def)
  qed
qed

lemma run_fns_ok:
  assumes "prog_ok prog" "loop_inv [] fs s" "\<not> rx_eventHandling s"
  shows "\<exists>s'. foldR (run_fn prog ev) fs s = Inr s' \<and> loop_inv [] [] s' \<and> loop_frame (s\<lparr>lp_ran := lp_ran s @ fs\<rparr>) s'"
  using assms(2,3)
proof (induction fs arbitrary: s)
  case (Cons f fs)
  obtain t where t: "run_fn prog ev f s = Inr t" "loop_inv [] fs t" "loop_frame (s\<lparr>lp_ran := lp_ran s @ [f]\<rparr>) t"
    using run_fn_ok [OF assms(1) Cons.prems] by blast
  moreover have "\<not> rx_eventHandling t" using t(3) Cons.prems(2) by (simp add: loop_frame_def)
  ultimately obtain s' where "foldR (run_fn prog ev) fs t = Inr s'" "loop_inv [] [] s'" "loop_frame (t\<lparr>lp_ran := lp_ran t @ fs\<rparr>) s'"
    using Cons.IH [of t] by blast
  then show ?case using t(1,3) by (auto simp: loop_frame_def)
qed simp

definition loop_idle :: "Loop \<Rightarrow> bool" where
  "loop_idle s \<longleftrightarrow> loop_inv [] [] s \<and> \<not> rx_eventHandling s \<and> \<not> lp_calling s \<and> rx_current s = None"

lemma Loop_doPendingFunctors_ok:
  assumes "prog_ok prog" "loop_inv [] [] s" "\<not> rx_eventHandling s" "rx_current s = None"
  shows "\<exists>s'. Loop_doPendingFunctors prog ev s = Inr s' \<and> loop_idle s' \<and> lp_ran s' = lp_ran s @ lp_pending s \<and>
     lp_handled s' = lp_handled s \<and> lp_looping s' = lp_looping s \<and> lp_iteration s' = lp_iteration s"
proof -
  define s1 where "s1 = s\<lparr>lp_calling := True, lp_pending := []\<rparr>"
  have "loop_inv [] (lp_pending s) s1"
    by (rule loop_inv_change [OF assms(2)]) (use loop_invD(5,6) [OF assms(2)] in \<open>simp_all add: s1_def same_poller_def\<close>)
  moreover have "\<not> rx_eventHandling s1" using assms(3) by (simp add: s1_def)
  ultimately obtain s2 where s2: "foldR (run_fn prog ev) (lp_pending s) s1 = Inr s2" "loop_inv [] [] s2"
    "loop_frame (s1\<lparr>lp_ran := lp_ran s1 @ lp_pending s\<rparr>) s2"
    using run_fns_ok [OF assms(1)] by blast
  have "loop_inv [] [] (s2\<lparr>lp_calling := False\<rparr>)"
    by (rule loop_inv_change [OF s2(2)]) (use loop_invD(5,6) [OF s2(2)] in \<open>simp_all add: same_poller_def\<close>)
  then show ?thesis
    using s2 assms(3,4) by (simp add: Loop_doPendingFunctors_def Let_def s1_def [symmetric] loop_idle_def)
      (simp add: loop_frame_def s1_def)
qed

lemma loop_round_ok:
  assumes p: "prog_ok prog" and s: "loop_idle s" and k: "poll_contract (ev_kp ev)" "ev_kp ev (pollfds s) = (n, rs)"
  shows "\<exists>s' fs. loop_round F prog alive ev s = Inr s' \<and> loop_idle s' \<and> lp_looping s' = lp_looping s \<and>
     lp_iteration s' = lp_iteration s + 1 \<and> lp_ran s' = lp_ran s @ lp_pending s @ fs \<and>
     lp_handled s' = lp_handled s @ (if 0 < n then active_of (map2 (\<lambda>p r. p\<lparr>pfd_revents := r\<rparr>) (pollfds s) rs) s else [])"
proof -
  define s0 where "s0 = s\<lparr>rx_active := []\<rparr>"
  define act where "act = (if 0 < n then active_of (map2 (\<lambda>p r. p\<lparr>pfd_revents := r\<rparr>) (pollfds s) rs) s else [])"
  have i: "loop_inv [] [] s" using s by (simp add: loop_idle_def)
  have i0: "loop_inv [] [] s0"
    by (rule loop_inv_change [OF i]) (use loop_invD(5,6) [OF i] in \<open>simp_all add: s0_def same_poller_def\<close>)
  obtain s1 where s1: "PollPoller_poll (ev_kp ev) (ev_pollTime ev) s0 = Inr (ev_pollTime ev, act, s1)" "poller_inv s1"
    "\<forall>d. \<exists>r. heap s1 d = (heap s0 d)\<lparr>ch_revents := r\<rparr>"
    "\<forall>d. registered s0 d \<longrightarrow> registered s1 d \<and> (\<exists>r. entry_of s1 d = (entry_of s0 d)\<lparr>pfd_revents := r\<rparr>)"
    "PollPoller.PollPoller.more s1 = PollPoller.PollPoller.more s0"
    using PollPoller_poll_ok [OF loop_invD(1) [OF i0] k(1), of n rs "ev_pollTime ev"] k(2)
    by (auto simp: s0_def act_def active_of_def)
  have own: "own_ok s1 d" if o: "own_ok s0 d" for d
  proof -
    from s1(3) obtain r where r: "heap s1 d = (heap s0 d)\<lparr>ch_revents := r\<rparr>" by blast
    from o s1(4) obtain x where "registered s1 d" "entry_of s1 d = (entry_of s0 d)\<lparr>pfd_revents := x\<rparr>" by (auto simp: own_ok_def)
    with r o loop_fields(1) [OF s1(5)] show ?thesis by (simp add: own_ok_def)
  qed
  note f1 = loop_fields [OF s1(5)]
  have i1: "loop_inv [] [] s1" using loop_inv_poller [OF i0 s1(2) own own s1(5)] loop_invD(3,4) [OF i0] by simp
  define s2 where "s2 = s1\<lparr>rx_active := act, lp_pollReturnTime := ev_pollTime ev, lp_iteration := lp_iteration s1 + 1,
      rx_eventHandling := True\<rparr>"
  have i2: "loop_inv [] [] s2" "rx_eventHandling s2"
    by (rule loop_inv_change [OF i1]) (use loop_invD(5,6) [OF i1] in \<open>simp_all add: s2_def same_poller_def\<close>)
  obtain s3 where s3: "foldR (dispatch F prog alive ev) act s2 = Inr s3" "loop_inv [] [] s3"
    "loop_frame (s2\<lparr>rx_current := rx_current s3, lp_handled := lp_handled s2 @ act\<rparr>) s3"
    using dispatch_all [OF p i2] by blast
  define s4 where "s4 = s3\<lparr>rx_current := None, rx_eventHandling := False\<rparr>"
  have "loop_inv [] [] s4" "\<not> rx_eventHandling s4" "rx_current s4 = None"
    by (rule loop_inv_change [OF s3(2)]) (use loop_invD(5,6) [OF s3(2)] in \<open>simp_all add: s4_def same_poller_def\<close>)
  then obtain s' where s': "Loop_doPendingFunctors prog ev s4 = Inr s'" "loop_idle s'" "lp_ran s' = lp_ran s4 @ lp_pending s4"
    "lp_handled s' = lp_handled s4" "lp_looping s' = lp_looping s4" "lp_iteration s' = lp_iteration s4"
    using Loop_doPendingFunctors_ok [OF p] by blast
  have "loop_round F prog alive ev s = Inr s'"
    using s1(1) s3(1) s'(1) by (simp add: loop_round_def s0_def s2_def s4_def)
  moreover have "\<exists>fs. lp_pending s4 = lp_pending s @ fs" "lp_ran s4 = lp_ran s" "lp_handled s4 = lp_handled s @ act"
    "lp_looping s4 = lp_looping s" "lp_iteration s4 = lp_iteration s + 1"
    using s3(3) f1 by (auto simp: loop_frame_def s4_def s2_def s0_def)
  ultimately show ?thesis using s'(2-6) by (auto simp: act_def)
qed

section \<open>Runs\<close>

fun input_ok :: "lp_input \<Rightarrow> Loop \<Rightarrow> bool" where
  "input_ok (Round ev) s \<longleftrightarrow> poll_contract (ev_kp ev)"
| "input_ok (OtherAddTimer a cb w interval) s \<longleftrightarrow> theap (lp_tq s) a = None \<and> a < UINTPTR_MAX"
| "input_ok _ s \<longleftrightarrow> True"

lemma idle_frame: "loop_idle s \<Longrightarrow> loop_inv [] [] t \<Longrightarrow> loop_frame s t \<Longrightarrow> loop_idle t"
  by (simp add: loop_idle_def loop_frame_def)

lemma loop_tq_add:
  assumes "loop_tq [] fs q" "theap q a = None" "a < UINTPTR_MAX"
  shows "loop_tq [] (fs @ [AddTimerInLoop a]) (new_timer a cb w interval q)"
proof -
  obtain fl where fl: "map snd fl = add_addrs fs" "tq_inv fl q" using assms(1) by (auto simp: loop_tq_def)
  note n = new_timer_inv [OF fl(2) assms(2)]
  have "tq_inv (fl @ [(w, a)]) (new_timer a cb w interval q)"
    using n assms(3) unfolding tq_inv_def by (auto simp: new_timer_def entry_ok_def Timer_new_def)
  with fl(1) show ?thesis by (auto simp: loop_tq_def intro!: exI [of _ "fl @ [(w, a)]"])
qed

lemma loop_input_ok:
  assumes p: "prog_ok prog" and ok: "input_ok x s" and s: "loop_idle s"
  shows "\<exists>s'. loop_input F prog alive x s = Inr s' \<and> loop_idle s'"
proof (cases x)
  case (Round ev)
  have "loop_idle (s\<lparr>lp_looping := False\<rparr>)"
    using s loop_inv_change [of "[]" "[]" s "s\<lparr>lp_looping := False\<rparr>" "[]" "[]"]
    by (simp add: loop_idle_def same_poller_def) (simp add: loop_inv_def)
  then show ?thesis
    using Round s loop_round_ok [OF p s, of ev "fst (ev_kp ev (pollfds s))" "snd (ev_kp ev (pollfds s))" F alive] ok by auto
next
  case (OtherAddTimer a cb w interval)
  have i: "loop_inv [] [] s" using s by (simp add: loop_idle_def)
  define s1 where "s1 = s\<lparr>lp_tq := new_timer a cb w interval (lp_tq s)\<rparr>"
  obtain fl where "map snd fl = add_addrs (lp_pending s)" "tq_inv fl (lp_tq s)" using loop_invD(5) [OF i] by (auto simp: loop_tq_def)
  then have "loop_tq [] ([] @ lp_pending s) (new_timer a cb w interval (lp_tq s))"
    using new_timer_inv(1) [of fl] ok OtherAddTimer by (auto simp: loop_tq_def)
  then have s1: "loop_inv [] [] s1" "loop_frame s s1" unfolding s1_def using loop_inv_tq [OF i] by auto
  have "loop_tq [] ([] @ lp_pending s1 @ [AddTimerInLoop a]) (lp_tq s1)"
    using loop_tq_add [of "lp_pending s" "lp_tq s" a cb w interval] loop_invD(5) [OF i] ok OtherAddTimer by (simp add: s1_def)
  from queue_ok [OF s1(1) this, of False] s s1(2) idle_frame loop_frame_trans show ?thesis
    by (simp add: OtherAddTimer TimerQueue_addTimer_def other_addTimer_def s1_def)
next
  case (OtherQueue n)
  have i: "loop_inv [] [] s" using s by (simp add: loop_idle_def)
  show ?thesis using OtherQueue queue_ok [OF i, of "UserFn n" False] loop_invD(5) [OF i] idle_frame [OF s]
    by (simp add: loop_tq_def)
next
  case (OtherCancel j)
  have i: "loop_inv [] [] s" using s by (simp add: loop_idle_def)
  show ?thesis using OtherCancel queue_ok [OF i, of "CancelInLoop j" False] loop_invD(5) [OF i] idle_frame [OF s]
    by (simp add: EventLoop_cancel_def other_cancel_def loop_tq_def)
next
  case OtherQuit
  then show ?thesis using quit_ok [of "[]" "[]" s False] s idle_frame [OF s] by (simp add: loop_idle_def)
qed

section \<open>Construction and destruction: lemmas\<close>

lemma register_own:
  assumes "poller_inv s" "isInLoopThread s" "c \<notin> ran (channels s)" "channels s fd = None" "0 \<le> fd" "Suc (length (pollfds s)) < 2 ^ 31"
  shows "\<exists>s'. Channel_mask EnableReading c (put_channel c (Channel_new (rx_loop s) fd) s) = Inr s' \<and> poller_inv s' \<and> own_ok s' c \<and>
     channels s' = (channels s)(fd \<mapsto> c) \<and> length (pollfds s') = Suc (length (pollfds s)) \<and>
     PollPoller.PollPoller.more s' = PollPoller.PollPoller.more s \<and> (\<forall>d. d \<noteq> c \<longrightarrow> own_ok s d \<longrightarrow> own_ok s' d) \<and>
     \<not> ch_eventHandling (heap s' c) \<and> (\<forall>d. d \<noteq> c \<longrightarrow> heap s' d = heap s d)"
proof -
  define t where "t = put_channel c (Channel_new (rx_loop s) fd) s"
  have t: "poller_inv t" "on_loop t c" "fresh t c" "heap t c = Channel_new (rx_loop s) fd" "channels t = channels s" "rx_loop t = rx_loop s"
    "pollfds t = pollfds s" "PollPoller.PollPoller.more t = PollPoller.PollPoller.more s" "d \<noteq> c \<Longrightarrow> heap t d = heap s d" for d
    using put_channel_new [OF assms(1,3)] assms(2,4,5,6)
    by (simp_all add: t_def on_loop_def isInLoopThread_def fresh_def put_channel_def Channel_new_def)
  obtain s' where s': "Channel_mask EnableReading c t = Inr s'" "poller_inv s'" "registered s' c" "on_loop s' c"
    "ch_events (heap s' c) = mask_of EnableReading (ch_events (heap t c))" "ch_fd (heap s' c) = ch_fd (heap t c)"
    "\<forall>d. d \<noteq> c \<longrightarrow> heap s' d = heap t d" "channels s' = (channels t)(ch_fd (heap t c) \<mapsto> c)"
    "PollPoller.PollPoller.more s' = PollPoller.PollPoller.more t" "pfd_fd (entry_of s' c) = ch_fd (heap t c)"
    using Channel_mask_fresh [OF t(1-3), of EnableReading] by blast
  have u: "heap s' c = set_index (int (length (pollfds t))) ((heap t c)\<lparr>ch_events := mask_of EnableReading (ch_events (heap t c))\<rparr>)"
    "length (pollfds s') = Suc (length (pollfds t))"
    using updateChannel_new [where s = "masked EnableReading c t" and c = c] masked_struct [of t EnableReading c] t(1,3) s'(1)
      Channel_mask_masked [OF t(2), of EnableReading] by (auto simp: poller_inv_def fresh_def)
  have loop: "rx_loop s' = rx_loop s" using loop_fields(1) [OF s'(9)] t(6) by simp
  have "own_ok s' c"
    using s'(3,10) u(1) t(4) loop by (simp add: own_ok_def set_index_def Channel_new_def)
  moreover have "own_ok s' d" if o: "own_ok s d" "d \<noteq> c" for d
  proof (rule own_ok_frame [where k = "ch_index (heap s d)", OF o(1)])
    have r: "registered t d" "entry_of t d = entry_of s d" "heap t d = heap s d"
      using o t(5,7,9) by (simp_all add: own_ok_def registered_def entry_of_def)
    from Channel_mask_others [OF t(1,2) disjI2 [OF t(3)] s'(1) r(1) o(2)] r(2,3)
    show "registered s' d" "entry_of s' d = entry_of s d" "heap s' d = (heap s d)\<lparr>ch_index := ch_index (heap s d)\<rparr>" by simp_all
  qed (rule loop)
  ultimately show ?thesis
    unfolding t_def [symmetric]
    using s' u t(4,5,7,8,9) by (intro exI [of _ s']) (simp add: Channel_new_def set_index_def)
qed

lemma EventLoop_ctor_ok:
  assumes "0 \<le> r1" "0 \<le> r2" "r1 \<noteq> r2"
  shows "\<exists>s. EventLoop_ctor None this tid r1 r2 = Inr (s, Some this) \<and> loop_idle s \<and> \<not> lp_looping s \<and> lp_queued s = [] \<and>
     lp_tq s = TimerQueue_new \<and> channels s = [r1 \<mapsto> timer_chan, r2 \<mapsto> wakeup_chan] \<and> lp_handled s = []"
proof -
  define s0 where "s0 = Loop_fields this tid"
  have s0: "poller_inv s0" "isInLoopThread s0" "channels s0 = Map.empty" "pollfds s0 = []" "rx_loop s0 = this"
    "s0\<lparr>lp_tq := TimerQueue_new\<rparr> = s0"
    by (simp_all add: s0_def Loop_fields_def poller_inv_def poller_struct_def registered_def isInLoopThread_def)
  obtain s1 where s1: "Channel_mask EnableReading timer_chan (put_channel timer_chan (Channel_new this r1) s0) = Inr s1"
    "poller_inv s1" "own_ok s1 timer_chan" "channels s1 = [r1 \<mapsto> timer_chan]" "length (pollfds s1) = 1"
    "PollPoller.PollPoller.more s1 = PollPoller.PollPoller.more s0"
    using register_own [OF s0(1,2), of timer_chan r1] s0(3-5) assms(1) by auto
  note f1 = loop_fields [OF s1(6)]
  have "isInLoopThread s1" "wakeup_chan \<notin> ran (channels s1)" "channels s1 r2 = None" "rx_loop s1 = this"
    using f1 s0(2,5) s1(4) assms(3) by (simp_all add: timer_chan_def wakeup_chan_def)
  then obtain s2 where s2: "Channel_mask EnableReading wakeup_chan (put_channel wakeup_chan (Channel_new this r2) s1) = Inr s2"
    "poller_inv s2" "own_ok s2 wakeup_chan" "own_ok s2 timer_chan" "channels s2 = [r1 \<mapsto> timer_chan, r2 \<mapsto> wakeup_chan]"
    "PollPoller.PollPoller.more s2 = PollPoller.PollPoller.more s1"
    using register_own [OF s1(2), of wakeup_chan r2] s1(3-5) assms(2) by (auto simp: timer_chan_def wakeup_chan_def)
  note f2 = loop_fields [OF s2(6)]
  have tq: "tq_inv [] TimerQueue_new" by (simp add: tq_inv_def TimerQueue_new_def)
  have "loop_idle s2" "lp_queued s2 = []" "\<not> lp_looping s2" "lp_tq s2 = TimerQueue_new" "lp_handled s2 = []"
    using s2(2-4) f1 f2 s0(2) tq by (simp_all add: loop_idle_def loop_inv_def loop_tq_def s0_def Loop_fields_def)
  moreover have "EventLoop_ctor None this tid r1 r2 = Inr (s2, Some this)"
    using s1(1) s2(1) s0(5,6) assms(1,2)
    by (simp add: EventLoop_ctor_def TimerQueue_ctor_def createTimerfd_def createEventfd_def s0_def [symmetric])
  ultimately show ?thesis using s2(5) by blast
qed

text \<open>A second loop in the same thread ends the process.\<close>

lemma second_loop_aborts:
  assumes "0 \<le> r1" "0 \<le> r2"
  shows "EventLoop_ctor (Some other) this tid r1 r2 = Inl (Fatal ''Another EventLoop exists in this thread'')"
proof -
  have "\<exists>s. TimerQueue_ctor r1 (Loop_fields this tid) = Inr s"
  proof -
    have "EventLoop_ctor None this tid r1 (r1 + 1) \<noteq> Inl e" for e using EventLoop_ctor_ok [of r1 "r1 + 1" this tid] assms(1) by auto
    then show ?thesis by (cases "TimerQueue_ctor r1 (Loop_fields this tid)") (auto simp: EventLoop_ctor_def)
  qed
  then show ?thesis using assms(2) by (auto simp: EventLoop_ctor_def createEventfd_def)
qed

text \<open>The destructor of the timer queue frees every timer of the queue once.\<close>

lemma delete_timers:
  assumes "distinct (map snd es)" "\<forall>e \<in> set es. theap q (snd e) \<noteq> None"
  shows "foldR delete_timer es q = Inr (q\<lparr>theap := (\<lambda>a. if a \<in> snd ` set es then None else theap q a)\<rparr>)"
  using assms
proof (induction es arbitrary: q)
  case (Cons e es)
  define q1 where "q1 = q\<lparr>theap := (theap q)(snd e := None)\<rparr>"
  have "delete_timer e q = Inr q1" using Cons.prems(2) by (auto simp: delete_timer_def deref_def q1_def)
  moreover have "\<forall>d \<in> set es. theap q1 (snd d) \<noteq> None" using Cons.prems by (auto simp: q1_def image_iff)
  ultimately show ?case using Cons.IH [of q1] Cons.prems(1) by (auto simp: q1_def fun_eq_iff)
qed simp

lemma EventLoop_dtor_ok:
  assumes "loop_idle s" "\<not> ch_eventHandling (heap s timer_chan)" "\<not> ch_eventHandling (heap s wakeup_chan)"
  shows "\<exists>q. EventLoop_dtor s = Inr (q, None) \<and> (\<forall>e \<in> set (timers (lp_tq s)). theap q (snd e) = None)"
proof -
  obtain fl where "tq_inv fl (lp_tq s)" using assms(1) by (auto simp: loop_idle_def loop_inv_def loop_tq_def)
  then have "distinct (map snd (timers (lp_tq s)))" "\<forall>e \<in> set (timers (lp_tq s)). theap (lp_tq s) (snd e) \<noteq> None"
    by (auto simp: tq_inv_def entry_ok_def)
  from delete_timers [OF this] assms(2,3) show ?thesis by (simp add: EventLoop_dtor_def TimerQueue_dtor_def Channel_destroy_def)
qed

text \<open>\<^verbatim>\<open>addTimer\<close> ends with a read of \<^verbatim>\<open>timer->sequence()\<close>. In another thread the loop may have gone through two rounds
  since the timer was handed over: here the timer is inserted, found expired and deleted, and
  the read comes too late.\<close>

lemma addTimer_return_dangles:
  "\<exists>q1 q2. addTimerInLoop (Timestamp 1) 5 (new_timer 5 0 (Timestamp 10) 0 TimerQueue_new) = Inr q1 \<and>
     TimerQueue_handleRead (\<lambda>x. x) (\<lambda>_ _. []) (Timestamp 20) (Timestamp 21) q1 = Inr q2 \<and> deref 5 q2 = Inl OutOfBounds"
  by (simp add: addTimerInLoop_def TimerQueue_insert_def sizes_match_def deref_def new_timer_def Timer_new_def TimerQueue_new_def
      resetTimerfd_def TimerQueue_handleRead_def getExpired_def erase_active_def Timer_run_def TimerQueue_reset_def reset_one_def
      Timestamp_valid_def Timestamp_invalid_def less_prod_def less_Timestamp_def UINTPTR_MAX_def)

section \<open>Properties\<close>

text \<open>A program and an environment for the witnesses: a functor queues another one, a channel of the
  program that becomes readable disables itself, a timer ends the loop.\<close>

fun prog_example :: "task \<Rightarrow> Loop \<Rightarrow> lp_call list" where
  "prog_example (OnFunctor n) s = [LQueue (n + 1), LTimer (CallCancel (n, 1))]"
| "prog_example (OnTimer n) s = [LQuit]"
| "prog_example (OnRead c) s =
     (if c \<noteq> timer_chan \<and> c \<noteq> wakeup_chan \<and> on_loop s c \<and> registered s c then [LMask DisableAll c] else [])"
| "prog_example _ s = []"

definition env_example :: env where
  "env_example = \<lparr>ev_kp = kp_example, ev_pollTime = Timestamp 20, ev_now = Timestamp 21, ev_now2 = Timestamp 22,
     ev_clock = (\<lambda>_. Timestamp 23)\<rparr>"

lemma prog_example_ok: "prog_ok prog_example"
proof -
  have "lp_calls_ok (prog_example k s) s" for k s by (cases k) (auto split: sum.split)
  then show ?thesis by (simp add: prog_ok_def)
qed

text \<open>C14: A round of the loop is complete: with any program that keeps to the protocol of the classes, the
  round fails no assertion anywhere below it, handles exactly the channels that \<^verbatim>\<open>poll(2)\<close> marked,
  each once and in the order of the array, then runs every functor that was pending when the round began,
  in order and before any later one, and leaves the loop consistent and idle with its own two
  channels still registered for reading.\<close>

theorem loop_round_dispatch:
  assumes "prog_ok prog" "loop_idle s" "poll_contract (ev_kp ev)" "ev_kp ev (pollfds s) = (n, rs)"
  shows "\<exists>s' fs. loop_round F prog alive ev s = Inr s' \<and> loop_idle s' \<and> lp_iteration s' = lp_iteration s + 1 \<and>
     lp_handled s' = lp_handled s @ (if 0 < n then active_of (map2 (\<lambda>p r. p\<lparr>pfd_revents := r\<rparr>) (pollfds s) rs) s else []) \<and>
     lp_ran s' = lp_ran s @ lp_pending s @ fs \<and> lp_queued s' = lp_ran s' @ lp_pending s' \<and>
     own_ok s' timer_chan \<and> own_ok s' wakeup_chan"
  using loop_round_ok [OF assms, of F alive] by (fastforce simp: loop_idle_def loop_inv_def)

theorem loop_round_dispatch_witness:
  "\<exists>s0 s' fs. EventLoop_ctor None 1 4 7 8 = Inr (s0, Some 1) \<and>
     loop_round (\<lambda>x. x) prog_example (\<lambda>_ _. True) env_example (Loop_queueInLoop False (UserFn 5) s0) = Inr s' \<and>
     loop_idle s' \<and> lp_ran s' = UserFn 5 # fs"
proof -
  obtain s0 where s0: "EventLoop_ctor None 1 4 7 8 = Inr (s0, Some 1)" "loop_idle s0" "lp_queued s0 = []"
    using EventLoop_ctor_ok [of 7 8 1 4] by auto
  then have i: "loop_inv [] [] s0" "lp_ran s0 = []" "lp_pending s0 = []" by (auto simp: loop_idle_def loop_inv_def)
  define s where "s = Loop_queueInLoop False (UserFn 5) s0"
  have s: "loop_idle s" "lp_ran s = []" "lp_pending s = [UserFn 5]"
    using queue_ok [OF i(1), of "UserFn 5" False] loop_invD(5) [OF i(1)] i(2,3) idle_frame [OF s0(2)]
    by (auto simp: s_def Loop_queueInLoop_def Let_def loop_tq_def)
  have k: "poll_contract (ev_kp env_example)" "ev_kp env_example (pollfds s) = (fst (kp_example (pollfds s)), snd (kp_example (pollfds s)))"
    using kp_example_contract by (simp_all add: env_example_def)
  from loop_round_dispatch [OF prog_example_ok s(1) k, of "\<lambda>x. x" "\<lambda>_ _. True"] s(2,3) s0(1) show ?thesis
    unfolding s_def by auto
qed



end
