(* ===== verification/Spec2Isabelle.thy ===== *)
theory Spec2Isabelle
  imports Buffer LogStream TcpConnection BlockingQueues ThreadPool ClientLife AsyncLogging Download Echo Curl Loop
begin

text \<open>
  A verification of \<^emph>\<open>leaf\<close>, a C++ network library for Linux after the model of muduo: a reactor (one
  \<^verbatim>\<open>EventLoop\<close> per thread over \<^verbatim>\<open>poll(2)\<close>), TCP servers and clients on it, and the base library they need
  (buffers, dates, threads, queues, logging). This theory imports the others and says how they fit together. All paths
  below are relative to \<^verbatim>\<open>src/\<close>.

  \<^bold>\<open>How C++ becomes HOL.\<close> An object is a record, a method is a function on it, an enumeration is a
  datatype. A call that can end the process returns \<open>'a res\<close> (theory \<open>Leaf_Prelude\<close>): \<open>Inl (AssertFailed _)\<close> for an
  \<^verbatim>\<open>assert\<close>, \<open>Inl (Fatal _)\<close> for \<^verbatim>\<open>LOG_FATAL\<close>, \<^verbatim>\<open>LOG_SYSFATAL\<close> and \<^verbatim>\<open>abort()\<close>, \<open>Inl OutOfBounds\<close> for an access outside an object or to a
  deleted one, \<open>Inl LengthError\<close> for a vector that would exceed its maximal size. So \<open>f x = Inr y\<close> says that none
  of these happens. The CMake files ask for a Debug build, so assertions are on; the fatal macros
  abort because the log level is at most \<^verbatim>\<open>INFO\<close>, which is the default (theory \<open>Logging\<close> shows what a higher level
  does). Sizes are \<open>nat\<close> with the wrap-around at 64 bits written out, event masks and atomic
  integers are words, \<^verbatim>\<open>double\<close> is a rational with the rounding as a parameter, bytes are words of 8 bits and
  text is \<open>string\<close>. Pointers between objects that are mutated through them (channels, timers) are
  addresses into an explicit heap. The kernel and other libraries are arguments: \<open>poll\<close>, \<open>readv\<close>, \<open>write\<close>, \<open>read\<close>,
  \<open>connect\<close>, the clock, \<open>new\<close>, libcurl; what is assumed of them is named in a contract (for example \<open>poll_contract\<close>,
  \<open>kw_contract\<close>, \<open>allocator_ok\<close>), and each property with such a hypothesis has a witness at a concrete function.
  User callbacks are lists of calls on the library, which may depend on the state. Threads are
  step relations, with a step for each critical section.

  \<^bold>\<open>Base library.\<close>
  \<^item> \<open>Leaf_Prelude\<close>: results, \<open>foldR\<close> (a loop that stops at a fault), machine integers, decimal printing, reachability and the
    locale \<open>transition_system\<close>, which every state machine below interprets.
  \<^item> \<open>Date\<close>, \<open>Timestamp\<close> (\<^verbatim>\<open>base/Date.cc\<close>, \<^verbatim>\<open>base/Timestamp.cc\<close>): Julian day numbers against the Gregorian calendar (locale
    \<open>day_numbering\<close>), round trips of dates and of formatted times.
  \<^item> \<open>StringPiece\<close>, \<open>LogStream\<close> (\<^verbatim>\<open>base/StringPiece.h\<close>, \<^verbatim>\<open>base/LogStream.cc\<close>): comparison of views; number formatting against a
    reference, and the fixed buffer that takes an item whole or not at all (locale \<open>text_sink\<close>).
  \<^item> \<open>Monitor\<close>, \<open>BlockingQueues\<close>, \<open>ThreadPool\<close> (\<^verbatim>\<open>base/Mutex.h\<close>, \<^verbatim>\<open>base/Condition.cc\<close>, \<^verbatim>\<open>base/BlockingQueue.h\<close>, \<^verbatim>\<open>base/BoundedBlockingQueue.h\<close>,
    \<^verbatim>\<open>base/CountDownLatch.cc\<close>, \<^verbatim>\<open>base/Atomic.h\<close>, \<^verbatim>\<open>base/Thread.cc\<close>, \<^verbatim>\<open>base/ThreadPool.cc\<close>): any number of threads in one monitor. The locale
    \<open>monitor_laws\<close> gives invariants, its extensions \<open>signalling\<close> and \<open>broadcast\<close> exclude lost wake-ups; the queues, the latch and
    the pool interpret them.
  \<^item> \<open>Logging\<close>, \<open>AsyncLogging\<close> (\<^verbatim>\<open>base/Logging.cc\<close>, \<^verbatim>\<open>base/LogFile.cc\<close>, \<^verbatim>\<open>base/AsyncLogging.cc\<close>): the text of a log line, files that roll, and
    the double buffering between the threads that log and the one that writes.
  \<^item> \<open>FileUtil\<close>, \<open>ProcessInfo\<close> (\<^verbatim>\<open>base/FileUtil.cc\<close>, \<^verbatim>\<open>base/ProcessInfo.cc\<close>, \<^verbatim>\<open>base/Exception.cc\<close>): reading small files and \<^verbatim>\<open>/proc\<close>, stack traces.

  \<^bold>\<open>Reactor.\<close>
  \<^item> \<open>Channel\<close> (\<^verbatim>\<open>net/Channel.cc\<close>): event masks and the order in which callbacks are dispatched.
  \<^item> \<open>PollPoller\<close> (\<^verbatim>\<open>net/poller/PollPoller.cc\<close>, \<^verbatim>\<open>net/Poller.h\<close>): the array of \<^verbatim>\<open>pollfd\<close> with the map and the indices. The locale \<open>channel_registry\<close> is what the
    users of channels rely on.
  \<^item> \<open>TimerQueue\<close> (\<^verbatim>\<open>net/TimerQueue.cc\<close>, \<^verbatim>\<open>net/Timer.h\<close>): timers on a heap; the locale \<open>expiry_queue\<close> is the queue ordered by time.
  \<^item> \<open>EventLoop\<close> (\<^verbatim>\<open>net/EventLoop.cc\<close>): the functor queue and the wakeup descriptor, with other threads at every point.
  \<^item> \<open>Loop\<close>: the whole \<^verbatim>\<open>EventLoop\<close> from constructor to destructor. A round polls, dispatches to the channels (timers and wakeups
    among them) and runs the functors; a program that keeps to the protocol of the classes never makes an assertion fail.

  \<^bold>\<open>Network.\<close>
  \<^item> \<open>Endian\<close>, \<open>Buffer\<close> (\<^verbatim>\<open>net/Endian.h\<close>, \<^verbatim>\<open>net/Buffer.h\<close>, \<^verbatim>\<open>net/Buffer.cc\<close>): the I/O buffer as a queue of bytes (locale \<open>byte_queue\<close>), integers in network order.
  \<^item> \<open>Sockets\<close>, \<open>Connector\<close> (\<^verbatim>\<open>net/InetAddress.cc\<close>, \<^verbatim>\<open>net/SocketsOps.cc\<close>, \<^verbatim>\<open>net/Socket.cc\<close>, \<^verbatim>\<open>net/Connector.cc\<close>): addresses as text, the outcome of socket calls, and
    the state machine of an outgoing connection with its retries.
  \<^item> \<open>TcpConnection\<close> (\<^verbatim>\<open>net/TcpConnection.cc\<close>): states, buffers and channel of a connection. Sends and writability refine a byte
    stream (locale \<open>byte_stream\<close>): every byte once and in order, and nothing left behind at the end.
  \<^item> \<open>Server\<close> (\<^verbatim>\<open>net/EventLoopThread.cc\<close>, \<^verbatim>\<open>net/EventLoopThreadPool.cc\<close>, \<^verbatim>\<open>net/Acceptor.cc\<close>, \<^verbatim>\<open>net/TcpServer.cc\<close>, \<^verbatim>\<open>net/TcpClient.cc\<close>): loops handed over by their threads, accepting, the
    table of connections, the client.
  \<^item> \<open>ConnDispatch\<close>: \<^verbatim>\<open>Channel::handleEvent()\<close> with the callbacks of a connection. The callbacks leave the reported events alone, so
    a dispatch is their fixed sequence; it keeps the connection whole and closes it when it should.
  \<^item> \<open>ServerLife\<close>: the server, its connections and the functors that travel between their loops. Each connection is at every
    moment in one of six phases, which the object, the table and the two queues show; so no assertion of the life cycle
    fails in any interleaving.
  \<^item> \<open>ClientLife\<close>: the client with its connector, its connections and the functors of their loop, in the same way. What the two owners
    rely on is the locale \<open>connection_contract\<close> of \<open>ConnDispatch\<close>, interpreted on \<^verbatim>\<open>TcpConnection\<close>.
  \<^item> \<open>Echo\<close>, \<open>Download\<close>, \<open>Curl\<close> (\<^verbatim>\<open>example/echo\<close>, \<^verbatim>\<open>example/discard\<close>, \<^verbatim>\<open>example/curl\<close>): the example programs, as clients of the theories
    above. The echo and discard servers interpret \<open>byte_stream\<close> on the connection; the curl glue uses the channels of
    \<open>PollPoller\<close>.

  \<^bold>\<open>Kinds of properties.\<close> Invariants and the absence of faults in all reachable states (buffer, poller, timers, loop, connection,
  connector, queues, pool, server and client with their connections, log, curl), refinement (connection, echo), equivalence with reference definitions (dates, number
  formatting, string order), round trips (integers, dates, times, addresses), exact functional behaviour (append, read, poll, dispatch, expiry,
  log lines and files), termination (file reading), no lost wake-ups (loop, queues, pool), and error behaviour: where the
  code fails an assertion or loses something, the theorem says exactly when.

  \<^bold>\<open>Loops and bounds.\<close> Recursion is structural or has a measure, except for the \<^verbatim>\<open>do ... while\<close> over libcurl's answers in \<open>Curl\<close>, which is a
  \<open>partial_function\<close> because libcurl may ask for repetition forever. Runs of the loop take the answers of the kernel as a
  list, and the theorems hold for every list, so there is no fuel to choose. The number of registered channels is below \<^verbatim>\<open>INT_MAX\<close> and
  buffers are below the maximal size of a vector: both are hypotheses where a narrowing conversion depends on them.

  \<^bold>\<open>Not modelled.\<close> The unit tests and the \<open>main\<close> functions, which only put objects together; the build files; \<^verbatim>\<open>base/ThreadLocalSingleton.h\<close>, which
  no other file includes and which does not compile; \<^verbatim>\<open>base/CurrentThread.cc\<close>, which is not part of the build and repeats code of
  \<^verbatim>\<open>base/Thread.cc\<close>; the overloads for rvalue references, which are compiled out (and would not compile); plain getters,
  setters of callbacks, type definitions and system-call wrappers without a decision in them. Data races below the level of critical
  sections (flags read without a lock) are steps of the relations, not of the C++ memory model. In \<open>ServerLife\<close> and \<open>ClientLife\<close> the owner outlives
  its connections: the close callback holds a raw pointer to it (marked unsafe in the source), so an event after its destructor is undefined; what
  the destructors ask of the connections is in \<open>Server\<close>, and the connection a client leaves behind is in \<open>ClientLife\<close>.
\<close>

section \<open>From the log call to the files\<close>

text \<open>The logging thread hands each text of \<open>al_out\<close> to \<open>LogFile_append\<close>, at the time the clock shows then.\<close>

lemma concat_map_concat: "concat (map concat xss) = concat (concat xss)"
  by (induction xss) simp_all

lemma files_text:
  assumes "spread lines lf"
  shows "concat (map fl_text (lf_closed lf @ [lf_file lf])) = concat lines"
proof -
  obtain lss ls where "map fl_text (lf_closed lf) = map concat lss" "fl_text (lf_file lf) = concat ls" "concat lss @ ls = lines"
    using assms unfolding spread_def by blast
  then show ?thesis by (auto simp: concat_map_concat)
qed

lemma write_out_fields:
  assumes "write_out notice s = Inr s'" "length (al_toWrite s) \<le> 25"
  shows "al_lines s' = al_lines s" "al_current s' = al_current s" "al_buffers s' = al_buffers s" "al_toWrite s' = []"
    "al_dropped s' = al_dropped s"
  using assms by (auto simp: write_out_def Let_def res_simps split: if_splits)

lemma collect_fields:
  assumes "collect s = Inr s'" "al_inv storage s"
  shows "al_lines s' = al_lines s" "fb_asString (al_current s') = []" "al_buffers s' = []" "al_dropped s' = al_dropped s"
    "al_toWrite s' = al_buffers s @ [al_current s]"
  using assms spare_text [of storage] by (auto simp: collect_def Let_def al_inv_def split: option.splits if_splits)

lemma log_round:
  assumes i: "al_inv storage s" and pc: "al_pc s = BTop" "al_running s" and few: "length (al_buffers s) < 25" and d: "\<not> al_dropped s"
  shows "\<exists>s'. (al_step storage)\<^sup>*\<^sup>* s s' \<and> al_lines s' = al_lines s \<and> concat (al_out s') = concat (al_lines s)"
proof -
  obtain s1 where s1: "collect s = Inr s1" using i pc by (auto simp: al_inv_def collect_def Let_def)
  have i1: "al_inv storage (s1\<lparr>al_pc := BWrite\<rparr>)" by (rule collect_al_inv [OF i pc(1) s1])
  obtain s2 where s2: "write_out [] (s1\<lparr>al_pc := BWrite\<rparr>) = Inr s2" "al_inv storage (s2\<lparr>al_pc := BTop\<rparr>)"
    using write_al_ok [OF i1, of "[]"] by auto
  note f1 = collect_fields [OF s1 i]
  have "length (al_toWrite (s1\<lparr>al_pc := BWrite\<rparr>)) \<le> 25" using f1(5) few by simp
  note f2 = write_out_fields [OF s2(1) this]
  have "concat (al_out s2) = concat (al_lines s)" using s2(2) f1 f2 d by (simp add: al_inv_def)
  moreover have "(al_step storage)\<^sup>*\<^sup>* s (s2\<lparr>al_pc := BTop\<rparr>)"
    using al_collect [OF pc s1, of storage] al_write [OF _ s2(1), of storage] by (simp add: converse_rtranclp_into_rtranclp)
  ultimately show ?thesis using f1(1) f2(1) by (intro exI [of _ "s2\<lparr>al_pc := BTop\<rparr>"]) simp
qed


lemma async_one_line:
  assumes "2 \<le> length storage" "length storage < SIZE_MOD"
  shows "\<exists>s. reach (\<lambda>s. length storage < SIZE_MOD \<and> s = AsyncLogging_new storage) (al_step storage) s \<and>
     al_pc s = BTop \<and> al_running s \<and> al_buffers s = [] \<and> \<not> al_dropped s \<and> al_lines s = [''x'']"
proof -
  define b where "b = fb_bzero (FixedBuffer_new storage)"
  have b: "buf_ok storage b" "fb_cur b = 0"
    using assms(2) by (simp_all add: b_def fb_bzero_def FixedBuffer_new_def buf_ok_def fb_inv_def)
  obtain b' where b': "fb_append ''x'' b = Inr b'" using fb_append_fits [OF b(1), of "''x''"] b(2) assms(1) by auto
  have "fb_avail b > 1" using b assms(1) by (simp add: fb_avail_def buf_ok_def)
  then have "AsyncLogging_append storage ''x'' (AsyncLogging_new storage) =
      Inr ((AsyncLogging_new storage)\<lparr>al_lines := [''x''], al_current := b'\<rparr>)"
    using b' by (simp add: AsyncLogging_append_def AsyncLogging_new_def Let_def b_def)
  then have "al_step storage (AsyncLogging_new storage) ((AsyncLogging_new storage)\<lparr>al_lines := [''x''], al_current := b'\<rparr>)"
    by (rule al_append [rotated]) (use assms(1) in simp)
  moreover have "reach (\<lambda>s. length storage < SIZE_MOD \<and> s = AsyncLogging_new storage) (al_step storage) (AsyncLogging_new storage)"
    by (rule reach_init) (simp add: assms(2))
  ultimately have "reach (\<lambda>s. length storage < SIZE_MOD \<and> s = AsyncLogging_new storage) (al_step storage)
      ((AsyncLogging_new storage)\<lparr>al_lines := [''x''], al_current := b'\<rparr>)" by (metis reach_step)
  then show ?thesis
    by (intro exI [of _ "(AsyncLogging_new storage)\<lparr>al_lines := [''x''], al_current := b'\<rparr>"])
      (simp add: AsyncLogging_new_def Let_def)
qed


end
